(* ===== verification/Go_Base.thy ===== *)
theory Go_Base
  imports
    Main
    "HOL-Library.Multiset"
    "HOL-Library.Word"
    "HOL-Library.AList"
    "HOL-Library.Signed_Division"
    "HOL-Library.List_Lexorder"
    "HOL-Library.Char_ord"
begin

text \<open>
  Prelude: the Go values every component uses.

  \<^item> \<open>int64\<close> is a 64 bit word: \<open>+\<close> wraps as Go's does and \<open>sint\<close>, \<open><s\<close>, \<open>\<le>s\<close> read it
    as the signed number it is.
  \<^item> A Go map is an association list with distinct keys (\<open>map_ok\<close>).  \<open>map_of\<close> is the
    comma-ok read, \<open>map_zero\<close> the plain read with its zero value, \<open>AList.update\<close> the
    assignment \<open>m[k] = v\<close> and \<open>length\<close> is \<open>len(m)\<close>.  The order of the list is the order in
    which one \<open>range\<close> loop visits the entries; nothing may depend on it, and the lemmas that
    matter say so.
  \<^item> An error is a gRPC status or any other Go error; a runtime panic is a value of its own.
  \<^item> The locale \<open>go_map\<close> is the contract of a map, the interface through which the components
    reason about theirs.
\<close>

section \<open>Integers\<close>

type_synonym int64 = "64 word"
type_synonym int32 = "32 word"

named_theorems int64_simps \<open>signed reading of 64 bit words\<close>

lemma sint64_ge: "- (2 ^ 63) \<le> sint (w :: int64)"
  using sint_ge [of w] by simp

lemma sint64_lt: "sint (w :: int64) < 2 ^ 63"
  using sint_lt [of w] by simp

lemma sint64_of_int:
  assumes "- (2 ^ 63) \<le> i" and "i < 2 ^ 63"
  shows "sint (word_of_int i :: int64) = i"
proof -
  have "sint (word_of_int i :: int64) = signed_take_bit 63 i"
    by (simp add: sint_sbintrunc')
  also have "\<dots> = i"
    using assms by (simp add: signed_take_bit_int_eq_self)
  finally show ?thesis .
qed

lemma sint64_inc:
  assumes "sint (w :: int64) < 2 ^ 63 - 1"
  shows "sint (w + 1) = sint w + 1"
proof -
  have "w + 1 = word_of_int (sint w + 1)"
    by simp
  moreover have "sint (word_of_int (sint w + 1) :: int64) = sint w + 1"
    using assms sint64_ge [of w] by (intro sint64_of_int) simp_all
  ultimately show ?thesis by simp
qed

lemma int64_less [int64_simps]: "(a :: int64) <s b \<longleftrightarrow> sint a < sint b"
  by (rule word_sless_alt)

lemma int64_le [int64_simps]: "(a :: int64) \<le>s b \<longleftrightarrow> sint a \<le> sint b"
  by (rule word_sle_eq)

lemma int64_eq: "(a :: int64) = b \<longleftrightarrow> sint a = sint b"
  by (auto intro: signed_word_eqI)

text \<open>Go's \<open>%\<close> truncates towards zero, as \<open>smod\<close> does.\<close>

lemma go_rem_nonneg: "0 \<le> a \<Longrightarrow> 0 < n \<Longrightarrow> a smod n = a mod (n :: int)"
  by (cases "a = 0") (simp_all add: signed_modulo_int_def)

lemma go_rem_range: "0 \<le> a \<Longrightarrow> 0 < n \<Longrightarrow> 0 \<le> a smod n \<and> a smod n < (n :: int)"
  by (simp add: go_rem_nonneg)

section \<open>Errors, panics and connections\<close>

text \<open>
  gRPC's status codes: the ones the program names, and any other by its name.
\<close>

datatype grpc_code = OK | InvalidArgument | Unavailable | OtherCode string

text \<open>
  An \<open>error\<close> value: what \<open>status.FromError\<close> recognises as a status, or another error, with
  its message.
\<close>

datatype go_error = GrpcStatus grpc_code string | OtherError string

datatype panic = IndexOutOfRange

text \<open>A \<open>*grpc.ClientConn\<close>, by the target it was dialled with.\<close>

datatype client_conn = ClientConn string

primrec conn_target :: "client_conn \<Rightarrow> string" where
  "conn_target (ClientConn a) = a"

section \<open>Maps\<close>

type_synonym ('k, 'v) gomap = "('k \<times> 'v) list"

definition map_ok :: "('k, 'v) gomap \<Rightarrow> bool" where
  "map_ok m \<longleftrightarrow> distinct (map fst m)"

definition map_zero :: "('k, 'v :: zero) gomap \<Rightarrow> 'k \<Rightarrow> 'v" where
  "map_zero m k = (case map_of m k of None \<Rightarrow> 0 | Some v \<Rightarrow> v)"

text \<open>The contract of a map: a read sees the last write, and \<open>len\<close> counts the keys.\<close>

locale go_map =
  fixes lookup :: "'m \<Rightarrow> 'k \<Rightarrow> 'v option"
    and put :: "'k \<Rightarrow> 'v \<Rightarrow> 'm \<Rightarrow> 'm"
    and len :: "'m \<Rightarrow> nat"
    and ok :: "'m \<Rightarrow> bool"
  assumes lookup_put: "lookup (put k v m) = (lookup m)(k \<mapsto> v)"
    and finite_dom: "finite (dom (lookup m))"
    and len_dom: "ok m \<Longrightarrow> len m = card (dom (lookup m))"
    and ok_put: "ok m \<Longrightarrow> ok (put k v m)"
begin

lemma lookup_put_same: "lookup (put k v m) k = Some v"
  by (simp add: lookup_put)

lemma lookup_put_other: "k' \<noteq> k \<Longrightarrow> lookup (put k v m) k' = lookup m k'"
  by (simp add: lookup_put)

lemma len_put:
  assumes "ok m"
  shows "len (put k v m) = (if lookup m k = None then Suc (len m) else len m)"
proof -
  have "len (put k v m) = card (insert k (dom (lookup m)))"
    using assms by (simp add: len_dom ok_put lookup_put)
  also have "\<dots> = (if k \<in> dom (lookup m) then len m else Suc (len m))"
    using assms by (simp add: card_insert_if finite_dom len_dom)
  finally show ?thesis by (auto simp: domIff)
qed

lemma lookup_put_all:
  "lookup (fold (\<lambda>(k, v). put k v) kvs m) = lookup m ++ map_of (rev kvs)"
  by (induction kvs arbitrary: m) (auto simp: lookup_put map_add_def fun_eq_iff split: option.splits)

lemma ok_put_all: "ok m \<Longrightarrow> ok (fold (\<lambda>(k, v). put k v) kvs m)"
  by (induction kvs arbitrary: m) (auto simp: ok_put)

lemma put_all_order:
  assumes "distinct (map fst kvs)" and "set kvs' = set kvs" and "distinct (map fst kvs')"
  shows "lookup (fold (\<lambda>(k, v). put k v) kvs' m) = lookup (fold (\<lambda>(k, v). put k v) kvs m)"
proof -
  have "map_of (rev kvs') = map_of (rev kvs)"
    using assms by (intro map_of_eqI) (auto simp: rev_map [symmetric] map_of_eq_Some_iff)
  then show ?thesis by (simp add: lookup_put_all)
qed

end

text \<open>Association lists keep that contract.\<close>

interpretation amap: go_map map_of AList.update length map_ok
proof unfold_locales
  show "map_of (AList.update k v m) = (map_of m)(k \<mapsto> v)" for k :: 'k and v :: 'v and m
    by (rule update_conv')
  show "finite (dom (map_of m))" for m :: "('k \<times> 'v) list"
    by (rule finite_dom_map_of)
  show "map_ok m \<Longrightarrow> length m = card (dom (map_of m))" for m :: "('k \<times> 'v) list"
    by (metis distinct_card dom_map_of_conv_image_fst length_map list.set_map map_ok_def)
  show "map_ok m \<Longrightarrow> map_ok (AList.update k v m)" for k :: 'k and v :: 'v and m
    by (simp add: map_ok_def distinct_update)
qed

lemma map_ok_Nil [simp]: "map_ok []"
  by (simp add: map_ok_def)

lemma map_zero_put: "map_zero (AList.update k v m) k' = (if k' = k then v else map_zero m k')"
  by (simp add: map_zero_def amap.lookup_put)

lemma map_zero_Nil [simp]: "map_zero [] k = 0"
  by (simp add: map_zero_def)

lemma map_zero_cong: "map_of m k = map_of m' k \<Longrightarrow> map_zero m k = map_zero m' k"
  by (simp add: map_zero_def)

section \<open>Lists\<close>

lemma map_fst_pairs [simp]: "map fst (map (\<lambda>x. (x, f x)) xs) = xs"
  by (induction xs) auto

lemma mset_sort_eq: "mset xs = mset ys \<Longrightarrow> sort xs = sort (ys :: 'a :: linorder list)"
  by (rule properties_for_sort) simp_all

end
