(* ===== verification/Go_Strings.thy ===== *)
theory Go_Strings
  imports Go_Base
begin

text \<open>
  The parts of Go's \<open>strconv\<close>, \<open>fmt\<close> and \<open>strings\<close> the program calls on text: decimal formatting
  of an \<open>int64\<close> (the verb \<open>%d\<close> and \<open>strconv.FormatInt(_, 10)\<close>), \<open>strconv.ParseInt(_, 10, 64)\<close>
  with its syntax and range errors, \<open>strings.LastIndex\<close> for a one byte separator.  The lemmas
  give the round trip between formatting and parsing and the way a text with a separator is
  taken apart again.
\<close>

section \<open>Decimal numbers\<close>

definition digit_char :: "nat \<Rightarrow> char" where
  "digit_char d = char_of (48 + d)"

definition digit_val :: "char \<Rightarrow> nat option" where
  "digit_val c = (let n = of_char c in if 48 \<le> n \<and> n \<le> 57 then Some (n - 48) else (None :: nat option))"

fun dec_digits :: "nat \<Rightarrow> string" where
  "dec_digits n = (if n < 10 then [digit_char n] else dec_digits (n div 10) @ [digit_char (n mod 10)])"

declare dec_digits.simps [simp del]

definition FormatInt :: "int64 \<Rightarrow> string" where
  "FormatInt w = (let i = sint w in if i < 0 then CHR ''-'' # dec_digits (nat (- i)) else dec_digits (nat i))"

datatype num_error = ErrSyntax | ErrRange

definition max_uint64 :: nat where
  "max_uint64 = 2 ^ 64 - 1"

fun parse_digits :: "nat \<Rightarrow> string \<Rightarrow> num_error + nat" where
  "parse_digits n [] = Inr n"
| "parse_digits n (c # cs) =
     (case digit_val c of
        None \<Rightarrow> Inl ErrSyntax
      | Some d \<Rightarrow>
          if max_uint64 div 10 + 1 \<le> n then Inl ErrRange
          else if max_uint64 < n * 10 + d then Inl ErrRange
          else parse_digits (n * 10 + d) cs)"

definition ParseUint :: "string \<Rightarrow> num_error + nat" where
  "ParseUint s = (if s = [] then Inl ErrSyntax else parse_digits 0 s)"

definition ParseInt :: "string \<Rightarrow> num_error + int64" where
  "ParseInt s =
     (case s of
        [] \<Rightarrow> Inl ErrSyntax
      | c # cs \<Rightarrow>
          let neg = (c = CHR ''-''); body = (if c = CHR ''+'' \<or> c = CHR ''-'' then cs else s) in
          case ParseUint body of
            Inl e \<Rightarrow> Inl e
          | Inr un \<Rightarrow>
              if \<not> neg \<and> 2 ^ 63 \<le> un then Inl ErrRange
              else if neg \<and> 2 ^ 63 < un then Inl ErrRange
              else Inr (word_of_int (if neg then - int un else int un)))"

lemma digit_val_char: "d < 10 \<Longrightarrow> digit_val (digit_char d) = Some d"
  by (simp add: digit_val_def digit_char_def of_char_of take_bit_eq_mod)

lemma digit_char_not_special:
  assumes "d < 10"
  shows "digit_char d \<noteq> CHR ''-'' \<and> digit_char d \<noteq> CHR ''+'' \<and> digit_char d \<noteq> CHR '':''"
proof -
  have "digit_val (digit_char d) \<noteq> None"
    using digit_val_char [OF assms] by simp
  moreover have "digit_val CHR ''-'' = None" "digit_val CHR ''+'' = None" "digit_val CHR '':'' = None"
    by (simp_all add: digit_val_def of_char_def)
  ultimately show ?thesis by metis
qed

lemma dec_digits_chars: "c \<in> set (dec_digits n) \<Longrightarrow> \<exists>d < 10. c = digit_char d"
proof (induction n rule: dec_digits.induct)
  case (1 n)
  show ?case
  proof (cases "n < 10")
    case True
    then show ?thesis using "1.prems" by (auto simp: dec_digits.simps [of n])
  next
    case False
    then consider "c \<in> set (dec_digits (n div 10))" | "c = digit_char (n mod 10)"
      using "1.prems" by (auto simp: dec_digits.simps [of n])
    then show ?thesis
      by cases (use False "1.IH" in \<open>auto intro: exI [of _ "n mod 10"]\<close>)
  qed
qed

lemma dec_digits_nonempty: "dec_digits n \<noteq> []"
  by (subst dec_digits.simps) simp

lemma dec_digits_not_special:
  "CHR ''-'' \<notin> set (dec_digits n) \<and> CHR ''+'' \<notin> set (dec_digits n) \<and> CHR '':'' \<notin> set (dec_digits n)"
  using dec_digits_chars digit_char_not_special by metis

lemma parse_digits_append:
  "parse_digits n (xs @ ys) = (case parse_digits n xs of Inl e \<Rightarrow> Inl e | Inr m \<Rightarrow> parse_digits m ys)"
  by (induction n xs rule: parse_digits.induct) (auto split: option.splits)

lemma parse_digits_dec: "n \<le> max_uint64 \<Longrightarrow> parse_digits 0 (dec_digits n) = Inr n"
proof (induction n rule: dec_digits.induct)
  case (1 n)
  show ?case
  proof (cases "n < 10")
    case True
    then show ?thesis
      by (subst dec_digits.simps) (simp add: digit_val_char max_uint64_def)
  next
    case False
    have "n div 10 < max_uint64 div 10 + 1"
      using "1.prems" by (simp add: div_le_mono le_imp_less_Suc)
    moreover have "n div 10 * 10 + n mod 10 = n" by simp
    moreover have "parse_digits 0 (dec_digits (n div 10)) = Inr (n div 10)"
      using False "1.prems" by (intro "1.IH") (simp_all add: order_trans [OF div_le_dividend])
    ultimately show ?thesis
      using False "1.prems"
      by (subst dec_digits.simps) (simp add: parse_digits_append digit_val_char)
  qed
qed

lemma ParseUint_dec: "n \<le> max_uint64 \<Longrightarrow> ParseUint (dec_digits n) = Inr n"
  by (simp add: ParseUint_def dec_digits_nonempty parse_digits_dec)

text \<open>What \<open>%d\<close> writes, \<open>ParseInt\<close> reads back, at every \<open>int64\<close>.\<close>

lemma ParseInt_FormatInt: "ParseInt (FormatInt w) = Inr w"
proof (cases "sint w < 0")
  case True
  have "nat (- sint w) \<le> 2 ^ 63" using sint64_ge [of w] by simp
  moreover from this have "ParseUint (dec_digits (nat (- sint w))) = Inr (nat (- sint w))"
    by (intro ParseUint_dec) (simp add: max_uint64_def)
  ultimately show ?thesis using True
    by (simp add: FormatInt_def ParseInt_def)
next
  case False
  let ?n = "nat (sint w)"
  have lt: "?n < 2 ^ 63" using sint64_lt [of w] by (simp add: nat_less_iff False)
  then have "ParseUint (dec_digits ?n) = Inr ?n"
    by (intro ParseUint_dec) (simp add: max_uint64_def)
  moreover obtain c cs where "dec_digits ?n = c # cs"
    using dec_digits_nonempty [of ?n] by (cases "dec_digits ?n") auto
  moreover from this have "c \<noteq> CHR ''-''" "c \<noteq> CHR ''+''"
    using dec_digits_not_special [of ?n] by auto
  ultimately show ?thesis using False lt
    by (simp add: FormatInt_def ParseInt_def)
qed

lemma FormatInt_no_colon: "CHR '':'' \<notin> set (FormatInt w)"
  by (simp add: FormatInt_def Let_def dec_digits_not_special)

lemma FormatInt_inject: "FormatInt v = FormatInt w \<Longrightarrow> v = w"
  by (metis ParseInt_FormatInt sum.inject(2))

section \<open>The last separator of a text\<close>

fun LastIndex :: "string \<Rightarrow> char \<Rightarrow> int" where
  "LastIndex [] c = -1"
| "LastIndex (x # xs) c =
     (let i = LastIndex xs c in if 0 \<le> i then i + 1 else if x = c then 0 else -1)"

lemma LastIndex_none: "c \<notin> set xs \<Longrightarrow> LastIndex xs c = -1"
  by (induction xs) auto

lemma LastIndex_mid: "c \<notin> set ys \<Longrightarrow> LastIndex (xs @ c # ys) c = int (length xs)"
  by (induction xs) (auto simp: LastIndex_none)

lemma LastIndex_neg_iff: "LastIndex xs c < 0 \<longleftrightarrow> c \<notin> set xs"
  by (induction xs) (auto simp: Let_def)

end
