(* ===== verification/Messages.thy ===== *)
theory Messages
  imports Go_Base
begin

text \<open>
  The messages of \<open>proto/counter.proto\<close>, one record per message with a field per proto field (the
  generated structs of \<open>gen/counter/counter.pb.go\<close>).  A message-valued field is an optional
  value, as its Go pointer may be nil; a proto map is a Go map; a repeated field is a list.
  The zero-valued message of a composite literal with missing fields is written out.
\<close>

record IncrRequest =
  irq_CounterId :: string
  irq_ClientId :: string
  irq_RequestId :: int64

record IncrResponse =
  irs_NewValue :: int64
  irs_RedirectTo :: string

record GetRequest =
  grq_CounterId :: string

record GetResponse =
  grs_Value :: int64
  grs_RedirectTo :: string

record PingRequest =
  prq_ViewNumber :: int64
  prq_SenderId :: string

record PingResponse =
  prs_Ok :: bool
  prs_ViewNumber :: int64

record ViewChangeMsg =
  vcm_ViewNumber :: int64
  vcm_SenderId :: string

record ViewChangeAck =
  vca_Accepted :: bool
  vca_ViewNumber :: int64

record ReplicateMsg =
  rpm_CounterId :: string
  rpm_NewValue :: int64
  rpm_ClientId :: string
  rpm_RequestId :: int64
  rpm_CachedResponse :: "IncrResponse option"

record ReplicateAck =
  rpa_Ok :: bool

record TransferReq =
  trq_RequesterId :: string

record CacheEntry =
  ce_ClientId :: string
  ce_RequestId :: int64
  ce_Response :: "IncrResponse option"

record TransferResp =
  trs_Counters :: "(string, int64) gomap"
  trs_Cache :: "CacheEntry list"
  trs_ViewNumber :: int64

text \<open>
  What a handler does to the world besides changing its server: the RPCs it starts on a peer's
  connection, in the order the loop over the peers starts them, and the sleeps it makes.
\<close>

datatype effect =
    CallReplicate client_conn ReplicateMsg
  | CallViewChange client_conn ViewChangeMsg
  | SleepFor int64

end
