(* ===== verification/Reply_Cache.thy ===== *)
theory Reply_Cache
  imports Go_Strings Messages
begin

text \<open>
  The reply cache of \<open>internal/server/cache.go\<close>: a map from the key \<open>clientID:requestID\<close> to the
  response of the completed request.  Each method holds the cache's mutex for its whole body,
  so each is one atomic operation.  The locale \<open>reply_store\<close> is what the request handlers rely
  on (a store addressed by the pair, not by the text of the key); the interpretation rests on
  the injectivity of the key.
\<close>

section \<open>The cache\<close>

record ReplyCache =
  entries :: "(string, IncrResponse) gomap"

definition newReplyCache :: ReplyCache where
  "newReplyCache = \<lparr>entries = []\<rparr>"

definition cacheKey :: "string \<Rightarrow> int64 \<Rightarrow> string" where
  "cacheKey clientID requestID = clientID @ CHR '':'' # FormatInt requestID"

definition cache_get :: "ReplyCache \<Rightarrow> string \<Rightarrow> int64 \<Rightarrow> IncrResponse option" where
  "cache_get c clientID requestID = map_of (entries c) (cacheKey clientID requestID)"

definition cache_set :: "ReplyCache \<Rightarrow> string \<Rightarrow> int64 \<Rightarrow> IncrResponse \<Rightarrow> ReplyCache" where
  "cache_set c clientID requestID resp =
     c\<lparr>entries := AList.update (cacheKey clientID requestID) resp (entries c)\<rparr>"

text \<open>How \<open>TransferState\<close> takes a key apart (\<open>internal/server/replication.go\<close>).\<close>

definition split_key :: "string \<Rightarrow> (string \<times> int64) option" where
  "split_key key =
     (let idx = LastIndex key CHR '':'' in
      if idx < 0 then None
      else case ParseInt (drop (nat idx + 1) key) of
             Inl e \<Rightarrow> None
           | Inr requestID \<Rightarrow> Some (take (nat idx) key, requestID))"

lemma split_cacheKey: "split_key (cacheKey c r) = Some (c, r)"
  by (simp add: split_key_def cacheKey_def LastIndex_mid FormatInt_no_colon ParseInt_FormatInt)

lemma cacheKey_inject: "cacheKey c r = cacheKey c' r' \<longleftrightarrow> c = c' \<and> r = r'"
  by (metis split_cacheKey option.inject prod.inject)

section \<open>The contract of a reply store\<close>

locale reply_store =
  fixes get :: "'s \<Rightarrow> string \<Rightarrow> int64 \<Rightarrow> IncrResponse option"
    and set_reply :: "'s \<Rightarrow> string \<Rightarrow> int64 \<Rightarrow> IncrResponse \<Rightarrow> 's"
    and empty :: 's
  assumes get_empty: "get empty c r = None"
    and get_set: "get (set_reply s c r x) c' r' = (if c' = c \<and> r' = r then Some x else get s c' r')"
begin

lemma get_set_same: "get (set_reply s c r x) c r = Some x"
  by (simp add: get_set)

lemma get_set_other: "(c', r') \<noteq> (c, r) \<Longrightarrow> get (set_reply s c r x) c' r' = get s c' r'"
  by (auto simp: get_set)

lemma get_set_mono: "get s c' r' \<noteq> None \<Longrightarrow> get (set_reply s c r x) c' r' \<noteq> None"
  by (simp add: get_set)

text \<open>Storing a batch: the last entry for a pair wins, all other pairs keep their reply.\<close>

lemma get_set_batch:
  "get (fold (\<lambda>(c, r, x) s. set_reply s c r x) es s) c r =
     (case map_of (rev (map (\<lambda>(c, r, x). ((c, r), x)) es)) (c, r) of
        None \<Rightarrow> get s c r | Some x \<Rightarrow> Some x)"
  by (induction es arbitrary: s) (auto simp: get_set map_add_def split: option.splits)

end

interpretation rcache: reply_store cache_get cache_set newReplyCache
  by unfold_locales (auto simp: cache_get_def cache_set_def newReplyCache_def cacheKey_inject
      amap.lookup_put)

text \<open>
  What every operation keeps: distinct keys, each the key of a pair with a client, and no stored
  reply that would redirect the client.
\<close>

definition entry_ok :: "string \<times> IncrResponse \<Rightarrow> bool" where
  "entry_ok kx =
     (irs_RedirectTo (snd kx) = [] \<and>
      (case split_key (fst kx) of
         None \<Rightarrow> False
       | Some (c, r) \<Rightarrow> c \<noteq> [] \<and> fst kx = cacheKey c r))"

definition cache_ok :: "ReplyCache \<Rightarrow> bool" where
  "cache_ok c \<longleftrightarrow> map_ok (entries c) \<and> list_all entry_ok (entries c)"

lemma update_all: "list_all P m \<Longrightarrow> P (k, v) \<Longrightarrow> list_all P (AList.update k v m)"
  by (induction m) auto

lemma entry_ok_key: "entry_ok (cacheKey c r, x) \<longleftrightarrow> irs_RedirectTo x = [] \<and> c \<noteq> []"
  by (simp add: entry_ok_def split_cacheKey)

lemma cache_ok_new: "cache_ok newReplyCache"
  by (simp add: cache_ok_def newReplyCache_def)

lemma cache_ok_set:
  "cache_ok c \<Longrightarrow> cl \<noteq> [] \<Longrightarrow> irs_RedirectTo x = [] \<Longrightarrow> cache_ok (cache_set c cl r x)"
  by (simp add: cache_ok_def cache_set_def amap.ok_put update_all entry_ok_key)

lemma cache_ok_get: "cache_ok c \<Longrightarrow> cache_get c cl r = Some x \<Longrightarrow> irs_RedirectTo x = []"
  by (auto simp: cache_ok_def cache_get_def list_all_iff entry_ok_def dest!: map_of_SomeD)

end
