(* ===== verification/Server_State.thy ===== *)
theory Server_State
  imports Reply_Cache
begin

text \<open>
  The server of \<open>internal/server/state.go\<close>: the struct \<open>Server\<close>, its constructor \<open>New\<close> and the
  reading of the leader of a view off the sorted server list, which the constructor, the view
  change and the state transfer share.  \<open>wf_server\<close> is the invariant of the struct that every
  handler keeps.  The mutexes are not fields of the model: an operation of the model is the
  code between two releases, or a whole handler where nothing else runs.
\<close>

section \<open>The struct and its constructor\<close>

record Server =
  counters :: "(string, int64) gomap"
  server_id :: int
  self :: string
  peers :: "string list"
  allServers :: "string list"
  leaderAddr :: string
  viewNumber :: int64
  viewVotes :: "(int64, (string, bool) gomap) gomap"
  inViewChange :: int32
  cache :: ReplyCache
  dedupEnabled :: bool
  replyDelay :: int64
  peerConns :: "(string, client_conn) gomap"

text \<open>
  \<open>grpc.NewClient\<close> is a parameter: it gives a connection to the address, or an error, on which
  the constructor leaves the peer without a connection.
\<close>

definition dial_peers :: "(string \<Rightarrow> go_error + client_conn) \<Rightarrow> string list \<Rightarrow> (string, client_conn) gomap" where
  "dial_peers newClient ps =
     fold (\<lambda>peer conns. case newClient peer of Inl err \<Rightarrow> conns | Inr conn \<Rightarrow> AList.update peer conn conns) ps []"

definition New :: "(string \<Rightarrow> go_error + client_conn) \<Rightarrow> int \<Rightarrow> string \<Rightarrow> string list \<Rightarrow> bool \<Rightarrow> int64 \<Rightarrow> Server" where
  "New newClient i slf prs dedup delay =
     (let all = sort (slf # prs) in
      \<lparr>counters = [],
       server_id = i,
       self = slf,
       peers = prs,
       allServers = all,
       leaderAddr = all ! 0,
       viewNumber = 0,
       viewVotes = [],
       inViewChange = 0,
       cache = newReplyCache,
       dedupEnabled = dedup,
       replyDelay = delay,
       peerConns = dial_peers newClient prs\<rparr>)"

definition currentLeader :: "Server \<Rightarrow> string" where
  "currentLeader s = leaderAddr s"

text \<open>
  \<open>s.allServers[v % int64(len(s.allServers))]\<close>: a negative remainder, and a remainder by
  zero, panic.
\<close>

definition leaderOf :: "string list \<Rightarrow> int64 \<Rightarrow> panic + string" where
  "leaderOf all v =
     (let i = sint v smod int (length all) in
      if 0 \<le> i \<and> i < int (length all) then Inr (all ! nat i) else Inl IndexOutOfRange)"

lemma leaderOf_nonneg:
  assumes "0 \<le> sint v" and "all \<noteq> []"
  shows "leaderOf all v = Inr (all ! nat (sint v mod int (length all)))"
  using assms by (simp add: leaderOf_def go_rem_nonneg)

lemma leaderOf_mem: "leaderOf all v = Inr l \<Longrightarrow> l \<in> set all"
  by (auto simp: leaderOf_def Let_def nat_less_iff split: if_splits)

lemma leaderOf_0: "all \<noteq> [] \<Longrightarrow> leaderOf all 0 = Inr (all ! 0)"
  by (simp add: leaderOf_nonneg)

section \<open>The invariant of the struct\<close>

definition ballot_ok :: "(string, bool) gomap \<Rightarrow> bool" where
  "ballot_ok b \<longleftrightarrow> map_ok b \<and> list_all (\<lambda>(v, yes). yes) b \<and> b \<noteq> []"

definition votes_ok :: "(int64, (string, bool) gomap) gomap \<Rightarrow> bool" where
  "votes_ok vs \<longleftrightarrow> map_ok vs \<and> list_all (\<lambda>(v, b). ballot_ok b) vs"

definition wf_server :: "Server \<Rightarrow> bool" where
  "wf_server s \<longleftrightarrow>
     sort (self s # peers s) = allServers s \<and>
     map_ok (counters s) \<and> cache_ok (cache s) \<and> votes_ok (viewVotes s) \<and>
     0 \<le> sint (viewNumber s) \<and>
     leaderOf (allServers s) (viewNumber s) = Inr (leaderAddr s) \<and>
     (inViewChange s = 0 \<or> inViewChange s = 1)"

lemma wf_serverI:
  assumes "sort (self s # peers s) = allServers s" "map_ok (counters s)" "cache_ok (cache s)"
    "votes_ok (viewVotes s)" "0 \<le> sint (viewNumber s)"
    "leaderOf (allServers s) (viewNumber s) = Inr (leaderAddr s)"
    "inViewChange s = 0 \<or> inViewChange s = 1"
  shows "wf_server s"
  using assms by (simp add: wf_server_def)

lemma all_nonempty: "wf_server s \<Longrightarrow> allServers s \<noteq> []"
  by (auto simp: wf_server_def dest: arg_cong [where f = length])

lemma wf_leader:
  "wf_server s \<Longrightarrow> leaderAddr s = allServers s ! nat (sint (viewNumber s) mod int (length (allServers s)))"
  using all_nonempty by (fastforce simp: wf_server_def leaderOf_nonneg)

lemma votes_ok_get: "votes_ok vs \<Longrightarrow> map_of vs v = Some b \<Longrightarrow> ballot_ok b"
  by (auto simp: votes_ok_def list_all_iff dest!: map_of_SomeD)

lemma votes_ok_put: "votes_ok vs \<Longrightarrow> ballot_ok b \<Longrightarrow> votes_ok (AList.update v b vs)"
  by (simp add: votes_ok_def amap.ok_put update_all)

lemma update_nonNil [simp]: "AList.update k v m \<noteq> []"
  by (cases m) auto

lemma ballot_ok_put: "map_ok b \<Longrightarrow> list_all (\<lambda>(v, yes). yes) b \<Longrightarrow> ballot_ok (AList.update v True b)"
  by (simp add: ballot_ok_def amap.ok_put update_all)

lemma wf_New: "wf_server (New newClient i slf prs dedup delay)"
proof -
  have "sort (slf # prs) \<noteq> []" by (metis list.distinct(1) length_0_conv length_sort)
  then show ?thesis
    by (simp add: wf_server_def New_def Let_def cache_ok_new votes_ok_def leaderOf_0 del: sort_key_simps)
qed

lemma dial_peers_lookup:
  "map_of (dial_peers newClient ps) p =
     (if p \<in> set ps then (case newClient p of Inl e \<Rightarrow> None | Inr c \<Rightarrow> Some c) else None)"
proof -
  have "map_of (fold (\<lambda>peer conns. case newClient peer of Inl err \<Rightarrow> conns
            | Inr conn \<Rightarrow> AList.update peer conn conns) ps m) p =
      (if p \<in> set ps then (case newClient p of Inl e \<Rightarrow> map_of m p | Inr c \<Rightarrow> Some c) else map_of m p)" for m
    by (induction ps arbitrary: m) (auto simp: amap.lookup_put split: sum.splits)
  then show ?thesis by (simp add: dial_peers_def split: sum.splits)
qed

text \<open>
  Two servers started with the same membership, listed in any order, hold the same server list,
  so they agree on the leader of every view.
\<close>

lemma same_membership:
  "mset (self s # peers s) = mset (self t # peers t) \<Longrightarrow> wf_server s \<Longrightarrow> wf_server t \<Longrightarrow>
     allServers s = allServers t"
  by (metis mset_sort_eq wf_server_def)

end
