(* ===== verification/Samples.thy ===== *)
theory Samples
  imports Server_State
begin

text \<open>
  Concrete servers and requests on which the witnesses of the other theories evaluate: a cluster
  of three and one of five, with every connection dialled.
\<close>

definition dial_all :: "string \<Rightarrow> go_error + client_conn" where
  "dial_all a = Inr (ClientConn a)"

definition srv3 :: "string \<Rightarrow> Server" where
  "srv3 a = New dial_all 1 a (filter (\<lambda>b. b \<noteq> a) [''s1'', ''s2'', ''s3'']) True 0"

definition srv5 :: "string \<Rightarrow> Server" where
  "srv5 a = New dial_all 1 a (filter (\<lambda>b. b \<noteq> a) [''s1'', ''s2'', ''s3'', ''s4'', ''s5'']) True 0"

definition req_on :: "string \<Rightarrow> string \<Rightarrow> int64 \<Rightarrow> IncrRequest" where
  "req_on k c r = \<lparr>irq_CounterId = k, irq_ClientId = c, irq_RequestId = r\<rparr>"

definition vote_msg :: "int64 \<Rightarrow> string \<Rightarrow> ViewChangeMsg" where
  "vote_msg v sender = \<lparr>vcm_ViewNumber = v, vcm_SenderId = sender\<rparr>"

end
