(* ===== verification/Replication.thy ===== *)
theory Replication
  imports Samples
begin

text \<open>
  State replication (\<open>internal/server/replication.go\<close>): the leader's fan-out, the follower's
  \<open>Replicate\<close> handler, the snapshot \<open>TransferState\<close> gives a joining server and the start-up
  \<open>PullState\<close> that applies the first snapshot it gets.  The lemmas show that a snapshot carries
  the whole state across, whatever order the maps are visited in, and what \<open>Replicate\<close> keeps.
\<close>

section \<open>The operations\<close>

definition replicateToAll :: "Server \<Rightarrow> ReplicateMsg \<Rightarrow> effect list" where
  "replicateToAll s msg =
     List.map_filter (\<lambda>peer. map_option (\<lambda>conn. CallReplicate conn msg) (map_of (peerConns s) peer)) (peers s)"

definition Replicate :: "Server \<Rightarrow> ReplicateMsg \<Rightarrow> Server \<times> ReplicateAck" where
  "Replicate s msg =
     (let s1 = s\<lparr>counters := AList.update (rpm_CounterId msg) (rpm_NewValue msg) (counters s)\<rparr>;
          s2 = (if dedupEnabled s1 \<and> rpm_ClientId msg \<noteq> [] then
                  (case rpm_CachedResponse msg of
                     None \<Rightarrow> s1
                   | Some resp \<Rightarrow>
                       s1\<lparr>cache := cache_set (cache s1) (rpm_ClientId msg) (rpm_RequestId msg) resp\<rparr>)
                else s1)
      in (s2, \<lparr>rpa_Ok = True\<rparr>))"

definition cache_entry :: "string \<times> IncrResponse \<Rightarrow> CacheEntry option" where
  "cache_entry kx =
     (case split_key (fst kx) of
        None \<Rightarrow> None
      | Some (clientID, requestID) \<Rightarrow>
          Some \<lparr>ce_ClientId = clientID, ce_RequestId = requestID, ce_Response = Some (snd kx)\<rparr>)"

definition TransferState :: "Server \<Rightarrow> TransferReq \<Rightarrow> TransferResp" where
  "TransferState s req =
     \<lparr>trs_Counters = fold (\<lambda>(k, v). AList.update k v) (counters s) [],
      trs_Cache = List.map_filter cache_entry (entries (cache s)),
      trs_ViewNumber = viewNumber s\<rparr>"

definition apply_entry :: "CacheEntry \<Rightarrow> ReplyCache \<Rightarrow> ReplyCache" where
  "apply_entry e c =
     (if ce_ClientId e \<noteq> [] then
        (case ce_Response e of
           None \<Rightarrow> c
         | Some resp \<Rightarrow> cache_set c (ce_ClientId e) (ce_RequestId e) resp)
      else c)"

definition applyTransferResp :: "Server \<Rightarrow> TransferResp \<Rightarrow> panic + Server" where
  "applyTransferResp s resp =
     (let s1 = s\<lparr>counters := fold (\<lambda>(k, v). AList.update k v) (trs_Counters resp) (counters s)\<rparr>;
          s2 = (if dedupEnabled s1 then s1\<lparr>cache := fold apply_entry (trs_Cache resp) (cache s1)\<rparr> else s1)
      in if 0 <s trs_ViewNumber resp then
           (case leaderOf (allServers s2) (trs_ViewNumber resp) of
              Inl p \<Rightarrow> Inl p
            | Inr leader \<Rightarrow> Inr (s2\<lparr>viewNumber := trs_ViewNumber resp, leaderAddr := leader\<rparr>))
         else Inr s2)"

text \<open>
  \<open>grpc.NewClient\<close> and the \<open>TransferState\<close> RPC on a connection are parameters.  The result says
  whether a snapshot was applied.
\<close>

definition tryPullFrom ::
  "(string \<Rightarrow> go_error + client_conn) \<Rightarrow> (client_conn \<Rightarrow> TransferReq \<Rightarrow> go_error + TransferResp) \<Rightarrow>
   Server \<Rightarrow> string \<Rightarrow> panic + (Server \<times> bool)" where
  "tryPullFrom newClient callTransferState s addr =
     (case newClient addr of
        Inl err \<Rightarrow> Inr (s, False)
      | Inr conn \<Rightarrow>
          (case callTransferState conn \<lparr>trq_RequesterId = self s\<rparr> of
             Inl err \<Rightarrow> Inr (s, False)
           | Inr resp \<Rightarrow>
               (case applyTransferResp s resp of
                  Inl p \<Rightarrow> Inl p
                | Inr s' \<Rightarrow> Inr (s', True))))"

fun pull_from ::
  "(string \<Rightarrow> go_error + client_conn) \<Rightarrow> (client_conn \<Rightarrow> TransferReq \<Rightarrow> go_error + TransferResp) \<Rightarrow>
   Server \<Rightarrow> string list \<Rightarrow> panic + Server" where
  "pull_from newClient callTransferState s [] = Inr s"
| "pull_from newClient callTransferState s (peer # rest) =
     (case tryPullFrom newClient callTransferState s peer of
        Inl p \<Rightarrow> Inl p
      | Inr (s', True) \<Rightarrow> Inr s'
      | Inr (s', False) \<Rightarrow> pull_from newClient callTransferState s' rest)"

definition PullState ::
  "(string \<Rightarrow> go_error + client_conn) \<Rightarrow> (client_conn \<Rightarrow> TransferReq \<Rightarrow> go_error + TransferResp) \<Rightarrow>
   Server \<Rightarrow> panic + Server" where
  "PullState newClient callTransferState s =
     (if length (peers s) = 0 then Inr s else pull_from newClient callTransferState s (peers s))"

section \<open>Replicate\<close>

named_theorems server_frame \<open>fields an operation leaves as they are\<close>

lemma Replicate_frame [server_frame]:
  "self (fst (Replicate s m)) = self s" "peers (fst (Replicate s m)) = peers s"
  "allServers (fst (Replicate s m)) = allServers s" "leaderAddr (fst (Replicate s m)) = leaderAddr s"
  "viewNumber (fst (Replicate s m)) = viewNumber s" "viewVotes (fst (Replicate s m)) = viewVotes s"
  "inViewChange (fst (Replicate s m)) = inViewChange s" "dedupEnabled (fst (Replicate s m)) = dedupEnabled s"
  "peerConns (fst (Replicate s m)) = peerConns s"
  by (simp_all add: Replicate_def Let_def split: option.splits)

lemma Replicate_counters:
  "counters (fst (Replicate s m)) = AList.update (rpm_CounterId m) (rpm_NewValue m) (counters s)"
  by (simp add: Replicate_def Let_def split: option.splits)

lemma Replicate_value:
  "map_zero (counters (fst (Replicate s m))) k =
     (if k = rpm_CounterId m then rpm_NewValue m else map_zero (counters s) k)"
  by (simp add: Replicate_counters map_zero_put)

definition carries_reply :: "Server \<Rightarrow> ReplicateMsg \<Rightarrow> bool" where
  "carries_reply s m \<longleftrightarrow> dedupEnabled s \<and> rpm_ClientId m \<noteq> [] \<and> rpm_CachedResponse m \<noteq> None"

lemma Replicate_reply:
  "cache_get (cache (fst (Replicate s m))) c r =
     (if carries_reply s m \<and> c = rpm_ClientId m \<and> r = rpm_RequestId m then rpm_CachedResponse m
      else cache_get (cache s) c r)"
  by (auto simp: Replicate_def Let_def carries_reply_def rcache.get_set split: option.splits)

definition msg_ok :: "ReplicateMsg \<Rightarrow> bool" where
  "msg_ok m \<longleftrightarrow> (case rpm_CachedResponse m of None \<Rightarrow> True | Some x \<Rightarrow> irs_RedirectTo x = [])"

lemma Replicate_wf: "wf_server s \<Longrightarrow> msg_ok m \<Longrightarrow> wf_server (fst (Replicate s m))"
  by (auto simp: wf_server_def Replicate_def Let_def msg_ok_def amap.ok_put cache_ok_set
      split: option.splits)

section \<open>State transfer\<close>

lemma map_of_rev_ok: "map_ok m \<Longrightarrow> map_of (rev m) = map_of m"
  by (rule map_of_eqI) (auto simp: map_ok_def rev_map [symmetric])

lemma copy_lookup: "map_ok m \<Longrightarrow> map_of (fold (\<lambda>(k, v). AList.update k v) m b) = map_of b ++ map_of m"
  by (simp add: amap.lookup_put_all map_of_rev_ok)

lemma copy_ok: "map_ok b \<Longrightarrow> map_ok (fold (\<lambda>(k, v). AList.update k v) m b)"
  by (rule amap.ok_put_all)

text \<open>A good cache comes out of the snapshot as the list of its pairs.\<close>

definition pair_of :: "string \<times> IncrResponse \<Rightarrow> string \<times> int64 \<times> IncrResponse" where
  "pair_of kx = (case split_key (fst kx) of Some (c, r) \<Rightarrow> (c, r, snd kx) | None \<Rightarrow> ([], 0, snd kx))"

lemma apply_cache_entries:
  "list_all entry_ok m \<Longrightarrow>
     fold apply_entry (List.map_filter cache_entry m) b =
     fold (\<lambda>(c, r, x) s. cache_set s c r x) (map pair_of m) b"
  by (induction m arbitrary: b)
     (auto simp: List.map_filter_simps cache_entry_def pair_of_def apply_entry_def entry_ok_def
        split: option.splits)

lemma map_of_pairs:
  "list_all entry_ok m \<Longrightarrow>
     map_of (map (\<lambda>(c, r, x). ((c, r), x)) (map pair_of m)) (c, r) = map_of m (cacheKey c r)"
  by (induction m) (auto simp: pair_of_def entry_ok_def split_cacheKey cacheKey_inject split: option.splits)

lemma snapshot_replies:
  assumes "cache_ok c0"
  shows "cache_get (fold apply_entry (List.map_filter cache_entry (entries c0)) b) c r =
           (case cache_get c0 c r of None \<Rightarrow> cache_get b c r | Some x \<Rightarrow> Some x)"
proof -
  let ?m = "entries c0"
  have ok: "list_all entry_ok ?m" "map_ok ?m" using assms by (simp_all add: cache_ok_def)
  have ok': "list_all entry_ok (rev ?m)" using ok by (simp add: list_all_iff)
  have "map_of (rev (map (\<lambda>(c, r, x). ((c, r), x)) (map pair_of ?m))) (c, r) = cache_get c0 c r"
    using map_of_pairs [OF ok', of c r] ok(2)
    by (simp add: rev_map [symmetric] map_of_rev_ok cache_get_def del: map_map)
  then show ?thesis
    by (simp add: apply_cache_entries ok rcache.get_set_batch del: map_map)
qed

lemma apply_entry_ok:
  "cache_ok c \<Longrightarrow> (\<And>x. ce_Response e = Some x \<Longrightarrow> irs_RedirectTo x = []) \<Longrightarrow> cache_ok (apply_entry e c)"
  by (auto simp: apply_entry_def cache_ok_set split: option.splits)

definition resp_ok :: "TransferResp \<Rightarrow> bool" where
  "resp_ok resp \<longleftrightarrow> list_all (\<lambda>e. \<forall>x. ce_Response e = Some x \<longrightarrow> irs_RedirectTo x = []) (trs_Cache resp)"

lemma fold_apply_entry_ok:
  "cache_ok c \<Longrightarrow> list_all (\<lambda>e. \<forall>x. ce_Response e = Some x \<longrightarrow> irs_RedirectTo x = []) es \<Longrightarrow>
     cache_ok (fold apply_entry es c)"
  by (induction es arbitrary: c) (auto simp: apply_entry_ok)

lemma TransferState_ok: "wf_server s \<Longrightarrow> resp_ok (TransferState s req)"
  by (auto simp: wf_server_def cache_ok_def list_all_iff resp_ok_def TransferState_def cache_entry_def
      entry_ok_def List.map_filter_def split: option.splits)

text \<open>Applying a snapshot never panics on a good server, and keeps it good.\<close>

lemma applyTransferResp_wf:
  assumes "wf_server s" and "resp_ok resp"
  shows "\<exists>s'. applyTransferResp s resp = Inr s' \<and> wf_server s' \<and> allServers s' = allServers s \<and>
    self s' = self s \<and> peers s' = peers s \<and> inViewChange s' = inViewChange s"
proof (cases "0 <s trs_ViewNumber resp")
  case True
  then have "0 \<le> sint (trs_ViewNumber resp)" by (simp add: int64_less)
  then obtain l where "leaderOf (allServers s) (trs_ViewNumber resp) = Inr l"
    using leaderOf_nonneg [OF _ all_nonempty [OF assms(1)]] by blast
  with True assms show ?thesis
    by (auto simp: applyTransferResp_def Let_def wf_server_def copy_ok resp_ok_def
        fold_apply_entry_ok int64_less)
next
  case False
  with assms show ?thesis
    by (auto simp: applyTransferResp_def Let_def wf_server_def copy_ok resp_ok_def fold_apply_entry_ok)
qed

section \<open>Properties\<close>

lemma applyTransferResp_fields:
  assumes "applyTransferResp j resp = Inr j'"
  shows "counters j' = fold (\<lambda>(k, v). AList.update k v) (trs_Counters resp) (counters j)"
    and "cache j' = (if dedupEnabled j then fold apply_entry (trs_Cache resp) (cache j) else cache j)"
    and "viewNumber j' = (if 0 <s trs_ViewNumber resp then trs_ViewNumber resp else viewNumber j)"
    and "allServers j' = allServers j"
  using assms by (auto simp: applyTransferResp_def Let_def split: if_splits sum.splits)

lemma transfer_lookups:
  assumes "wf_server src" and "applyTransferResp j (TransferState src req) = Inr j'"
  shows "map_of (counters j') = map_of (counters j) ++ map_of (counters src)"
    and "dedupEnabled j \<Longrightarrow> cache_get (cache j') c r =
      (case cache_get (cache src) c r of None \<Rightarrow> cache_get (cache j) c r | Some x \<Rightarrow> Some x)"
  using assms
  by (simp_all add: applyTransferResp_fields [OF assms(2)] TransferState_def copy_lookup copy_ok
      snapshot_replies wf_server_def)

text \<open>C11: State transfer is complete.  A fresh server of the same cluster that applies the snapshot of
  any good server ends up with exactly its counters and, deduplication being on, exactly its
  cached replies, at the same view under the same leader, without a panic and in a good state.\<close>

theorem join_transfers_everything:
  assumes "wf_server src" and "mset (slf # prs) = mset (self src # peers src)"
  shows "\<exists>j'. applyTransferResp (New nc i slf prs True delay) (TransferState src req) = Inr j' \<and>
    wf_server j' \<and> map_of (counters j') = map_of (counters src) \<and>
    cache_get (cache j') = cache_get (cache src) \<and>
    viewNumber j' = viewNumber src \<and> leaderAddr j' = leaderAddr src"
proof -
  let ?j = "New nc i slf prs True delay"
  obtain j' where j': "applyTransferResp ?j (TransferState src req) = Inr j'" and wf: "wf_server j'"
    using applyTransferResp_wf [OF wf_New TransferState_ok [OF assms(1)]] by blast
  have all: "allServers j' = allServers src"
    using same_membership [of ?j src] assms wf_New [of nc i slf prs True delay]
    by (simp add: applyTransferResp_fields [OF j'] New_def Let_def)
  have view: "viewNumber j' = viewNumber src"
    using assms(1) applyTransferResp_fields(3) [OF j']
    by (auto simp: TransferState_def int64_less New_def Let_def wf_server_def int64_eq)
  have "leaderOf (allServers src) (viewNumber src) = Inr (leaderAddr j')"
    using wf all view by (simp add: wf_server_def)
  then have "leaderAddr j' = leaderAddr src" using assms(1) by (simp add: wf_server_def)
  moreover have "map_of (counters j') = map_of (counters src)"
    using transfer_lookups(1) [OF assms(1) j'] by (simp add: New_def Let_def)
  moreover have "cache_get (cache j') = cache_get (cache src)"
    using transfer_lookups(2) [OF assms(1) j']
    by (simp add: fun_eq_iff New_def Let_def rcache.get_empty split: option.splits)
  ultimately show ?thesis using j' wf view by blast
qed

theorem join_transfers_everything_witness:
  "\<exists>j'. applyTransferResp (New dial_all 3 ''s3'' [''s2'', ''s1''] True 0)
      (TransferState (fst (Replicate (srv3 ''s1'') \<lparr>rpm_CounterId = ''x'', rpm_NewValue = 7, rpm_ClientId = ''u'',
         rpm_RequestId = 4, rpm_CachedResponse = Some \<lparr>irs_NewValue = 7, irs_RedirectTo = []\<rparr>\<rparr>))
       \<lparr>trq_RequesterId = ''s3''\<rparr>) = Inr j' \<and>
     map_of (counters j') ''x'' = Some 7 \<and>
     cache_get (cache j') ''u'' 4 = Some \<lparr>irs_NewValue = 7, irs_RedirectTo = []\<rparr>"
proof -
  let ?m = "\<lparr>rpm_CounterId = ''x'', rpm_NewValue = 7, rpm_ClientId = ''u'',
         rpm_RequestId = 4, rpm_CachedResponse = Some \<lparr>irs_NewValue = 7, irs_RedirectTo = []\<rparr>\<rparr>"
  let ?s = "fst (Replicate (srv3 ''s1'') ?m)"
  have wf: "wf_server ?s"
    by (rule Replicate_wf) (simp_all add: srv3_def wf_New msg_ok_def)
  have members: "mset (''s3'' # [''s2'', ''s1'']) = mset (self ?s # peers ?s)" by code_simp
  have "map_of (counters ?s) ''x'' = Some 7"
    "cache_get (cache ?s) ''u'' 4 = Some \<lparr>irs_NewValue = 7, irs_RedirectTo = []\<rparr>" by code_simp+
  then show ?thesis
    using join_transfers_everything [OF wf members, of dial_all 3 0 "\<lparr>trq_RequesterId = ''s3''\<rparr>"] by auto
qed

text \<open>The order in which Go visits a map does not reach the joiner.  Two servers whose counter
  tables and caches hold the same entries in different orders (two runs of the same \<open>range\<close>
  loops) give snapshots that leave a joining server with the same counters, replies and view.\<close>

lemma transfer_order_irrelevant:
  assumes "wf_server src" and "wf_server src'" and "dedupEnabled j"
    and "mset (counters src') = mset (counters src)"
    and "mset (entries (cache src')) = mset (entries (cache src))"
    and "viewNumber src' = viewNumber src"
    and "applyTransferResp j (TransferState src req) = Inr j1"
    and "applyTransferResp j (TransferState src' req) = Inr j2"
  shows "map_of (counters j2) = map_of (counters j1) \<and> cache_get (cache j2) = cache_get (cache j1) \<and>
    viewNumber j2 = viewNumber j1"
proof -
  have perm: "map_of m' = map_of m" if "mset m' = mset m" "map_ok m" "map_ok m'"
    for m m' :: "(string \<times> 'v) list"
    using that by (intro map_of_eqI) (auto simp: map_ok_def dest: mset_eq_setD)
  have c: "map_of (counters src') = map_of (counters src)"
    and e: "map_of (entries (cache src')) = map_of (entries (cache src))"
    using assms(1,2,4,5) by (auto intro!: perm simp: wf_server_def cache_ok_def)
  have "cache_get (cache src') = cache_get (cache src)"
    by (simp add: fun_eq_iff cache_get_def e)
  then have "cache_get (cache j2) = cache_get (cache j1)"
    using transfer_lookups(2) [OF assms(1,7)] transfer_lookups(2) [OF assms(2,8)] assms(3)
    by (simp add: fun_eq_iff)
  moreover have "map_of (counters j2) = map_of (counters j1)"
    using transfer_lookups(1) [OF assms(1,7)] transfer_lookups(1) [OF assms(2,8)] c by simp
  ultimately show ?thesis using assms(6)
    by (simp add: applyTransferResp_fields(3) [OF assms(7)] applyTransferResp_fields(3) [OF assms(8)]
        TransferState_def)
qed

theorem transfer_order_irrelevant_witness:
  "\<exists>j1 j2. applyTransferResp (srv3 ''s3'') (TransferState (srv3 ''s1''\<lparr>counters := [(''x'', 1), (''y'', 2)]\<rparr>)
        \<lparr>trq_RequesterId = ''s3''\<rparr>) = Inr j1 \<and>
     applyTransferResp (srv3 ''s3'') (TransferState (srv3 ''s1''\<lparr>counters := [(''y'', 2), (''x'', 1)]\<rparr>)
        \<lparr>trq_RequesterId = ''s3''\<rparr>) = Inr j2 \<and>
     map_of (counters j2) = map_of (counters j1) \<and> map_of (counters j2) ''y'' = Some 2"
proof -
  let ?s = "srv3 ''s1''\<lparr>counters := [(''x'', 1), (''y'', 2)]\<rparr>"
  let ?s' = "srv3 ''s1''\<lparr>counters := [(''y'', 2), (''x'', 1)]\<rparr>"
  let ?r = "\<lparr>trq_RequesterId = ''s3''\<rparr>"
  have "wf_server (srv3 a)" for a by (simp add: srv3_def wf_New)
  then have wf: "wf_server ?s" "wf_server ?s'" "wf_server (srv3 ''s3'')"
    by (simp_all add: wf_server_def map_ok_def)
  obtain j1 j2 where j1: "applyTransferResp (srv3 ''s3'') (TransferState ?s ?r) = Inr j1"
    and j2: "applyTransferResp (srv3 ''s3'') (TransferState ?s' ?r) = Inr j2"
    using applyTransferResp_wf wf TransferState_ok by meson
  have "dedupEnabled (srv3 ''s3'')" by code_simp
  then have "map_of (counters j2) = map_of (counters j1)"
    by (intro transfer_order_irrelevant [OF wf(1,2) _ _ _ _ j1 j2, THEN conjunct1]) simp_all
  then show ?thesis using j1 j2 transfer_lookups(1) [OF wf(1) j1] by auto
qed

definition pull_answer ::
  "(string \<Rightarrow> go_error + client_conn) \<Rightarrow> (client_conn \<Rightarrow> TransferReq \<Rightarrow> go_error + TransferResp) \<Rightarrow>
   Server \<Rightarrow> string \<Rightarrow> TransferResp option" where
  "pull_answer nc call s p =
     (case nc p of Inl e \<Rightarrow> None
      | Inr conn \<Rightarrow> (case call conn \<lparr>trq_RequesterId = self s\<rparr> of Inl e \<Rightarrow> None | Inr resp \<Rightarrow> Some resp))"

lemma pull_from_answers:
  "pull_from nc call s ps =
     (case List.map_filter (pull_answer nc call s) ps of
        [] \<Rightarrow> Inr s
      | resp # _ \<Rightarrow> applyTransferResp s resp)"
  by (induction ps)
     (auto simp: tryPullFrom_def pull_answer_def List.map_filter_simps split: sum.splits)

text \<open>Start-up synchronisation.  \<open>PullState\<close> asks the peers in order and applies the first answer,
  and no other; with no peers, or none that can be dialled and answers, the server starts as it
  is.\<close>

lemma PullState_first_answer:
  "PullState nc call s =
     (case List.map_filter (pull_answer nc call s) (peers s) of
        [] \<Rightarrow> Inr s
      | resp # _ \<Rightarrow> applyTransferResp s resp)"
  by (simp add: PullState_def pull_from_answers List.map_filter_simps)

lemma Replicate_all_value:
  "map_zero (counters (fold (\<lambda>m s. fst (Replicate s m)) ms s)) k =
     (case map_of (rev (map (\<lambda>m. (rpm_CounterId m, rpm_NewValue m)) ms)) k of
        None \<Rightarrow> map_zero (counters s) k | Some v \<Rightarrow> v)"
  by (induction ms arbitrary: s) (auto simp: Replicate_value map_add_def split: option.splits)

lemma Replicate_all_frame:
  "viewNumber (fold (\<lambda>m s. fst (Replicate s m)) ms s) = viewNumber s \<and>
   leaderAddr (fold (\<lambda>m s. fst (Replicate s m)) ms s) = leaderAddr s \<and>
   viewVotes (fold (\<lambda>m s. fst (Replicate s m)) ms s) = viewVotes s \<and>
   inViewChange (fold (\<lambda>m s. fst (Replicate s m)) ms s) = inViewChange s"
  by (induction ms arbitrary: s) (auto simp: server_frame)

text \<open>Replication of one counter is last-writer-wins.  After any sequence of \<open>Replicate\<close> messages a
  follower holds, for each counter, the value of the last message that named it (the older value
  if none did), at the view and under the leader it had; so a follower that receives two
  increments of one counter out of order is left with the smaller one.\<close>

lemma replicate_last_writer_wins:
  "map_zero (counters (fold (\<lambda>m s. fst (Replicate s m)) ms s)) k =
     (case map_of (rev (map (\<lambda>m. (rpm_CounterId m, rpm_NewValue m)) ms)) k of
        None \<Rightarrow> map_zero (counters s) k | Some v \<Rightarrow> v) \<and>
   viewNumber (fold (\<lambda>m s. fst (Replicate s m)) ms s) = viewNumber s \<and>
   leaderAddr (fold (\<lambda>m s. fst (Replicate s m)) ms s) = leaderAddr s"
  using Replicate_all_value Replicate_all_frame by blast

end
