(* ===== verification/Counter_Service.thy ===== *)
theory Counter_Service
  imports Replication
begin

text \<open>
  The client-facing handlers of \<open>internal/server/state.go\<close>, \<open>IncrCounter\<close> and \<open>GetCounter\<close>, as whole
  handlers.  The abstract service (\<open>spec_incr\<close>) is a table of values and a table of replies; the
  handlers refine it, and the \<open>Replicate\<close> message carries one of its steps to a follower.  The
  interleavings of concurrent requests are in \<open>Concurrent_Requests\<close>, what a client may conclude is
  in \<open>Exactly_Once\<close>.
\<close>

section \<open>The handlers\<close>

definition IncrCounter :: "Server \<Rightarrow> IncrRequest \<Rightarrow> Server \<times> (go_error + IncrResponse) \<times> effect list" where
  "IncrCounter s req =
     (if irq_CounterId req = [] then
        (s, Inl (GrpcStatus InvalidArgument ''counter_id must not be empty''), [])
      else if currentLeader s \<noteq> self s then
        (s, Inr \<lparr>irs_NewValue = 0, irs_RedirectTo = currentLeader s\<rparr>, [])
      else if inViewChange s = 1 then
        (s, Inl (GrpcStatus Unavailable ''view change in progress''), [])
      else
        let useDedup = (dedupEnabled s \<and> irq_ClientId req \<noteq> []) in
        case (if useDedup then cache_get (cache s) (irq_ClientId req) (irq_RequestId req) else None) of
          Some cached \<Rightarrow> (s, Inr cached, [])
        | None \<Rightarrow>
            let s1 = s\<lparr>counters :=
                    AList.update (irq_CounterId req) (map_zero (counters s) (irq_CounterId req) + 1) (counters s)\<rparr>;
                val = map_zero (counters s1) (irq_CounterId req);
                resp = \<lparr>irs_NewValue = val, irs_RedirectTo = []\<rparr>;
                msg = \<lparr>rpm_CounterId = irq_CounterId req, rpm_NewValue = val, rpm_ClientId = [],
                       rpm_RequestId = 0, rpm_CachedResponse = None\<rparr>;
                s2 = (if useDedup
                      then s1\<lparr>cache := cache_set (cache s1) (irq_ClientId req) (irq_RequestId req) resp\<rparr>
                      else s1);
                msg2 = (if useDedup
                        then msg\<lparr>rpm_ClientId := irq_ClientId req, rpm_RequestId := irq_RequestId req,
                               rpm_CachedResponse := Some resp\<rparr>
                        else msg)
            in (s2, Inr resp,
                replicateToAll s2 msg2 @ (if 0 <s replyDelay s2 then [SleepFor (replyDelay s2)] else [])))"

definition GetCounter :: "Server \<Rightarrow> GetRequest \<Rightarrow> go_error + GetResponse" where
  "GetCounter s req =
     (if grq_CounterId req = [] then
        Inl (GrpcStatus InvalidArgument ''counter_id must not be empty'')
      else if currentLeader s \<noteq> self s then
        Inr \<lparr>grs_Value = 0, grs_RedirectTo = currentLeader s\<rparr>
      else if inViewChange s = 1 then
        Inl (GrpcStatus Unavailable ''view change in progress'')
      else Inr \<lparr>grs_Value = map_zero (counters s) (grq_CounterId req), grs_RedirectTo = []\<rparr>)"

section \<open>The abstract service\<close>

record CounterSpec =
  spec_value :: "string \<Rightarrow> int64"
  spec_reply :: "string \<Rightarrow> int64 \<Rightarrow> IncrResponse option"

definition abs_server :: "Server \<Rightarrow> CounterSpec" where
  "abs_server s = \<lparr>spec_value = map_zero (counters s), spec_reply = cache_get (cache s)\<rparr>"

definition spec_incr :: "bool \<Rightarrow> CounterSpec \<Rightarrow> IncrRequest \<Rightarrow> CounterSpec \<times> IncrResponse" where
  "spec_incr dedup a req =
     (let k = irq_CounterId req; c = irq_ClientId req; r = irq_RequestId req;
          track = (dedup \<and> c \<noteq> []) in
      case (if track then spec_reply a c r else None) of
        Some x \<Rightarrow> (a, x)
      | None \<Rightarrow>
          let x = \<lparr>irs_NewValue = spec_value a k + 1, irs_RedirectTo = []\<rparr> in
          (\<lparr>spec_value = (spec_value a)(k := spec_value a k + 1),
            spec_reply = (if track then (spec_reply a)(c := (spec_reply a c)(r \<mapsto> x)) else spec_reply a)\<rparr>, x))"

definition serving :: "Server \<Rightarrow> bool" where
  "serving s \<longleftrightarrow> leaderAddr s = self s \<and> inViewChange s \<noteq> 1"

definition tracked :: "Server \<Rightarrow> IncrRequest \<Rightarrow> bool" where
  "tracked s req \<longleftrightarrow> dedupEnabled s \<and> irq_ClientId req \<noteq> []"

text \<open>The message a fresh execution sends, and the server it leaves.\<close>

definition incr_response :: "Server \<Rightarrow> IncrRequest \<Rightarrow> IncrResponse" where
  "incr_response s req = \<lparr>irs_NewValue = map_zero (counters s) (irq_CounterId req) + 1, irs_RedirectTo = []\<rparr>"

definition incr_msg :: "Server \<Rightarrow> IncrRequest \<Rightarrow> ReplicateMsg" where
  "incr_msg s req =
     (let x = incr_response s req in
      if tracked s req
      then \<lparr>rpm_CounterId = irq_CounterId req, rpm_NewValue = irs_NewValue x, rpm_ClientId = irq_ClientId req,
            rpm_RequestId = irq_RequestId req, rpm_CachedResponse = Some x\<rparr>
      else \<lparr>rpm_CounterId = irq_CounterId req, rpm_NewValue = irs_NewValue x, rpm_ClientId = [],
            rpm_RequestId = 0, rpm_CachedResponse = None\<rparr>)"

definition executed :: "Server \<Rightarrow> IncrRequest \<Rightarrow> Server" where
  "executed s req =
     (let x = incr_response s req;
          s1 = s\<lparr>counters := AList.update (irq_CounterId req) (irs_NewValue x) (counters s)\<rparr> in
      if tracked s req then s1\<lparr>cache := cache_set (cache s) (irq_ClientId req) (irq_RequestId req) x\<rparr> else s1)"

definition cached_reply :: "Server \<Rightarrow> IncrRequest \<Rightarrow> IncrResponse option" where
  "cached_reply s req =
     (if tracked s req then cache_get (cache s) (irq_ClientId req) (irq_RequestId req) else None)"

lemma executed_simps [simp]:
  "self (executed s q) = self s" "peers (executed s q) = peers s" "allServers (executed s q) = allServers s"
  "leaderAddr (executed s q) = leaderAddr s" "viewNumber (executed s q) = viewNumber s"
  "viewVotes (executed s q) = viewVotes s" "inViewChange (executed s q) = inViewChange s"
  "dedupEnabled (executed s q) = dedupEnabled s" "replyDelay (executed s q) = replyDelay s"
  "peerConns (executed s q) = peerConns s"
  "counters (executed s q) = AList.update (irq_CounterId q) (irs_NewValue (incr_response s q)) (counters s)"
  by (simp_all add: executed_def Let_def)

lemma executed_cache:
  "cache (executed s q) =
     (if tracked s q then cache_set (cache s) (irq_ClientId q) (irq_RequestId q) (incr_response s q)
      else cache s)"
  by (simp add: executed_def Let_def)

text \<open>The handler, case by case.\<close>

lemma IncrCounter_invalid:
  "irq_CounterId q = [] \<Longrightarrow>
     IncrCounter s q = (s, Inl (GrpcStatus InvalidArgument ''counter_id must not be empty''), [])"
  by (simp add: IncrCounter_def)

lemma IncrCounter_redirect:
  "irq_CounterId q \<noteq> [] \<Longrightarrow> leaderAddr s \<noteq> self s \<Longrightarrow>
     IncrCounter s q = (s, Inr \<lparr>irs_NewValue = 0, irs_RedirectTo = leaderAddr s\<rparr>, [])"
  by (simp add: IncrCounter_def currentLeader_def)

lemma IncrCounter_unavailable:
  "irq_CounterId q \<noteq> [] \<Longrightarrow> leaderAddr s = self s \<Longrightarrow> inViewChange s = 1 \<Longrightarrow>
     IncrCounter s q = (s, Inl (GrpcStatus Unavailable ''view change in progress''), [])"
  by (simp add: IncrCounter_def currentLeader_def)

lemma IncrCounter_cached:
  "irq_CounterId q \<noteq> [] \<Longrightarrow> serving s \<Longrightarrow> cached_reply s q = Some x \<Longrightarrow> IncrCounter s q = (s, Inr x, [])"
  by (simp add: IncrCounter_def currentLeader_def serving_def cached_reply_def tracked_def split: if_splits)

lemma IncrCounter_fresh:
  "irq_CounterId q \<noteq> [] \<Longrightarrow> serving s \<Longrightarrow> cached_reply s q = None \<Longrightarrow>
     IncrCounter s q = (executed s q, Inr (incr_response s q),
       replicateToAll (executed s q) (incr_msg s q) @ (if 0 <s replyDelay s then [SleepFor (replyDelay s)] else []))"
  by (auto simp: IncrCounter_def currentLeader_def serving_def cached_reply_def tracked_def executed_def
      incr_response_def incr_msg_def Let_def map_zero_put split: if_splits)

lemmas IncrCounter_cases =
  IncrCounter_invalid IncrCounter_redirect IncrCounter_unavailable IncrCounter_cached IncrCounter_fresh

lemma serving_executed [simp]: "serving (executed s q) = serving s"
  by (simp add: serving_def)

lemma abs_executed:
  "irq_CounterId q \<noteq> [] \<Longrightarrow> cached_reply s q = None \<Longrightarrow>
     abs_server (executed s q) = fst (spec_incr (dedupEnabled s) (abs_server s) q) \<and>
     incr_response s q = snd (spec_incr (dedupEnabled s) (abs_server s) q)"
  by (auto simp: spec_incr_def abs_server_def cached_reply_def tracked_def executed_cache incr_response_def
      map_zero_put rcache.get_set Let_def fun_eq_iff split: if_splits)

lemma executed_wf: "wf_server s \<Longrightarrow> wf_server (executed s q)"
  by (auto simp: wf_server_def executed_cache amap.ok_put cache_ok_set incr_response_def tracked_def)

lemma IncrCounter_state:
  "fst (IncrCounter s q) = s \<or>
     (irq_CounterId q \<noteq> [] \<and> serving s \<and> cached_reply s q = None \<and> fst (IncrCounter s q) = executed s q)"
proof (cases "irq_CounterId q \<noteq> [] \<and> serving s")
  case True
  then show ?thesis
    by (cases "cached_reply s q") (simp_all add: IncrCounter_cached IncrCounter_fresh)
next
  case False
  then show ?thesis
    by (auto simp: serving_def IncrCounter_invalid IncrCounter_redirect IncrCounter_unavailable
        IncrCounter_def currentLeader_def)
qed

lemma IncrCounter_wf: "wf_server s \<Longrightarrow> wf_server (fst (IncrCounter s q))"
  using IncrCounter_state [of s q] executed_wf [of s q] by auto

lemma incr_msg_ok: "msg_ok (incr_msg s q)"
  by (simp add: incr_msg_def msg_ok_def incr_response_def Let_def)

text \<open>A \<open>Replicate\<close> message repeats on the follower the step its leader made.\<close>

lemma abs_Replicate:
  assumes "abs_server f = abs_server s" and "dedupEnabled f = dedupEnabled s"
  shows "abs_server (fst (Replicate f (incr_msg s q))) = abs_server (executed s q)"
proof -
  have val: "map_zero (counters f) = map_zero (counters s)" and rep: "cache_get (cache f) = cache_get (cache s)"
    using assms(1) by (simp_all add: abs_server_def)
  have "carries_reply f (incr_msg s q) = tracked s q"
    using assms(2) by (simp add: carries_reply_def tracked_def incr_msg_def Let_def)
  then show ?thesis
    by (auto simp: abs_server_def fun_eq_iff Replicate_value Replicate_reply executed_cache val rep
        map_zero_put incr_msg_def incr_response_def Let_def rcache.get_set)
qed

section \<open>Properties\<close>

text \<open>C9: \<open>IncrCounter\<close> refines the abstract service.  On a serving leader every valid request answers
  with a success whose response, and whose effect on the tables of values and replies, are those
  of one abstract step: the stored reply for a known identifier, one more than the current value
  and a new stored reply otherwise.\<close>

theorem IncrCounter_refines_spec:
  assumes "irq_CounterId q \<noteq> []" and "serving s"
  shows "\<exists>s' x es. IncrCounter s q = (s', Inr x, es) \<and>
    (abs_server s', x) = spec_incr (dedupEnabled s) (abs_server s) q"
proof (cases "cached_reply s q")
  case None
  then show ?thesis
    using assms abs_executed [of q s] by (auto simp: IncrCounter_fresh)
next
  case (Some x)
  then have "spec_incr (dedupEnabled s) (abs_server s) q = (abs_server s, x)"
    by (simp add: spec_incr_def abs_server_def cached_reply_def tracked_def split: if_splits)
  with Some assms show ?thesis by (simp add: IncrCounter_cached)
qed

theorem IncrCounter_refines_spec_witness:
  "\<exists>s' x es. IncrCounter (srv3 ''s1'') (req_on ''x'' ''u'' 1) = (s', Inr x, es) \<and>
     (abs_server s', x) = spec_incr True (abs_server (srv3 ''s1'')) (req_on ''x'' ''u'' 1) \<and> irs_NewValue x = 1"
proof -
  have h: "irq_CounterId (req_on ''x'' ''u'' 1) \<noteq> []" "serving (srv3 ''s1'')" "dedupEnabled (srv3 ''s1'') = True"
    by code_simp+
  have "snd (spec_incr True (abs_server (srv3 ''s1'')) (req_on ''x'' ''u'' 1)) = \<lparr>irs_NewValue = 1, irs_RedirectTo = []\<rparr>"
    by code_simp
  then show ?thesis using IncrCounter_refines_spec [OF h(1,2)] unfolding h(3)
    by (metis IncrResponse.simps(1) snd_conv)
qed

text \<open>The redirect hint means what the protocol says: a successful response of a good server whose
  addresses are not empty carries a redirect exactly when the server is not the leader, the hint
  is then the leader it knows, and nothing was executed and nothing sent.\<close>

lemma redirect_iff_not_leader:
  assumes "wf_server s" and "[] \<notin> set (allServers s)" and "IncrCounter s q = (s', Inr x, es)"
  shows "(irs_RedirectTo x \<noteq> [] \<longleftrightarrow> leaderAddr s \<noteq> self s) \<and>
    (irs_RedirectTo x \<noteq> [] \<longrightarrow> irs_RedirectTo x = leaderAddr s \<and> s' = s \<and> es = [])"
proof -
  have q: "irq_CounterId q \<noteq> []" using assms(3) by (auto simp: IncrCounter_invalid)
  show ?thesis
  proof (cases "leaderAddr s = self s")
    case False
    have "leaderAddr s \<in> set (allServers s)"
      using assms(1) by (auto simp: wf_server_def intro: leaderOf_mem)
    then have "leaderAddr s \<noteq> []" using assms(2) by metis
    with False q assms(3) show ?thesis by (auto simp: IncrCounter_redirect)
  next
    case True
    then have serving: "serving s" using q assms(3) by (auto simp: serving_def IncrCounter_unavailable)
    have "irs_RedirectTo x = []"
    proof (cases "cached_reply s q")
      case None
      then show ?thesis using q serving assms(3) by (auto simp: IncrCounter_fresh incr_response_def)
    next
      case (Some y)
      moreover from this have "irs_RedirectTo y = []"
        using assms(1) by (auto simp: cached_reply_def wf_server_def dest: cache_ok_get split: if_splits)
      ultimately show ?thesis using q serving assms(3) by (simp add: IncrCounter_cached)
    qed
    with True show ?thesis by simp
  qed
qed

theorem redirect_iff_not_leader_witness:
  "IncrCounter (srv3 ''s2'') (req_on ''x'' ''u'' 1) = (srv3 ''s2'', Inr \<lparr>irs_NewValue = 0, irs_RedirectTo = ''s1''\<rparr>, [])
   \<and> leaderAddr (srv3 ''s2'') \<noteq> self (srv3 ''s2'')"
proof -
  have run: "IncrCounter (srv3 ''s2'') (req_on ''x'' ''u'' 1) =
      (srv3 ''s2'', Inr \<lparr>irs_NewValue = 0, irs_RedirectTo = ''s1''\<rparr>, [])" by code_simp
  have "wf_server (srv3 ''s2'')" by (simp add: srv3_def wf_New)
  moreover have "[] \<notin> set (allServers (srv3 ''s2''))" by code_simp
  ultimately show ?thesis using redirect_iff_not_leader [OF _ _ run] run by simp
qed

text \<open>Read your writes.  After a fresh increment the same server's \<open>GetCounter\<close> returns the value the
  increment returned, and what it returns for every other counter has not changed.\<close>

lemma get_after_increment:
  assumes "irq_CounterId q \<noteq> []" and "serving s" and "cached_reply s q = None"
    and "IncrCounter s q = (s', Inr x, es)"
  shows "GetCounter s' \<lparr>grq_CounterId = k\<rparr> =
    (if k = irq_CounterId q then Inr \<lparr>grs_Value = irs_NewValue x, grs_RedirectTo = []\<rparr>
     else GetCounter s \<lparr>grq_CounterId = k\<rparr>)"
  using assms
  by (auto simp: IncrCounter_fresh GetCounter_def serving_def currentLeader_def map_zero_put)

theorem get_after_increment_witness:
  "\<exists>s' es. IncrCounter (srv3 ''s1'') (req_on ''x'' ''u'' 1) = (s', Inr \<lparr>irs_NewValue = 1, irs_RedirectTo = []\<rparr>, es) \<and>
     GetCounter s' \<lparr>grq_CounterId = ''x''\<rparr> = Inr \<lparr>grs_Value = 1, grs_RedirectTo = []\<rparr> \<and>
     GetCounter s' \<lparr>grq_CounterId = ''y''\<rparr> = Inr \<lparr>grs_Value = 0, grs_RedirectTo = []\<rparr>"
proof -
  let ?q = "req_on ''x'' ''u'' 1"
  have h: "irq_CounterId ?q \<noteq> []" "serving (srv3 ''s1'')" "cached_reply (srv3 ''s1'') ?q = None" by code_simp+
  obtain s' es where run: "IncrCounter (srv3 ''s1'') ?q = (s', Inr \<lparr>irs_NewValue = 1, irs_RedirectTo = []\<rparr>, es)"
  proof -
    have "fst (snd (IncrCounter (srv3 ''s1'') ?q)) = Inr \<lparr>irs_NewValue = 1, irs_RedirectTo = []\<rparr>" by code_simp
    then show thesis using that by (metis prod.collapse)
  qed
  have "GetCounter (srv3 ''s1'') \<lparr>grq_CounterId = ''y''\<rparr> = Inr \<lparr>grs_Value = 0, grs_RedirectTo = []\<rparr>" by code_simp
  then show ?thesis
    using run get_after_increment [OF h run, of "''x''"] get_after_increment [OF h run, of "''y''"]
    by (auto simp: req_on_def)
qed

text \<open>A counter is an \<open>int64\<close>: a fresh increment returns one more than the stored value as a signed
  number, except at the largest one, where it wraps around to the smallest.\<close>

lemma increment_wraps:
  assumes "irq_CounterId q \<noteq> []" and "serving s" and "cached_reply s q = None"
    and "IncrCounter s q = (s', Inr x, es)"
  shows "sint (irs_NewValue x) =
    (if sint (map_zero (counters s) (irq_CounterId q)) = 2 ^ 63 - 1 then - (2 ^ 63)
     else sint (map_zero (counters s) (irq_CounterId q)) + 1)"
proof -
  let ?v = "map_zero (counters s) (irq_CounterId q)"
  have x: "irs_NewValue x = ?v + 1" using assms by (auto simp: IncrCounter_fresh incr_response_def)
  show ?thesis
  proof (cases "sint ?v = 2 ^ 63 - 1")
    case True
    have "?v = word_of_int (2 ^ 63 - 1)" by (subst True [symmetric]) simp
    then show ?thesis using True x by simp
  next
    case False
    then show ?thesis using x sint64_lt [of ?v] by (simp add: sint64_inc)
  qed
qed

lemma increment_wraps_witness:
  "\<exists>s' es x. IncrCounter (srv3 ''s1''\<lparr>counters := [(''x'', 9223372036854775807)]\<rparr>) (req_on ''x'' ''u'' 1) =
      (s', Inr x, es) \<and> sint (irs_NewValue x) = - (2 ^ 63)"
proof -
  let ?s = "srv3 ''s1''\<lparr>counters := [(''x'', 9223372036854775807)]\<rparr>" and ?q = "req_on ''x'' ''u'' 1"
  have h: "irq_CounterId ?q \<noteq> []" "serving ?s" "cached_reply ?s ?q = None" by code_simp+
  obtain s' x es where run: "IncrCounter ?s ?q = (s', Inr x, es)"
  proof -
    have "case fst (snd (IncrCounter ?s ?q)) of Inl e \<Rightarrow> False | Inr x \<Rightarrow> True" by code_simp
    then show thesis using that by (metis prod.collapse sum.case_eq_if sum.collapse(2))
  qed
  have "sint (map_zero (counters ?s) (irq_CounterId ?q)) = 2 ^ 63 - 1" by code_simp
  then show ?thesis using run increment_wraps [OF h run] by simp
qed

text \<open>The leader replicates before it answers: a fresh execution on a server with a connection to
  each of its peers starts exactly one \<open>Replicate\<close> call per peer, in the order of the peer list,
  each with the new value and, for an identified request, the reply to be cached, and only then
  sleeps for the configured delay; a request answered from the cache sends nothing.\<close>

lemma fan_out_reaches_every_peer:
  assumes "irq_CounterId q \<noteq> []" and "serving s"
    and "map_of (peerConns s) = (\<lambda>p. if p \<in> set (peers s) then Some (ClientConn p) else None)"
  shows "snd (snd (IncrCounter s q)) =
    (if cached_reply s q = None
     then map (\<lambda>p. CallReplicate (ClientConn p) (incr_msg s q)) (peers s) @
       (if 0 <s replyDelay s then [SleepFor (replyDelay s)] else [])
     else [])"
proof -
  have "List.map_filter (\<lambda>p. map_option (\<lambda>conn. CallReplicate conn (incr_msg s q)) (map_of (peerConns s) p)) ps =
      map (\<lambda>p. CallReplicate (ClientConn p) (incr_msg s q)) ps" if "set ps \<subseteq> set (peers s)" for ps
    using that by (induction ps) (auto simp: List.map_filter_simps assms(3))
  then show ?thesis
    using assms(1,2)
    by (cases "cached_reply s q") (simp_all add: IncrCounter_fresh IncrCounter_cached replicateToAll_def)
qed

theorem fan_out_reaches_every_peer_witness:
  "snd (snd (IncrCounter (srv3 ''s1'') (req_on ''x'' ''u'' 1))) =
     map (\<lambda>p. CallReplicate (ClientConn p) (incr_msg (srv3 ''s1'') (req_on ''x'' ''u'' 1))) [''s2'', ''s3'']"
proof -
  have conns: "map_of (peerConns (srv3 ''s1'')) =
      (\<lambda>p. if p \<in> set (peers (srv3 ''s1'')) then Some (ClientConn p) else None)"
    by (simp add: srv3_def New_def Let_def fun_eq_iff dial_peers_lookup dial_all_def)
  have h: "irq_CounterId (req_on ''x'' ''u'' 1) \<noteq> []" "serving (srv3 ''s1'')"
    "cached_reply (srv3 ''s1'') (req_on ''x'' ''u'' 1) = None" "peers (srv3 ''s1'') = [''s2'', ''s3'']"
    "0 <s replyDelay (srv3 ''s1'') = False" by code_simp+
  show ?thesis using fan_out_reaches_every_peer [OF h(1,2) conns] h(3-5) by simp
qed

end
