(* ===== verification/Election.thy ===== *)
theory Election
  imports Samples
begin

text \<open>
  Leader election (\<open>internal/server/election.go\<close>): the ping handler, one turn of the heartbeat
  loop, the start of a view change, the vote counting of the \<open>ViewChange\<close> handler and the commit
  of a view.  The definitions are whole handler bodies; \<open>cas_loop\<close> is the compare-and-swap loop
  of \<open>commitView\<close> under interference, which \<open>commitView\<close> runs without any.
\<close>

section \<open>The operations\<close>

definition maxMissedPings :: int where
  "maxMissedPings = 3"

definition heartbeatInterval :: int64 where
  "heartbeatInterval = 200000000"

definition Ping :: "Server \<Rightarrow> PingRequest \<Rightarrow> PingResponse" where
  "Ping s req = \<lparr>prs_Ok = True, prs_ViewNumber = viewNumber s\<rparr>"

text \<open>\<open>len(s.allServers)/2 + 1\<close>.\<close>

definition majority :: "Server \<Rightarrow> nat" where
  "majority s = length (allServers s) div 2 + 1"

text \<open>\<open>len(s.viewVotes[v])\<close>: a missing ballot is a nil map, of length zero.\<close>

definition vote_count :: "Server \<Rightarrow> int64 \<Rightarrow> nat" where
  "vote_count s v = (case map_of (viewVotes s) v of None \<Rightarrow> 0 | Some b \<Rightarrow> length b)"

definition commitView :: "Server \<Rightarrow> int64 \<Rightarrow> panic + Server" where
  "commitView s newView =
     (let current = viewNumber s in
      if newView <s current then Inr s
      else let s1 = (if newView = current then s else s\<lparr>viewNumber := newView\<rparr>) in
           case leaderOf (allServers s1) newView of
             Inl p \<Rightarrow> Inl p
           | Inr newLeader \<Rightarrow> Inr (s1\<lparr>leaderAddr := newLeader, inViewChange := 0\<rparr>))"

definition broadcastViewChange :: "Server \<Rightarrow> int64 \<Rightarrow> effect list" where
  "broadcastViewChange s v =
     List.map_filter
       (\<lambda>peer. map_option (\<lambda>conn. CallViewChange conn \<lparr>vcm_ViewNumber = v, vcm_SenderId = self s\<rparr>)
          (map_of (peerConns s) peer)) (peers s)"

definition initiateViewChange :: "Server \<Rightarrow> panic + (Server \<times> effect list)" where
  "initiateViewChange s =
     (let newView = viewNumber s + 1;
          s1 = s\<lparr>viewNumber := newView\<rparr>
      in case leaderOf (allServers s1) newView of
           Inl p \<Rightarrow> Inl p
         | Inr newLeader \<Rightarrow>
             let s2 = s1\<lparr>inViewChange := 1, leaderAddr := newLeader\<rparr>;
                 votes = (case map_of (viewVotes s2) newView of None \<Rightarrow> [] | Some b \<Rightarrow> b);
                 s3 = s2\<lparr>viewVotes := AList.update newView (AList.update (self s2) True votes) (viewVotes s2)\<rparr>
             in if majority s3 \<le> vote_count s3 newView then
                  (case commitView s3 newView of Inl p \<Rightarrow> Inl p | Inr s4 \<Rightarrow> Inr (s4, []))
                else Inr (s3, broadcastViewChange s3 newView))"

definition ViewChange :: "Server \<Rightarrow> ViewChangeMsg \<Rightarrow> panic + (Server \<times> ViewChangeAck)" where
  "ViewChange s msg =
     (let currentView = viewNumber s; v = vcm_ViewNumber msg in
      if v <s currentView then Inr (s, \<lparr>vca_Accepted = False, vca_ViewNumber = currentView\<rparr>)
      else
        let s1 = (if currentView <s v then s\<lparr>inViewChange := 1\<rparr> else s);
            ballot = (case map_of (viewVotes s1) v of None \<Rightarrow> [(self s, True)] | Some b \<Rightarrow> b);
            s2 = s1\<lparr>viewVotes := AList.update v (AList.update (vcm_SenderId msg) True ballot) (viewVotes s1)\<rparr>;
            ack = \<lparr>vca_Accepted = True, vca_ViewNumber = v\<rparr>
        in if vote_count s2 v = majority s2 then
             (case commitView s2 v of Inl p \<Rightarrow> Inl p | Inr s3 \<Rightarrow> Inr (s3, ack))
           else Inr (s2, ack))"

text \<open>
  \<open>pingLeader\<close>: the outcome of the \<open>Ping\<close> RPC on the leader's connection is a parameter.
\<close>

definition pingLeader :: "(client_conn \<Rightarrow> bool) \<Rightarrow> Server \<Rightarrow> string \<Rightarrow> bool" where
  "pingLeader ping_ok s addr =
     (case map_of (peerConns s) addr of None \<Rightarrow> False | Some conn \<Rightarrow> ping_ok conn)"

text \<open>One turn of the loop of \<open>runHeartbeat\<close>, after its sleep; the state is \<open>missCount\<close> and the server.\<close>

definition heartbeat_turn ::
  "(client_conn \<Rightarrow> bool) \<Rightarrow> int \<times> Server \<Rightarrow> panic + ((int \<times> Server) \<times> effect list)" where
  "heartbeat_turn ping_ok ms =
     (let missCount = fst ms; s = snd ms; leader = currentLeader s in
      if leader = self s then Inr ((0, s), [])
      else
        let missCount1 = (if pingLeader ping_ok s leader then 0 else missCount + 1) in
        if maxMissedPings \<le> missCount1 then
          (case initiateViewChange s of Inl p \<Rightarrow> Inl p | Inr (s', es) \<Rightarrow> Inr ((0, s'), es))
        else Inr ((missCount1, s), []))"

text \<open>The loop, turn by turn, against one ping oracle per turn.\<close>

fun runHeartbeat ::
  "(client_conn \<Rightarrow> bool) list \<Rightarrow> int \<times> Server \<Rightarrow> panic + ((int \<times> Server) \<times> effect list)" where
  "runHeartbeat [] ms = Inr (ms, [])"
| "runHeartbeat (ping_ok # rest) ms =
     (case heartbeat_turn ping_ok ms of
        Inl p \<Rightarrow> Inl p
      | Inr (ms', es) \<Rightarrow>
          (case runHeartbeat rest ms' of
             Inl p \<Rightarrow> Inl p
           | Inr (ms'', es') \<Rightarrow> Inr (ms'', es @ es')))"

section \<open>The commit loop under interference\<close>

text \<open>
  The \<open>for\<close> loop at the head of \<open>commitView\<close>, with what other goroutines do to \<open>viewNumber\<close>: each
  element is the value one turn loads and the value the compare-and-swap of that turn finds.
  The result is the value the loop leaves in \<open>viewNumber\<close> when it lets the commit go on
  (\<open>Some (Inr v)\<close>), the newer view it gives up for (\<open>Some (Inl v)\<close>), or \<open>None\<close> while no turn has
  succeeded.
\<close>

fun cas_loop :: "int64 \<Rightarrow> (int64 \<times> int64) list \<Rightarrow> (int64 + int64) option" where
  "cas_loop newView [] = None"
| "cas_loop newView ((current, found) # rest) =
     (if newView <s current then Some (Inl current)
      else if newView = current then Some (Inr current)
      else if found = current then Some (Inr newView)
      else cas_loop newView rest)"

section \<open>Votes\<close>

lemma ballot_card: "ballot_ok b \<Longrightarrow> length b = card (fst ` set b)"
  unfolding ballot_ok_def map_ok_def by (metis distinct_card length_map list.set_map)

lemma fst_set_update: "fst ` set (AList.update k v m) = insert k (fst ` set m)"
  using dom_update [of k v m] by simp

text \<open>The servers that voted for a view, as a server has recorded them.\<close>

definition voters :: "Server \<Rightarrow> int64 \<Rightarrow> string set" where
  "voters s v = (case map_of (viewVotes s) v of None \<Rightarrow> {} | Some b \<Rightarrow> fst ` set b)"

lemma finite_voters [simp]: "finite (voters s v)"
  by (simp add: voters_def split: option.splits)

lemma vote_count_card: "votes_ok (viewVotes s) \<Longrightarrow> vote_count s v = card (voters s v)"
  by (auto simp: vote_count_def voters_def ballot_card dest: votes_ok_get split: option.splits)

lemma voters_put:
  "voters (s\<lparr>viewVotes := AList.update v b vs\<rparr>) u =
     (if u = v then fst ` set b else voters (s\<lparr>viewVotes := vs\<rparr>) u)"
  by (simp add: voters_def amap.lookup_put)

lemma voters_cong [simp]:
  "voters (s\<lparr>viewNumber := x\<rparr>) v = voters s v" "voters (s\<lparr>leaderAddr := l\<rparr>) v = voters s v"
  "voters (s\<lparr>inViewChange := f\<rparr>) v = voters s v" "voters (s\<lparr>counters := c\<rparr>) v = voters s v"
  "voters (s\<lparr>cache := r\<rparr>) v = voters s v"
  by (simp_all add: voters_def)

lemma majority_cong [simp]:
  "majority (s\<lparr>viewNumber := x\<rparr>) = majority s" "majority (s\<lparr>leaderAddr := l\<rparr>) = majority s"
  "majority (s\<lparr>inViewChange := f\<rparr>) = majority s" "majority (s\<lparr>viewVotes := vs\<rparr>) = majority s"
  by (simp_all add: majority_def)

lemma majority_pos: "0 < majority s"
  by (simp add: majority_def)

section \<open>What the handlers do on a good server\<close>

text \<open>The leader of a view, for view numbers that have one.\<close>

definition leader_at :: "string list \<Rightarrow> int64 \<Rightarrow> string" where
  "leader_at all v = all ! nat (sint v mod int (length all))"

lemma leaderOf_leader_at: "0 \<le> sint v \<Longrightarrow> all \<noteq> [] \<Longrightarrow> leaderOf all v = Inr (leader_at all v)"
  by (simp add: leaderOf_nonneg leader_at_def)

lemma leader_at_mem:
  assumes "all \<noteq> []"
  shows "leader_at all v \<in> set all"
proof -
  have "nat (sint v mod int (length all)) < length all"
    using assms by (simp add: nat_less_iff)
  then show ?thesis by (simp add: leader_at_def)
qed

lemma wf_leader_at: "wf_server s \<Longrightarrow> leaderAddr s = leader_at (allServers s) (viewNumber s)"
  by (simp add: wf_leader leader_at_def)

lemma commitView_eq:
  assumes "0 \<le> sint v" and "allServers s \<noteq> []"
  shows "commitView s v =
    Inr (if sint v < sint (viewNumber s) then s
         else s\<lparr>viewNumber := v, leaderAddr := leader_at (allServers s) v, inViewChange := 0\<rparr>)"
  using assms by (simp add: commitView_def Let_def leaderOf_leader_at int64_less)

lemma voters_empty_iff: "votes_ok (viewVotes s) \<Longrightarrow> voters s v = {} \<longleftrightarrow> map_of (viewVotes s) v = None"
  by (auto simp: voters_def ballot_ok_def dest: votes_ok_get split: option.splits)

text \<open>The server after its own suspicion, before it counts.\<close>

definition suspected :: "Server \<Rightarrow> Server" where
  "suspected s =
     (let v = viewNumber s + 1 in
      s\<lparr>viewNumber := v, inViewChange := 1, leaderAddr := leader_at (allServers s) v,
        viewVotes := AList.update v (AList.update (self s) True
          (case map_of (viewVotes s) v of None \<Rightarrow> [] | Some b \<Rightarrow> b)) (viewVotes s)\<rparr>)"

lemma initiate_eq:
  assumes "wf_server s" and "sint (viewNumber s) < 2 ^ 63 - 1"
  shows "initiateViewChange s =
    (let s' = suspected s; v = viewNumber s' in
     if majority s \<le> vote_count s' v then Inr (s'\<lparr>inViewChange := 0\<rparr>, [])
     else Inr (s', broadcastViewChange s' v))"
proof -
  have "0 \<le> sint (viewNumber s + 1)" "allServers s \<noteq> []"
    using assms by (simp_all add: wf_server_def sint64_inc all_nonempty)
  then show ?thesis
    by (auto simp: initiateViewChange_def suspected_def Let_def leaderOf_leader_at commitView_eq)
qed

lemma suspected_simps [simp]:
  "viewNumber (suspected s) = viewNumber s + 1" "inViewChange (suspected s) = 1"
  "allServers (suspected s) = allServers s" "self (suspected s) = self s" "peers (suspected s) = peers s"
  "counters (suspected s) = counters s" "cache (suspected s) = cache s"
  "dedupEnabled (suspected s) = dedupEnabled s" "peerConns (suspected s) = peerConns s"
  "majority (suspected s) = majority s"
  "leaderAddr (suspected s) = leader_at (allServers s) (viewNumber s + 1)"
  by (simp_all add: suspected_def Let_def majority_def)

lemma suspected_voters:
  "voters (suspected s) u = (if u = viewNumber s + 1 then insert (self s) (voters s u) else voters s u)"
  by (simp add: suspected_def Let_def voters_def amap.lookup_put fst_set_update split: option.splits)

lemma ballot_default_ok:
  "votes_ok vs \<Longrightarrow> map_ok (case map_of vs v of None \<Rightarrow> d | Some b \<Rightarrow> b) \<and>
     list_all (\<lambda>(v, yes). yes) (case map_of vs v of None \<Rightarrow> d | Some b \<Rightarrow> b)"
  if "map_ok d" "list_all (\<lambda>(v, yes). yes) d"
  using that by (auto simp: ballot_ok_def dest: votes_ok_get split: option.splits)

lemma suspected_wf:
  assumes "wf_server s" and "sint (viewNumber s) < 2 ^ 63 - 1"
  shows "wf_server (suspected s)"
proof -
  have "votes_ok (viewVotes (suspected s))"
    using assms ballot_default_ok [of "[]" "viewVotes s" "viewNumber s + 1"]
    by (simp add: suspected_def Let_def votes_ok_put ballot_ok_put wf_server_def)
  moreover have "leaderOf (allServers s) (viewNumber s + 1) = Inr (leader_at (allServers s) (viewNumber s + 1))"
    using assms by (intro leaderOf_leader_at) (simp_all add: wf_server_def sint64_inc all_nonempty)
  ultimately show ?thesis
    using assms by (simp add: wf_server_def sint64_inc)
qed

lemma flag_wf: "wf_server s \<Longrightarrow> wf_server (s\<lparr>inViewChange := 0\<rparr>) \<and> wf_server (s\<lparr>inViewChange := 1\<rparr>)"
  by (simp add: wf_server_def)

lemma initiate_wf:
  assumes "wf_server s" and "sint (viewNumber s) < 2 ^ 63 - 1"
  shows "\<exists>s' es. initiateViewChange s = Inr (s', es) \<and> wf_server s'"
  using assms suspected_wf [OF assms] flag_wf [OF suspected_wf [OF assms]]
  by (simp add: initiate_eq Let_def)

text \<open>The server after it has recorded a vote that is not stale.\<close>

definition voted :: "Server \<Rightarrow> ViewChangeMsg \<Rightarrow> Server" where
  "voted s msg =
     (let v = vcm_ViewNumber msg in
      s\<lparr>inViewChange := (if sint (viewNumber s) < sint v then 1 else inViewChange s),
        viewVotes := AList.update v (AList.update (vcm_SenderId msg) True
          (case map_of (viewVotes s) v of None \<Rightarrow> [(self s, True)] | Some b \<Rightarrow> b)) (viewVotes s)\<rparr>)"

lemma ViewChange_stale:
  "sint (vcm_ViewNumber msg) < sint (viewNumber s) \<Longrightarrow>
     ViewChange s msg = Inr (s, \<lparr>vca_Accepted = False, vca_ViewNumber = viewNumber s\<rparr>)"
  by (simp add: ViewChange_def int64_less)

lemma ViewChange_eq:
  assumes "wf_server s" and "sint (viewNumber s) \<le> sint (vcm_ViewNumber msg)"
  shows "ViewChange s msg =
    (let s' = voted s msg; v = vcm_ViewNumber msg; ack = \<lparr>vca_Accepted = True, vca_ViewNumber = v\<rparr> in
     if vote_count s' v = majority s
     then Inr (s'\<lparr>viewNumber := v, leaderAddr := leader_at (allServers s) v, inViewChange := 0\<rparr>, ack)
     else Inr (s', ack))"
proof -
  have "0 \<le> sint (vcm_ViewNumber msg)" "allServers s \<noteq> []"
    using assms by (simp_all add: wf_server_def all_nonempty)
  then show ?thesis using assms(2)
    by (auto simp: ViewChange_def voted_def Let_def int64_less commitView_eq)
qed

lemma voted_simps [simp]:
  "viewNumber (voted s m) = viewNumber s" "allServers (voted s m) = allServers s" "self (voted s m) = self s"
  "peers (voted s m) = peers s" "counters (voted s m) = counters s" "cache (voted s m) = cache s"
  "dedupEnabled (voted s m) = dedupEnabled s" "peerConns (voted s m) = peerConns s"
  "leaderAddr (voted s m) = leaderAddr s" "majority (voted s m) = majority s"
  "inViewChange (voted s m) =
     (if sint (viewNumber s) < sint (vcm_ViewNumber m) then 1 else inViewChange s)"
  by (simp_all add: voted_def Let_def majority_def)

lemma voted_voters:
  "votes_ok (viewVotes s) \<Longrightarrow> voters (voted s m) u =
     (if u = vcm_ViewNumber m
      then insert (vcm_SenderId m) (if voters s u = {} then {self s} else voters s u) else voters s u)"
  by (auto simp: voted_def Let_def voters_def amap.lookup_put fst_set_update ballot_ok_def
      dest: votes_ok_get split: option.splits)

lemma voted_votes_ok: "votes_ok (viewVotes s) \<Longrightarrow> votes_ok (viewVotes (voted s m))"
  using ballot_default_ok [of "[(self s, True)]" "viewVotes s" "vcm_ViewNumber m"]
  by (simp add: voted_def Let_def votes_ok_put ballot_ok_put map_ok_def)

lemma voted_wf: "wf_server s \<Longrightarrow> wf_server (voted s m)"
  using voted_votes_ok [of s m] by (simp add: wf_server_def)

lemma committed_wf:
  assumes "wf_server s" and "0 \<le> sint v"
  shows "wf_server (s\<lparr>viewNumber := v, leaderAddr := leader_at (allServers s) v, inViewChange := 0\<rparr>)"
  using assms leaderOf_leader_at [OF assms(2) all_nonempty [OF assms(1)]] by (simp add: wf_server_def)

lemma ViewChange_wf:
  assumes "wf_server s"
  shows "\<exists>s' ack. ViewChange s msg = Inr (s', ack) \<and> wf_server s'"
proof (cases "sint (vcm_ViewNumber msg) < sint (viewNumber s)")
  case True
  then show ?thesis using assms by (simp add: ViewChange_stale)
next
  case False
  then have "0 \<le> sint (vcm_ViewNumber msg)" using assms by (simp add: wf_server_def)
  then show ?thesis
    using False assms voted_wf [OF assms] committed_wf [OF voted_wf [OF assms], of "vcm_ViewNumber msg" msg]
    by (simp add: ViewChange_eq Let_def)
qed

section \<open>Views only move forward\<close>

lemma commitView_view:
  assumes "wf_server s" and "0 \<le> sint v" and "commitView s v = Inr s'"
  shows "viewNumber s' = (if sint v < sint (viewNumber s) then viewNumber s else v)"
  using assms by (auto simp: commitView_eq all_nonempty)

lemma ViewChange_view:
  assumes "wf_server s" and "ViewChange s m = Inr (s', a)"
  shows "sint (viewNumber s) \<le> sint (viewNumber s')"
proof (cases "sint (vcm_ViewNumber m) < sint (viewNumber s)")
  case True
  then show ?thesis using assms by (simp add: ViewChange_stale)
next
  case False
  then show ?thesis using assms by (auto simp: ViewChange_eq Let_def split: if_splits)
qed

lemma initiate_view:
  assumes "wf_server s" and "sint (viewNumber s) < 2 ^ 63 - 1" and "initiateViewChange s = Inr (s', es)"
  shows "viewNumber s' = viewNumber s + 1"
  using assms by (auto simp: initiate_eq Let_def split: if_splits)

section \<open>Counting votes to a commit\<close>

fun handle_votes :: "Server \<Rightarrow> ViewChangeMsg list \<Rightarrow> panic + Server" where
  "handle_votes s [] = Inr s"
| "handle_votes s (m # ms) =
     (case ViewChange s m of Inl p \<Rightarrow> Inl p | Inr (s', ack) \<Rightarrow> handle_votes s' ms)"

text \<open>The voters of a view once the next vote is recorded: a first vote also enters the server's own.\<close>

definition electorate :: "Server \<Rightarrow> int64 \<Rightarrow> string set" where
  "electorate s v = (if voters s v = {} then {self s} else voters s v)"

definition committed_to :: "Server \<Rightarrow> int64 \<Rightarrow> bool" where
  "committed_to s v \<longleftrightarrow>
     viewNumber s = v \<and> inViewChange s = 0 \<and> leaderAddr s = leader_at (allServers s) v"

lemma one_vote:
  assumes "wf_server s" and "sint (viewNumber s) \<le> sint v" and "vcm_ViewNumber m = v"
    and "ViewChange s m = Inr (s', a)"
  shows "voters s' v = insert (vcm_SenderId m) (electorate s v)"
    and "allServers s' = allServers s" and "self s' = self s" and "majority s' = majority s"
    and "card (voters s' v) = majority s \<Longrightarrow> committed_to s' v"
    and "card (voters s' v) \<noteq> majority s \<Longrightarrow> viewNumber s' = viewNumber s \<and> leaderAddr s' = leaderAddr s \<and>
      inViewChange s' = (if sint (viewNumber s) < sint v then 1 else inViewChange s)"
proof -
  have vs: "votes_ok (viewVotes s)" using assms(1) by (simp add: wf_server_def)
  have v: "voters (voted s m) v = insert (vcm_SenderId m) (electorate s v)"
    by (simp add: voted_voters vs assms(3) electorate_def)
  have c: "vote_count (voted s m) v = card (voters (voted s m) v)"
    by (simp add: vote_count_card voted_votes_ok vs)
  have s': "s' = (if vote_count (voted s m) v = majority s
      then (voted s m)\<lparr>viewNumber := v, leaderAddr := leader_at (allServers s) v, inViewChange := 0\<rparr>
      else voted s m)"
    using assms by (auto simp: ViewChange_eq Let_def split: if_splits)
  show "voters s' v = insert (vcm_SenderId m) (electorate s v)" by (simp add: s' v)
  show "allServers s' = allServers s" "self s' = self s" "majority s' = majority s"
    by (simp_all add: s' majority_def)
  show "committed_to s' v" if "card (voters s' v) = majority s"
    using that c by (simp add: s' committed_to_def split: if_splits)
  show "viewNumber s' = viewNumber s \<and> leaderAddr s' = leaderAddr s \<and>
      inViewChange s' = (if sint (viewNumber s) < sint v then 1 else inViewChange s)"
    if "card (voters s' v) \<noteq> majority s"
    using that c by (simp add: s' assms(3) split: if_splits)
qed

lemma votes_commit:
  assumes "wf_server s" and "sint (viewNumber s) \<le> sint v" and "2 \<le> majority s \<or> voters s v \<noteq> {}"
    and "majority s \<le> card (voters s v) \<Longrightarrow> committed_to s v"
    and "majority s \<le> card (voters s v \<union> (\<Union>x \<in> set senders. insert x (electorate s v)))"
  shows "\<exists>s'. handle_votes s (map (vote_msg v) senders) = Inr s' \<and> wf_server s' \<and> committed_to s' v"
  using assms
proof (induction senders arbitrary: s)
  case Nil
  then show ?case by simp
next
  case (Cons x xs)
  let ?m = "vote_msg v x"
  have mv: "vcm_ViewNumber ?m = v" "vcm_SenderId ?m = x" by (simp_all add: vote_msg_def)
  obtain s1 a where s1: "ViewChange s ?m = Inr (s1, a)" and wf1: "wf_server s1"
    using ViewChange_wf [OF Cons.prems(1)] by blast
  note one = one_vote [OF Cons.prems(1,2) mv(1) s1, unfolded mv(2)]
  have view1: "sint (viewNumber s1) \<le> sint v"
    using one(5,6) Cons.prems(2) by (cases "card (voters s1 v) = majority s") (auto simp: committed_to_def)
  have el1: "electorate s1 v = insert x (electorate s v)" by (simp add: electorate_def one(1))
  have sub: "voters s v \<subseteq> electorate s v" by (simp add: electorate_def)
  have step: "committed_to s1 v" if "majority s1 \<le> card (voters s1 v)"
  proof (cases "card (voters s1 v) = majority s")
    case True
    then show ?thesis by (rule one(5))
  next
    case False
    then have more: "majority s < card (insert x (electorate s v))" using that one by simp
    have fin: "finite (electorate s v)" by (simp add: electorate_def)
    have "majority s \<le> card (voters s v)"
    proof (cases "voters s v = {}")
      case True
      then have "card (insert x (electorate s v)) \<le> 2" by (simp add: electorate_def card_insert_if)
      then show ?thesis using more Cons.prems(3) True by simp
    next
      case False
      then have "card (insert x (electorate s v)) \<le> Suc (card (voters s v))"
        by (simp add: electorate_def card_insert_if)
      then show ?thesis using more by simp
    qed
    then have "committed_to s v" by (rule Cons.prems(4))
    then show ?thesis using one(2,6) False by (auto simp: committed_to_def)
  qed
  have "voters s1 v \<union> (\<Union>y \<in> set xs. insert y (electorate s1 v)) =
      voters s v \<union> (\<Union>y \<in> set (x # xs). insert y (electorate s v))"
    using sub by (auto simp: one(1) el1)
  then have enough: "majority s1 \<le> card (voters s1 v \<union> (\<Union>y \<in> set xs. insert y (electorate s1 v)))"
    using Cons.prems(5) one(4) by simp
  have "2 \<le> majority s1 \<or> voters s1 v \<noteq> {}" by (simp add: one(1))
  from Cons.IH [OF wf1 view1 this step enough] show ?case by (simp add: s1)
qed

section \<open>The heartbeat\<close>

text \<open>Three missed pings in a row, anywhere in a sequence of outcomes.\<close>

fun three_in_row :: "bool list \<Rightarrow> bool" where
  "three_in_row (False # False # False # bs) = True"
| "three_in_row (b # bs) = three_in_row bs"
| "three_in_row [] = False"

definition ping_outcomes :: "Server \<Rightarrow> (client_conn \<Rightarrow> bool) list \<Rightarrow> bool list" where
  "ping_outcomes s oracles = map (\<lambda>ping_ok. pingLeader ping_ok s (leaderAddr s)) oracles"

lemma heartbeat_turn_follower:
  "leaderAddr s \<noteq> self s \<Longrightarrow> m < 3 \<Longrightarrow>
     heartbeat_turn o1 (m, s) =
       (if pingLeader o1 s (leaderAddr s) then Inr ((0, s), [])
        else if m < 2 then Inr ((m + 1, s), [])
        else case initiateViewChange s of Inl p \<Rightarrow> Inl p | Inr (s', es) \<Rightarrow> Inr ((0, s'), es))"
  by (auto simp: heartbeat_turn_def Let_def currentLeader_def maxMissedPings_def)

lemma heartbeat_quiet:
  assumes "leaderAddr s \<noteq> self s" and "k < 3"
    and "\<not> three_in_row (replicate k False @ ping_outcomes s oracles)"
  shows "\<exists>k' < 3. runHeartbeat oracles (int k, s) = Inr ((int k', s), [])"
  using assms(2,3)
proof (induction oracles arbitrary: k)
  case Nil
  then show ?case by auto
next
  case (Cons o1 os)
  consider "k = 0" | "k = 1" | "k = 2" using Cons.prems(1) by linarith
  note k = this
  show ?case
  proof (cases "pingLeader o1 s (leaderAddr s)")
    case True
    have "\<not> three_in_row (replicate 0 False @ ping_outcomes s os)"
      using k Cons.prems(2) True by cases (auto simp: ping_outcomes_def numeral_2_eq_2)
    then show ?thesis
      using Cons.IH [of 0] True Cons.prems(1) assms(1) by (auto simp: heartbeat_turn_follower)
  next
    case False
    have "k \<noteq> 2" using Cons.prems(2) False by (auto simp: ping_outcomes_def numeral_2_eq_2)
    then have "k < 2" using Cons.prems(1) by simp
    have "\<not> three_in_row (replicate (Suc k) False @ ping_outcomes s os)"
      using Cons.prems(2) False by (simp add: ping_outcomes_def replicate_app_Cons_same)
    then obtain k' where
      k': "k' < 3" "runHeartbeat os (int (Suc k), s) = Inr ((int k', s), [])"
      using Cons.IH [of "Suc k"] \<open>k < 2\<close> by auto
    have "heartbeat_turn o1 (int k, s) = Inr ((int (Suc k), s), [])"
      using False \<open>k < 2\<close> assms(1) by (simp add: heartbeat_turn_follower)
    then show ?thesis using k' by simp
  qed
qed

lemma runHeartbeat_append:
  "runHeartbeat (xs @ ys) ms =
     (case runHeartbeat xs ms of
        Inl p \<Rightarrow> Inl p
      | Inr (ms', es) \<Rightarrow>
          (case runHeartbeat ys ms' of Inl p \<Rightarrow> Inl p | Inr (ms'', es') \<Rightarrow> Inr (ms'', es @ es')))"
proof (induction xs arbitrary: ms)
  case Nil
  then show ?case by (simp split: sum.split)
next
  case (Cons x xs)
  then show ?case by (cases "heartbeat_turn x ms") (simp_all split: sum.split prod.split)
qed

lemma three_in_row_append: "three_in_row xs \<Longrightarrow> three_in_row (xs @ ys)"
  by (induction xs rule: three_in_row.induct) simp_all

section \<open>Properties\<close>

text \<open>C15: A majority elects.  A good server of a cluster of at least two that hears votes for one view it
  has not passed, from senders that together with the votes it holds (its own included) make a
  majority, ends up committed to that view: at its number, under its round-robin leader, open for
  requests.  Repeated senders and surplus votes do no harm, whatever their order.\<close>

theorem majority_of_votes_commits:
  assumes "wf_server s" and "2 \<le> length (allServers s)" and "sint (viewNumber s) \<le> sint v"
    and "vote_count s v < majority s" and "senders \<noteq> []"
    and "majority s \<le> card (electorate s v \<union> set senders)"
  shows "\<exists>s'. handle_votes s (map (vote_msg v) senders) = Inr s' \<and> wf_server s' \<and> committed_to s' v"
proof (rule votes_commit)
  have "electorate s v \<union> set senders = voters s v \<union> (\<Union>x \<in> set senders. insert x (electorate s v))"
    using assms(5) by (cases senders) (auto simp: electorate_def)
  then show "majority s \<le> card (voters s v \<union> (\<Union>x \<in> set senders. insert x (electorate s v)))"
    using assms(6) by simp
  show "committed_to s v" if "majority s \<le> card (voters s v)"
    using that assms(1,4) by (simp add: vote_count_card wf_server_def)
  have "1 \<le> length (allServers s) div 2" using assms(2) by presburger
  then show "2 \<le> majority s \<or> voters s v \<noteq> {}" by (simp add: majority_def)
qed (use assms in simp_all)

theorem majority_of_votes_commits_witness:
  "\<exists>s'. handle_votes (srv5 ''s3'') (map (vote_msg 1) [''s4'', ''s4'', ''s2'']) = Inr s' \<and>
     viewNumber s' = 1 \<and> leaderAddr s' = ''s2'' \<and> inViewChange s' = 0"
proof -
  have wf: "wf_server (srv5 ''s3'')" by (simp add: srv5_def wf_New)
  have h: "2 \<le> length (allServers (srv5 ''s3''))" "sint (viewNumber (srv5 ''s3'')) \<le> sint (1 :: int64)"
    "vote_count (srv5 ''s3'') 1 < majority (srv5 ''s3'')" "[''s4'', ''s4'', ''s2''] \<noteq> []"
    "majority (srv5 ''s3'') \<le> card (electorate (srv5 ''s3'') 1 \<union> set [''s4'', ''s4'', ''s2''])" by code_simp+
  obtain s' where s': "handle_votes (srv5 ''s3'') (map (vote_msg 1) [''s4'', ''s4'', ''s2'']) = Inr s'"
    "committed_to s' 1"
    using majority_of_votes_commits [OF wf h] by blast
  have "case handle_votes (srv5 ''s3'') (map (vote_msg 1) [''s4'', ''s4'', ''s2'']) of
      Inl p \<Rightarrow> False | Inr s' \<Rightarrow> leaderAddr s' = ''s2''" by code_simp
  with s' show ?thesis by (simp add: committed_to_def)
qed

text \<open>A minority elects nobody, and stops the server.  While the senders heard for a newer view make
  no majority together with the server's own vote, its view number and leader stay as they are;
  but from the first such vote on it is in view-change mode, and, if it is the leader, refuses
  every request until some view commits.\<close>

lemma minority_of_votes_blocks:
  assumes "wf_server s" and "sint (viewNumber s) < sint v" and "senders \<noteq> []"
    and "card (electorate s v \<union> set senders) < majority s"
  shows "\<exists>s'. handle_votes s (map (vote_msg v) senders) = Inr s' \<and>
    viewNumber s' = viewNumber s \<and> leaderAddr s' = leaderAddr s \<and> inViewChange s' = 1"
  using assms
proof (induction senders arbitrary: s)
  case Nil
  then show ?case by simp
next
  case (Cons x xs)
  let ?m = "vote_msg v x"
  have mv: "vcm_ViewNumber ?m = v" "vcm_SenderId ?m = x" by (simp_all add: vote_msg_def)
  obtain s1 a where s1: "ViewChange s ?m = Inr (s1, a)" and wf1: "wf_server s1"
    using ViewChange_wf [OF Cons.prems(1)] by blast
  note one = one_vote [OF Cons.prems(1) less_imp_le [OF Cons.prems(2)] mv(1) s1, unfolded mv(2)]
  have fin: "finite (electorate s v \<union> set (x # xs))" by (simp add: electorate_def)
  have "card (insert x (electorate s v)) \<le> card (electorate s v \<union> set (x # xs))"
    by (intro card_mono [OF fin]) auto
  then have "card (voters s1 v) \<noteq> majority s" using Cons.prems(4) by (simp add: one(1))
  note same = one(6) [OF this]
  show ?case
  proof (cases "xs = []")
    case True
    then show ?thesis using same Cons.prems(2) by (simp add: s1)
  next
    case False
    have "electorate s1 v \<union> set xs = electorate s v \<union> set (x # xs)"
      by (auto simp: electorate_def one(1))
    then show ?thesis
      using Cons.IH [OF wf1 _ False] same one(4) Cons.prems(2,4) by (simp add: s1)
  qed
qed

lemma minority_of_votes_blocks_witness:
  "\<exists>s'. handle_votes (srv5 ''s1'') (map (vote_msg 1) [''s4'', ''s4'']) = Inr s' \<and>
     leaderAddr s' = self (srv5 ''s1'') \<and> inViewChange s' = 1"
proof -
  have wf: "wf_server (srv5 ''s1'')" by (simp add: srv5_def wf_New)
  have h: "sint (viewNumber (srv5 ''s1'')) < sint (1 :: int64)" "[''s4'', ''s4''] \<noteq> []"
    "card (electorate (srv5 ''s1'') 1 \<union> set [''s4'', ''s4'']) < majority (srv5 ''s1'')"
    "leaderAddr (srv5 ''s1'') = self (srv5 ''s1'')" by code_simp+
  show ?thesis using minority_of_votes_blocks [OF wf h(1-3)] h(4) by metis
qed

text \<open>The heartbeat suspects after exactly three misses in a row.  On a follower, as long as no
  three consecutive pings of its leader fail, nothing changes and nothing is sent, and the miss
  count stays below the limit; and once a quiet stretch that ends in an answered ping (or the
  start) is followed by three failures, the loop starts one view change and its count is zero.\<close>

lemma heartbeat_three_misses:
  assumes "leaderAddr s \<noteq> self s" and "\<not> three_in_row (ping_outcomes s quiet)"
    and "quiet = [] \<or> last (ping_outcomes s quiet)"
    and "ping_outcomes s missed = [False, False, False]"
  shows "(\<exists>k < 3. runHeartbeat quiet (0, s) = Inr ((int k, s), [])) \<and>
    runHeartbeat (quiet @ missed) (0, s) =
      (case initiateViewChange s of Inl p \<Rightarrow> Inl p | Inr (s', es) \<Rightarrow> Inr ((0, s'), es))"
proof -
  obtain o1 o2 o3 where missed: "missed = [o1, o2, o3]"
    using assms(4) by (auto simp: ping_outcomes_def)
  have fail: "\<not> pingLeader o1 s (leaderAddr s)" "\<not> pingLeader o2 s (leaderAddr s)"
    "\<not> pingLeader o3 s (leaderAddr s)"
    using assms(4) by (simp_all add: missed ping_outcomes_def)
  have three: "runHeartbeat missed (0, s) =
      (case initiateViewChange s of Inl p \<Rightarrow> Inl p | Inr (s', es) \<Rightarrow> Inr ((0, s'), es))"
    using fail by (simp add: missed heartbeat_turn_follower assms(1) split: sum.splits prod.splits)
  have "runHeartbeat quiet (0, s) = Inr ((0, s), [])"
  proof (cases quiet rule: rev_cases)
    case Nil
    then show ?thesis by simp
  next
    case (snoc os o1)
    have "\<not> three_in_row (replicate 0 False @ ping_outcomes s os)"
      using assms(2) snoc three_in_row_append [of "ping_outcomes s os"] by (auto simp: ping_outcomes_def)
    from heartbeat_quiet [OF assms(1) _ this] obtain k where
      k: "k < 3" "runHeartbeat os (0, s) = Inr ((int k, s), [])" by auto
    have "pingLeader o1 s (leaderAddr s)" using assms(3) snoc by (simp add: ping_outcomes_def)
    then show ?thesis
      using k by (simp add: snoc runHeartbeat_append heartbeat_turn_follower assms(1))
  qed
  then show ?thesis
    by (auto simp: runHeartbeat_append three split: sum.splits intro: exI [of _ 0])
qed

theorem heartbeat_three_misses_witness:
  "\<exists>s' es. runHeartbeat ([\<lambda>c. False, \<lambda>c. False, \<lambda>c. True] @ [\<lambda>c. False, \<lambda>c. False, \<lambda>c. False]) (0, srv3 ''s2'') =
     Inr ((0, s'), es) \<and> viewNumber s' = 1 \<and> leaderAddr s' = ''s2''"
proof -
  let ?s = "srv3 ''s2''" and ?quiet = "[\<lambda>c. False, \<lambda>c. False, \<lambda>c. True]"
    and ?missed = "[\<lambda>c. False, \<lambda>c. False, \<lambda>c. False]"
  have h: "leaderAddr ?s \<noteq> self ?s" "\<not> three_in_row (ping_outcomes ?s ?quiet)"
    "?quiet = [] \<or> last (ping_outcomes ?s ?quiet)" "ping_outcomes ?s ?missed = [False, False, False]"
    by code_simp+
  obtain s' es where i: "initiateViewChange ?s = Inr (s', es)" and v: "viewNumber s' = 1 \<and> leaderAddr s' = ''s2''"
  proof -
    have "case initiateViewChange ?s of Inl p \<Rightarrow> False | Inr (s', es) \<Rightarrow> viewNumber s' = 1 \<and> leaderAddr s' = ''s2''"
      by code_simp
    then show thesis using that by (auto split: sum.splits)
  qed
  have "runHeartbeat (?quiet @ ?missed) (0, ?s) = Inr ((0, s'), es)"
    using heartbeat_three_misses [OF h] i by simp
  then show ?thesis using v by blast
qed

lemma ViewChange_data:
  assumes "wf_server s" and "ViewChange s m = Inr (s', a)"
  shows "counters s' = counters s" and "cache s' = cache s" and "allServers s' = allServers s" and "self s' = self s"
proof -
  have "counters s' = counters s \<and> cache s' = cache s \<and> allServers s' = allServers s \<and> self s' = self s"
  proof (cases "sint (vcm_ViewNumber m) < sint (viewNumber s)")
    case True
    then show ?thesis using assms by (simp add: ViewChange_stale)
  next
    case False
    then show ?thesis using assms by (auto simp: ViewChange_eq Let_def split: if_splits)
  qed
  then show "counters s' = counters s" "cache s' = cache s" "allServers s' = allServers s" "self s' = self s"
    by simp_all
qed

text \<open>The election handlers are safe.  On a good server, the \<open>ViewChange\<close> handler never panics whatever
  message it gets, keeps the server good, never lowers the view number and touches neither
  counters nor cached replies; and a turn of the heartbeat loop with the miss count in range does
  not panic either while view numbers last, keeps the server good and the miss count in range.\<close>

lemma election_handlers_safe:
  assumes "wf_server s"
  shows "(\<exists>s' ack. ViewChange s msg = Inr (s', ack) \<and> wf_server s' \<and>
      sint (viewNumber s) \<le> sint (viewNumber s') \<and> counters s' = counters s \<and> cache s' = cache s) \<and>
    (sint (viewNumber s) < 2 ^ 63 - 1 \<longrightarrow> 0 \<le> k \<longrightarrow> k < 3 \<longrightarrow>
      (\<exists>k' s' es. heartbeat_turn ping_ok (k, s) = Inr ((k', s'), es) \<and> wf_server s' \<and> 0 \<le> k' \<and> k' < 3))"
proof (intro conjI impI)
  show "\<exists>s' ack. ViewChange s msg = Inr (s', ack) \<and> wf_server s' \<and>
      sint (viewNumber s) \<le> sint (viewNumber s') \<and> counters s' = counters s \<and> cache s' = cache s"
    using ViewChange_wf [OF assms] ViewChange_view [OF assms] ViewChange_data [OF assms] by metis
next
  assume h: "sint (viewNumber s) < 2 ^ 63 - 1" "0 \<le> k" "k < 3"
  obtain s' es where "initiateViewChange s = Inr (s', es)" "wf_server s'"
    using initiate_wf [OF assms h(1)] by blast
  then show "\<exists>k' s' es. heartbeat_turn ping_ok (k, s) = Inr ((k', s'), es) \<and> wf_server s' \<and> 0 \<le> k' \<and> k' < 3"
    using assms h(2,3) by (simp add: heartbeat_turn_def Let_def maxMissedPings_def)
qed

lemma election_handlers_safe_witness:
  "(\<exists>s' ack. ViewChange (srv3 ''s1'') (vote_msg 5 ''s3'') = Inr (s', ack) \<and> wf_server s') \<and>
   (\<exists>k' s' es. heartbeat_turn (\<lambda>c. False) (2, srv3 ''s2'') = Inr ((k', s'), es) \<and> wf_server s' \<and> 0 \<le> k' \<and> k' < 3)"
proof -
  have wf: "wf_server (srv3 a)" for a by (simp add: srv3_def wf_New)
  have "sint (viewNumber (srv3 ''s2'')) < 2 ^ 63 - 1" by code_simp
  then have "\<exists>k' s' es. heartbeat_turn (\<lambda>c. False) (2, srv3 ''s2'') = Inr ((k', s'), es) \<and> wf_server s' \<and> 0 \<le> k' \<and> k' < 3"
    using election_handlers_safe [OF wf, of "''s2''" undefined 2 "\<lambda>c. False"] by simp
  moreover have "\<exists>s' ack. ViewChange (srv3 ''s1'') (vote_msg 5 ''s3'') = Inr (s', ack) \<and> wf_server s'"
    using election_handlers_safe [OF wf, of "''s1''" "vote_msg 5 ''s3''" 0 "\<lambda>c. False"] by blast
  ultimately show ?thesis by blast
qed

text \<open>Every server gets its turn.  Among any \<open>n\<close> consecutive views of a cluster of \<open>n\<close> each member leads
  one, while view numbers do not overflow: repeated view changes cannot pass a live server over.\<close>

lemma every_server_gets_a_turn:
  assumes "a \<in> set all" and "0 \<le> sint v" and "sint v + int (length all) < 2 ^ 63"
  shows "\<exists>i < length all. leaderOf all (v + of_nat i) = Inr a"
proof -
  let ?n = "int (length all)"
  obtain j where j: "j < length all" "all ! j = a" using assms(1) by (auto simp: in_set_conv_nth)
  define i where "i = nat ((int j - sint v) mod ?n)"
  have n: "0 < ?n" using j by auto
  then have i: "int i = (int j - sint v) mod ?n" "i < length all"
    by (simp_all add: i_def nat_less_iff)
  have "v + of_nat i = word_of_int (sint v + int i)" by simp
  moreover have "sint (word_of_int (sint v + int i) :: int64) = sint v + int i"
    using assms(2,3) i(2) by (intro sint64_of_int) simp_all
  ultimately have s: "sint (v + of_nat i) = sint v + int i" by simp
  have "(sint v + int i) mod ?n = int j"
    using j(1) by (simp add: i mod_simps)
  then have "leaderOf all (v + of_nat i) = Inr a"
    using assms(2) j n by (simp add: leaderOf_def s go_rem_nonneg)
  then show ?thesis using i(2) by blast
qed

lemma every_server_gets_a_turn_witness:
  "\<exists>i < length [''s1'', ''s2'', ''s3'']. leaderOf [''s1'', ''s2'', ''s3''] (7 + of_nat i) = Inr ''s1''"
proof -
  have h: "''s1'' \<in> set [''s1'', ''s2'', ''s3'']" "0 \<le> sint (7 :: int64)"
    "sint (7 :: int64) + int (length [''s1'', ''s2'', ''s3'']) < 2 ^ 63" by code_simp+
  show ?thesis by (rule every_server_gets_a_turn [OF h])
qed

text \<open>One membership, one leader per view.  Two servers started with the same set of addresses, each
  its own first and the peers in any order, with whatever options, start under the same leader
  and compute the same leader for every view number.\<close>

lemma same_membership_same_leaders:
  assumes "mset (a # ps) = mset (b # qs)"
  shows "leaderAddr (New nc i a ps d x) = leaderAddr (New nc' j b qs d' x') \<and>
    leaderOf (allServers (New nc i a ps d x)) v = leaderOf (allServers (New nc' j b qs d' x')) v"
proof -
  have "sort (a # ps) = sort (b # qs)" using assms by (rule mset_sort_eq)
  then show ?thesis by (simp add: New_def Let_def)
qed

lemma cas_loop_facts:
  "(cas_loop v obs = Some (Inl c) \<longrightarrow> v <s c \<and> c \<in> fst ` set obs) \<and>
   (cas_loop v obs = Some (Inr w) \<longrightarrow> w = v \<and> (\<exists>(c, f) \<in> set obs. c = v \<or> (f = c \<and> c <s v))) \<and>
   ((\<exists>(c, f) \<in> set obs. f = c) \<longrightarrow> cas_loop v obs \<noteq> None)"
proof (induction v obs rule: cas_loop.induct)
  case (2 newView current found rest)
  then show ?case
    by (cases "newView <s current"; cases "newView = current"; cases "found = current")
       (auto simp: int64_less int64_eq)
qed simp

text \<open>The commit loop under interference.  Whatever values other goroutines put into the view number
  between its load and its compare-and-swap, the loop either gives up for a newer view it has
  seen, or goes on with exactly the view it was to commit, having found it there or having
  replaced an older one: it never replaces a newer view.  One turn without interference ends it,
  and \<open>commitView\<close> is that loop run without interference.\<close>

lemma commit_loop_monotone:
  "(cas_loop v obs = Some (Inl c) \<longrightarrow> v <s c \<and> c \<in> fst ` set obs) \<and>
   (cas_loop v obs = Some (Inr w) \<longrightarrow> w = v \<and> (\<exists>(c, f) \<in> set obs. c = v \<or> (f = c \<and> c <s v))) \<and>
   ((\<exists>(c, f) \<in> set obs. f = c) \<longrightarrow> cas_loop v obs \<noteq> None) \<and>
   commitView s v =
     (case cas_loop v [(viewNumber s, viewNumber s)] of
        Some (Inr w) \<Rightarrow>
          (case leaderOf (allServers s) w of
             Inl p \<Rightarrow> Inl p
           | Inr l \<Rightarrow> Inr (s\<lparr>viewNumber := w, leaderAddr := l, inViewChange := 0\<rparr>))
      | _ \<Rightarrow> Inr s)"
proof -
  have "commitView s v =
     (case cas_loop v [(viewNumber s, viewNumber s)] of
        Some (Inr w) \<Rightarrow>
          (case leaderOf (allServers s) w of
             Inl p \<Rightarrow> Inl p
           | Inr l \<Rightarrow> Inr (s\<lparr>viewNumber := w, leaderAddr := l, inViewChange := 0\<rparr>))
      | _ \<Rightarrow> Inr s)"
    by (auto simp: commitView_def Let_def split: sum.split)
  then show ?thesis using cas_loop_facts by blast
qed

theorem commit_loop_monotone_witness:
  "cas_loop 3 [(1, 2), (2, 2)] = Some (Inr 3) \<and> (3 :: int64) = 3 \<and>
   (\<exists>(c, f) \<in> set [(1 :: int64, 2), (2, 2)]. c = 3 \<or> (f = c \<and> c <s 3))"
proof -
  have "cas_loop 3 [(1, 2), (2, 2)] = Some (Inr 3)" by code_simp
  then show ?thesis using commit_loop_monotone [of 3 "[(1, 2), (2, 2)]" 0 3 "srv3 ''s1''"] by simp
qed

end
