(* ===== verification/Exactly_Once.thy ===== *)
theory Exactly_Once
  imports Counter_Service Election Samples
begin

text \<open>
  What the reply cache and the synchronous replication give a client: a request identifier is
  executed at most once, by one leader and across a failover to a follower.  The locale
  \<open>once_service\<close> states the contract of a deduplicating service and proves the count and the
  stability of replies from it; the interpretation is the server's \<open>IncrCounter\<close> handler.
\<close>

section \<open>The contract of a deduplicating service\<close>

text \<open>The requests of a sequence whose identifier is new when they arrive.\<close>

fun first_uses :: "('q \<Rightarrow> 'i) \<Rightarrow> 'i set \<Rightarrow> 'q list \<Rightarrow> 'q list" where
  "first_uses f S [] = []"
| "first_uses f S (q # qs) =
     (if f q \<in> S then first_uses f S qs else q # first_uses f (insert (f q) S) qs)"

lemma first_uses_append:
  "first_uses f S (xs @ ys) = first_uses f S xs @ first_uses f (S \<union> f ` set xs) ys"
proof (induction xs arbitrary: S)
  case (Cons x xs)
  then show ?case by (auto simp: insert_absorb)
qed simp

locale once_service =
  fixes step :: "'s \<Rightarrow> 'q \<Rightarrow> 's \<times> 'r"
    and seen :: "'s \<Rightarrow> 'i \<Rightarrow> 'r option"
    and val_of :: "'s \<Rightarrow> 'k \<Rightarrow> int64"
    and ident :: "'q \<Rightarrow> 'i"
    and key_of :: "'q \<Rightarrow> 'k"
    and inv :: "'s \<Rightarrow> bool"
    and valid :: "'q \<Rightarrow> bool"
  assumes step_hit: "inv s \<Longrightarrow> valid q \<Longrightarrow> seen s (ident q) = Some r \<Longrightarrow> step s q = (s, r)"
    and step_inv: "inv s \<Longrightarrow> valid q \<Longrightarrow> inv (fst (step s q))"
    and miss_val: "inv s \<Longrightarrow> valid q \<Longrightarrow> seen s (ident q) = None \<Longrightarrow>
      val_of (fst (step s q)) k = (if k = key_of q then val_of s k + 1 else val_of s k)"
    and miss_seen: "inv s \<Longrightarrow> valid q \<Longrightarrow> seen s (ident q) = None \<Longrightarrow>
      seen (fst (step s q)) = (seen s)(ident q \<mapsto> snd (step s q))"
begin

lemma step_seen: "inv s \<Longrightarrow> valid q \<Longrightarrow> seen (fst (step s q)) (ident q) = Some (snd (step s q))"
  by (cases "seen s (ident q)") (simp_all add: miss_seen step_hit)

lemma step_seen_mono: "inv s \<Longrightarrow> valid q \<Longrightarrow> seen s i = Some r \<Longrightarrow> seen (fst (step s q)) i = Some r"
  by (cases "seen s (ident q)") (auto simp: miss_seen step_hit)

lemma run_inv: "inv s \<Longrightarrow> \<forall>q \<in> set qs. valid q \<Longrightarrow> inv (fold (\<lambda>q s. fst (step s q)) qs s)"
  by (induction qs arbitrary: s) (auto simp: step_inv)

lemma run_seen_mono:
  "inv s \<Longrightarrow> \<forall>q \<in> set qs. valid q \<Longrightarrow> seen s i = Some r \<Longrightarrow>
     seen (fold (\<lambda>q s. fst (step s q)) qs s) i = Some r"
  by (induction qs arbitrary: s) (auto simp: step_inv step_seen_mono)

text \<open>The value counts the requests with a new identifier, and only those.\<close>

lemma run_val:
  "inv s \<Longrightarrow> \<forall>q \<in> set qs. valid q \<Longrightarrow>
     val_of (fold (\<lambda>q s. fst (step s q)) qs s) k =
     val_of s k + of_nat (count_list (map key_of (first_uses ident (dom (seen s)) qs)) k)"
proof (induction qs arbitrary: s)
  case Nil
  then show ?case by simp
next
  case (Cons q qs)
  then have valid: "valid q" and inv': "inv (fst (step s q))" by (simp_all add: step_inv)
  have IH: "val_of (fold (\<lambda>q s. fst (step s q)) (q # qs) s) k = val_of (fst (step s q)) k +
      of_nat (count_list (map key_of (first_uses ident (dom (seen (fst (step s q)))) qs)) k)"
    using Cons.IH [OF inv'] Cons.prems(2) by simp
  show ?case
  proof (cases "seen s (ident q)")
    case None
    then have "ident q \<notin> dom (seen s)" by (simp add: domIff)
    with IH None Cons.prems(1) valid show ?thesis
      by (auto simp: miss_val miss_seen)
  next
    case (Some r)
    then have "ident q \<in> dom (seen s)" by (simp add: domIff)
    with IH Some Cons.prems(1) valid show ?thesis
      by (simp add: step_hit)
  qed
qed

lemma run_dom:
  "inv s \<Longrightarrow> \<forall>q \<in> set qs. valid q \<Longrightarrow>
     dom (seen (fold (\<lambda>q s. fst (step s q)) qs s)) = dom (seen s) \<union> ident ` set qs"
proof (induction qs arbitrary: s)
  case Nil
  then show ?case by simp
next
  case (Cons q qs)
  then have "dom (seen (fst (step s q))) = insert (ident q) (dom (seen s))"
    by (cases "seen s (ident q)") (auto simp: miss_seen step_hit domIff)
  then show ?case using Cons by (simp add: step_inv)
qed

text \<open>A retry, however late, gets the reply of the first execution and changes nothing.\<close>

lemma run_retry:
  assumes "inv s" and "\<forall>q \<in> set (qs1 @ q # qs2). valid q"
  shows "step (fold (\<lambda>q s. fst (step s q)) (qs1 @ q # qs2) s) q =
    (fold (\<lambda>q s. fst (step s q)) (qs1 @ q # qs2) s, snd (step (fold (\<lambda>q s. fst (step s q)) qs1 s) q))"
proof -
  let ?s1 = "fold (\<lambda>q s. fst (step s q)) qs1 s"
  let ?s2 = "fst (step ?s1 q)"
  have inv1: "inv ?s1" using assms by (simp add: run_inv)
  then have inv2: "inv ?s2" and q: "valid q" using assms by (simp_all add: step_inv)
  have "seen (fold (\<lambda>q s. fst (step s q)) qs2 ?s2) (ident q) = Some (snd (step ?s1 q))"
    using inv2 assms(2) step_seen [OF inv1 q] by (intro run_seen_mono) auto
  then show ?thesis
    using run_inv [OF inv2, of qs2] assms(2) q by (simp add: step_hit)
qed

end

section \<open>The server keeps the contract\<close>

definition request_id :: "IncrRequest \<Rightarrow> string \<times> int64" where
  "request_id q = (irq_ClientId q, irq_RequestId q)"

definition reply_for :: "Server \<Rightarrow> string \<times> int64 \<Rightarrow> (go_error + IncrResponse) option" where
  "reply_for s i = map_option Inr (cache_get (cache s) (fst i) (snd i))"

definition dedup_leader :: "Server \<Rightarrow> bool" where
  "dedup_leader s \<longleftrightarrow> serving s \<and> dedupEnabled s"

definition identified :: "IncrRequest \<Rightarrow> bool" where
  "identified q \<longleftrightarrow> irq_CounterId q \<noteq> [] \<and> irq_ClientId q \<noteq> []"

definition incr_step :: "Server \<Rightarrow> IncrRequest \<Rightarrow> Server \<times> (go_error + IncrResponse)" where
  "incr_step s q = (fst (IncrCounter s q), fst (snd (IncrCounter s q)))"

lemma cached_reply_identified:
  "dedupEnabled s \<Longrightarrow> identified q \<Longrightarrow>
     cached_reply s q = cache_get (cache s) (irq_ClientId q) (irq_RequestId q)"
  by (simp add: cached_reply_def tracked_def identified_def)

lemma incr_step_cached:
  "dedup_leader s \<Longrightarrow> identified q \<Longrightarrow> cache_get (cache s) (irq_ClientId q) (irq_RequestId q) = Some x \<Longrightarrow>
     incr_step s q = (s, Inr x)"
  by (simp add: incr_step_def IncrCounter_cached cached_reply_identified dedup_leader_def identified_def)

lemma incr_step_fresh:
  "dedup_leader s \<Longrightarrow> identified q \<Longrightarrow> cache_get (cache s) (irq_ClientId q) (irq_RequestId q) = None \<Longrightarrow>
     incr_step s q = (executed s q, Inr (incr_response s q))"
  by (simp add: incr_step_def IncrCounter_fresh cached_reply_identified dedup_leader_def identified_def)

interpretation server_once: once_service incr_step reply_for "\<lambda>s. map_zero (counters s)" request_id
  irq_CounterId dedup_leader identified
proof unfold_locales
  fix s q r
  assume h: "dedup_leader s" "identified q"
  show "incr_step s q = (s, r)" if "reply_for s (request_id q) = Some r"
    using that h by (auto simp: reply_for_def request_id_def incr_step_cached)
  show "dedup_leader (fst (incr_step s q))"
    using h IncrCounter_state [of s q] by (auto simp: incr_step_def dedup_leader_def)
next
  fix s q k
  assume h: "dedup_leader s" "identified q" "reply_for s (request_id q) = None"
  then have step: "incr_step s q = (executed s q, Inr (incr_response s q))"
    by (intro incr_step_fresh) (simp_all add: reply_for_def request_id_def)
  show "map_zero (counters (fst (incr_step s q))) k =
      (if k = irq_CounterId q then map_zero (counters s) k + 1 else map_zero (counters s) k)"
    by (simp add: step map_zero_put incr_response_def)
  show "reply_for (fst (incr_step s q)) = (reply_for s)(request_id q \<mapsto> snd (incr_step s q))"
    using h by (auto simp: step reply_for_def request_id_def executed_cache tracked_def dedup_leader_def
        identified_def rcache.get_set fun_eq_iff)
qed

section \<open>A leader and a follower\<close>

text \<open>What the fan-out of one request does to one follower.\<close>

primrec deliver_effect :: "effect \<Rightarrow> Server \<Rightarrow> Server" where
  "deliver_effect (CallReplicate conn m) f = (if conn_target conn = self f then fst (Replicate f m) else f)"
| "deliver_effect (CallViewChange conn m) f = f"
| "deliver_effect (SleepFor d) f = f"

text \<open>The leader works off a list of requests; every fan-out reaches the follower.\<close>

fun serve_replicated :: "Server \<Rightarrow> Server \<Rightarrow> IncrRequest list \<Rightarrow> Server \<times> Server" where
  "serve_replicated l f [] = (l, f)"
| "serve_replicated l f (q # qs) =
     (case IncrCounter l q of
        (l', r, es) \<Rightarrow> serve_replicated l' (fold deliver_effect es f) qs)"

definition connected :: "Server \<Rightarrow> Server \<Rightarrow> bool" where
  "connected l f \<longleftrightarrow>
     self f \<in> set (peers l) \<and> map_of (peerConns l) (self f) \<noteq> None \<and>
     list_all (\<lambda>(p, c). conn_target c = p) (peerConns l)"

lemma connected_target: "connected l f \<Longrightarrow> map_of (peerConns l) p = Some c \<Longrightarrow> conn_target c = p"
  by (auto simp: connected_def list_all_iff dest!: map_of_SomeD)

definition in_sync :: "Server \<Rightarrow> Server \<Rightarrow> bool" where
  "in_sync l f \<longleftrightarrow> abs_server f = abs_server l \<and> dedupEnabled f = dedupEnabled l"

lemma Replicate_self_twice:
  "in_sync (executed s q) (fst (Replicate f (incr_msg s q)))" if "in_sync s f"
  using that by (simp add: in_sync_def abs_Replicate server_frame)

lemma Replicate_again:
  assumes "in_sync (executed s q) f"
  shows "in_sync (executed s q) (fst (Replicate f (incr_msg s q)))"
proof -
  have d: "dedupEnabled f = dedupEnabled s" and a: "abs_server f = abs_server (executed s q)"
    using assms by (simp_all add: in_sync_def)
  have val: "map_zero (counters f) = map_zero (counters (executed s q))"
    and rep: "cache_get (cache f) = cache_get (cache (executed s q))"
    using a by (simp_all add: abs_server_def)
  have "carries_reply f (incr_msg s q) = tracked s q"
    using d by (simp add: carries_reply_def tracked_def incr_msg_def Let_def)
  then have "abs_server (fst (Replicate f (incr_msg s q))) = abs_server (executed s q)"
    by (auto simp: abs_server_def fun_eq_iff Replicate_value Replicate_reply executed_cache val rep
        map_zero_put incr_msg_def incr_response_def Let_def rcache.get_set)
  then show ?thesis using d by (simp add: in_sync_def server_frame)
qed

lemma deliver_self [simp]: "self (deliver_effect e f) = self f"
  by (cases e) (simp_all add: server_frame)

lemma replicateToAll_targets:
  assumes "\<forall>p c. map_of (peerConns l) p = Some c \<longrightarrow> conn_target c = p"
  shows "CallReplicate c m' \<in> set (replicateToAll l m) \<Longrightarrow> m' = m \<and> conn_target c \<in> set (peers l)"
  using assms by (auto simp: replicateToAll_def List.map_filter_def)

lemma fan_out_sync:
  assumes c: "\<forall>p c. map_of conns p = Some c \<longrightarrow> conn_target c = p"
    and start: "in_sync s f \<or> in_sync (executed s q) f"
    and hit: "in_sync (executed s q) f \<or> (self f \<in> set ps \<and> map_of conns (self f) \<noteq> None)"
  shows "in_sync (executed s q)
    (fold deliver_effect (List.map_filter
       (\<lambda>peer. map_option (\<lambda>conn. CallReplicate conn (incr_msg s q)) (map_of conns peer)) ps) f)"
  using start hit
proof (induction ps arbitrary: f)
  case Nil
  then show ?case by (simp add: List.map_filter_simps)
next
  case (Cons p ps)
  show ?case
  proof (cases "map_of conns p")
    case None
    with Cons.prems have "in_sync (executed s q) f \<or> (self f \<in> set ps \<and> map_of conns (self f) \<noteq> None)"
      by auto
    with None Cons show ?thesis by (simp add: List.map_filter_simps)
  next
    case (Some conn)
    with c have t: "conn_target conn = p" by simp
    let ?f = "deliver_effect (CallReplicate conn (incr_msg s q)) f"
    have "in_sync s ?f \<or> in_sync (executed s q) ?f"
      using Cons.prems(1) Replicate_self_twice [of s f q] Replicate_again [of s q f] by auto
    moreover have "in_sync (executed s q) ?f \<or> (self ?f \<in> set ps \<and> map_of conns (self ?f) \<noteq> None)"
      using Cons.prems Replicate_self_twice [of s f q] Replicate_again [of s q f] t
      by (auto simp: server_frame)
    ultimately show ?thesis
      using Cons.IH [of ?f] Some by (simp add: List.map_filter_simps)
  qed
qed

lemma sleep_deliver [simp]: "fold deliver_effect (if P then [SleepFor d] else []) f = f"
  by simp

lemma IncrCounter_sync:
  assumes "in_sync l f" and "connected l f" and "IncrCounter l q = (l', r, es)"
  shows "in_sync l' (fold deliver_effect es f) \<and> connected l' (fold deliver_effect es f)"
proof (cases "irq_CounterId q \<noteq> [] \<and> serving l \<and> cached_reply l q = None")
  case True
  have "in_sync (executed l q) (fold deliver_effect (replicateToAll (executed l q) (incr_msg l q)) f)"
    using assms(1,2) unfolding replicateToAll_def executed_simps
    by (intro fan_out_sync) (auto simp: connected_def dest: connected_target [OF assms(2)])
  moreover have "self (fold deliver_effect xs f) = self f" for xs
    by (induction xs arbitrary: f) simp_all
  ultimately show ?thesis
    using True assms by (auto simp: IncrCounter_fresh connected_def)
next
  case False
  then have "l' = l \<and> es = []"
    using assms(3) by (auto simp: IncrCounter_def serving_def currentLeader_def cached_reply_def tracked_def
        Let_def split: if_splits option.splits)
  with assms show ?thesis by simp
qed

lemma serve_replicated_sync:
  "in_sync l f \<Longrightarrow> connected l f \<Longrightarrow> serve_replicated l f qs = (l', f') \<Longrightarrow> in_sync l' f' \<and> connected l' f'"
proof (induction l f qs rule: serve_replicated.induct)
  case (2 l f q qs)
  obtain l1 r es where q: "IncrCounter l q = (l1, r, es)" by (cases "IncrCounter l q") auto
  with 2 IncrCounter_sync [OF 2(2,3) q] show ?case by simp
qed simp

section \<open>What survives a failover\<close>

definition serve_all :: "Server \<Rightarrow> IncrRequest list \<Rightarrow> Server" where
  "serve_all s qs = fold (\<lambda>q s. fst (incr_step s q)) qs s"

lemma serve_replicated_leader: "fst (serve_replicated l f qs) = serve_all l qs"
  by (induction l f qs rule: serve_replicated.induct)
     (auto simp: serve_all_def incr_step_def split: prod.splits)

lemma commitView_abs:
  "commitView s v = Inr s' \<Longrightarrow> abs_server s' = abs_server s \<and> dedupEnabled s' = dedupEnabled s"
  by (auto simp: commitView_def Let_def abs_server_def split: if_splits sum.splits)

lemma abs_view_fields [simp]:
  "abs_server (s\<lparr>inViewChange := f\<rparr>) = abs_server s" "abs_server (s\<lparr>viewVotes := vs\<rparr>) = abs_server s"
  by (simp_all add: abs_server_def)

lemma ViewChange_abs:
  "ViewChange s m = Inr (s', a) \<Longrightarrow> abs_server s' = abs_server s \<and> dedupEnabled s' = dedupEnabled s"
  by (auto simp: ViewChange_def Let_def dest!: commitView_abs split: if_splits sum.splits)

lemma in_sync_reply: "in_sync s t \<Longrightarrow> reply_for t = reply_for s"
  by (auto simp: in_sync_def abs_server_def reply_for_def fun_eq_iff)

lemma in_sync_value: "in_sync s t \<Longrightarrow> map_zero (counters t) = map_zero (counters s)"
  by (simp add: in_sync_def abs_server_def)

lemma in_sync_promoted: "in_sync l f \<Longrightarrow> ViewChange f m = Inr (g, a) \<Longrightarrow> in_sync l g"
  by (auto simp: in_sync_def dest: ViewChange_abs)

lemma in_sync_leader: "in_sync l g \<Longrightarrow> dedupEnabled l \<Longrightarrow> serving g \<Longrightarrow> dedup_leader g"
  by (simp add: in_sync_def dedup_leader_def)

lemma dedup_leader_all: "dedup_leader s \<Longrightarrow> \<forall>q \<in> set qs. identified q \<Longrightarrow> dedup_leader (serve_all s qs)"
  by (simp add: serve_all_def server_once.run_inv)

text \<open>Any part of the fan-out of one execution leaves a follower before it or after it.\<close>

lemma partial_fan_out:
  assumes "set es \<subseteq> set (replicateToAll (executed s q) (incr_msg s q)) \<union> {SleepFor d}"
    and "in_sync s f \<or> in_sync (executed s q) f"
  shows "in_sync s (fold deliver_effect es f) \<or> in_sync (executed s q) (fold deliver_effect es f)"
  using assms
proof (induction es arbitrary: f)
  case (Cons e es)
  consider c where "e = CallReplicate c (incr_msg s q)" | "e = SleepFor d"
    using Cons.prems(1) by (auto simp: replicateToAll_def List.map_filter_def)
  then have "in_sync s (deliver_effect e f) \<or> in_sync (executed s q) (deliver_effect e f)"
    using Cons.prems(2) Replicate_self_twice [of s f q] Replicate_again [of s q f]
    by cases auto
  then show ?case using Cons by simp
qed simp

lemma in_sync_New: "in_sync (New nc i a ps d x) (New nc' i' b ps' d x')"
  by (simp add: in_sync_def abs_server_def New_def Let_def)

lemma in_sync_srv3: "in_sync (srv3 a) (srv3 b)"
  by (simp add: srv3_def in_sync_New)

section \<open>Properties\<close>

text \<open>C1: The case the reply cache is for.  A leader executes an identified request and dies with an
  arbitrary part of its \<open>Replicate\<close> fan-out delivered to a follower that was in step with it; the
  follower is promoted by a view change and the client retransmits the same request to it.  The
  client gets exactly the response the dead leader computed, and the new leader is left in exactly
  the state the dead leader had: the increment counts once, whether or not the follower had
  already received it.\<close>

theorem crash_then_retry_once:
  assumes "in_sync l f" and "dedup_leader l" and "identified q"
    and "IncrCounter l q = (l', Inr x, es)" and "set es' \<subseteq> set es"
    and "ViewChange (fold deliver_effect es' f) m = Inr (g, ack)" and "serving g"
  shows "\<exists>g' es''. IncrCounter g q = (g', Inr x, es'') \<and> in_sync l' g'"
proof -
  let ?f = "fold deliver_effect es' f"
  have dl: "dedupEnabled l" using assms(2) by (simp add: dedup_leader_def)
  have same: "in_sync t g \<Longrightarrow> dedup_leader t \<Longrightarrow> \<exists>g' es''. IncrCounter g q = (g', snd (incr_step t q), es'') \<and>
      in_sync (fst (incr_step t q)) g'" for t
  proof -
    assume t: "in_sync t g" "dedup_leader t"
    then have g: "dedup_leader g" "cached_reply g q = cached_reply t q"
      using assms(3,7) by (auto simp: in_sync_leader dedup_leader_def cached_reply_identified in_sync_def
          abs_server_def)
    show ?thesis
    proof (cases "cached_reply t q")
      case None
      then have "abs_server (executed g q) = abs_server (executed t q)"
        and "incr_response g q = incr_response t q"
        using t g abs_executed [of q g] abs_executed [of q t] assms(3)
        by (simp_all add: in_sync_def identified_def)
      with None t g assms(3) show ?thesis
        by (simp add: incr_step_def IncrCounter_fresh dedup_leader_def identified_def in_sync_def)
    next
      case (Some y)
      with t g assms(3) show ?thesis
        by (simp add: incr_step_def IncrCounter_cached dedup_leader_def identified_def)
    qed
  qed
  have step: "incr_step l q = (l', Inr x)" using assms(4) by (simp add: incr_step_def)
  have leader': "dedup_leader l'" using server_once.step_inv [OF assms(2,3)] step by simp
  have "in_sync l ?f \<or> in_sync l' ?f"
  proof (cases "cached_reply l q")
    case None
    then have "l' = executed l q" "set es' \<subseteq> set (replicateToAll l' (incr_msg l q)) \<union> {SleepFor (replyDelay l)}"
      using assms(2-5) by (auto simp: IncrCounter_fresh dedup_leader_def identified_def split: if_splits)
    then show ?thesis using partial_fan_out [of es' l q "replyDelay l" f] assms(1) by auto
  next
    case (Some y)
    then have "es = []"
      using assms(2-4) by (simp add: IncrCounter_cached dedup_leader_def identified_def)
    then show ?thesis using assms(1,5) by simp
  qed
  then consider "in_sync l g" | "in_sync l' g" using in_sync_promoted assms(6) by blast
  then show ?thesis
  proof cases
    case 1
    then show ?thesis using same [OF _ assms(2)] step by simp
  next
    case 2
    have "incr_step l' q = (l', Inr x)"
      using server_once.run_retry [OF assms(2), of "[]" q "[]"] step assms(3) by simp
    then show ?thesis using same [OF 2 leader'] by simp
  qed
qed

theorem crash_then_retry_once_witness:
  "\<exists>g' es. IncrCounter (srv3 ''s2''\<lparr>inViewChange := 0, viewNumber := 1, leaderAddr := ''s2'',
       viewVotes := [(1, [(''s2'', True), (''s3'', True)])]\<rparr>) (req_on ''x'' ''u'' 1)
     = (g', Inr \<lparr>irs_NewValue = 1, irs_RedirectTo = []\<rparr>, es) \<and>
     in_sync (executed (srv3 ''s1'') (req_on ''x'' ''u'' 1)) g'"
proof -
  let ?l = "srv3 ''s1''" and ?q = "req_on ''x'' ''u'' 1"
  let ?m = "\<lparr>rpm_CounterId = ''x'', rpm_NewValue = 1, rpm_ClientId = ''u'', rpm_RequestId = 1,
    rpm_CachedResponse = Some \<lparr>irs_NewValue = 1, irs_RedirectTo = []\<rparr>\<rparr>"
  let ?g = "srv3 ''s2''\<lparr>inViewChange := 0, viewNumber := 1, leaderAddr := ''s2'',
       viewVotes := [(1, [(''s2'', True), (''s3'', True)])]\<rparr>"
  have run: "IncrCounter ?l ?q = (executed ?l ?q, Inr \<lparr>irs_NewValue = 1, irs_RedirectTo = []\<rparr>,
      [CallReplicate (ClientConn ''s2'') ?m, CallReplicate (ClientConn ''s3'') ?m])"
    by code_simp
  have vote: "ViewChange (fold deliver_effect [] (srv3 ''s2'')) (vote_msg 1 ''s3'') =
      Inr (?g, \<lparr>vca_Accepted = True, vca_ViewNumber = 1\<rparr>)"
    by code_simp
  have h: "dedup_leader ?l" "identified ?q" "serving ?g" by code_simp+
  show ?thesis
    by (rule crash_then_retry_once [OF in_sync_srv3 h(1,2) run _ vote h(3)]) simp
qed





end
