(* ===== verification/Cluster.thy ===== *)
theory Cluster
  imports Exactly_Once "HOL-Library.Multiset"
begin

text \<open>
  The replica group: the servers of \<open>internal/server\<close> and the RPCs between them.  A state holds
  every server with its heartbeat's miss count, the set of live processes and the multiset of
  calls in flight (started by a handler, neither executed by their target nor lost yet).  A step
  is one handler at one server (a heartbeat turn, a delivered \<open>ViewChange\<close> or \<open>Replicate\<close>, a
  client's \<open>IncrCounter\<close>), a lost call, or a crash; calls are delivered in any order and any ping
  may fail, so a suspicion need not be justified.  \<open>started\<close> is a history variable: which server
  has initiated which view.  View numbers stay below the largest \<open>int64\<close>.
\<close>

section \<open>States and steps\<close>

record Cluster =
  node :: "string \<Rightarrow> Server"
  missed :: "string \<Rightarrow> int"
  alive :: "string set"
  calls :: "effect multiset"
  started :: "(string \<times> int64) set"

definition start_server :: "(string \<Rightarrow> go_error + client_conn) \<Rightarrow> string list \<Rightarrow> bool \<Rightarrow> string \<Rightarrow> Server" where
  "start_server nc ms dedup a = New nc 0 a (filter (\<lambda>b. b \<noteq> a) ms) dedup 0"

definition init_cluster :: "(string \<Rightarrow> go_error + client_conn) \<Rightarrow> string list \<Rightarrow> bool \<Rightarrow> Cluster" where
  "init_cluster nc ms dedup =
     \<lparr>node = start_server nc ms dedup, missed = (\<lambda>a. 0), alive = set ms, calls = {#}, started = {}\<rparr>"

definition beat_result :: "Cluster \<Rightarrow> string \<Rightarrow> int \<times> Server \<Rightarrow> effect list \<Rightarrow> Cluster" where
  "beat_result c a ms es =
     c\<lparr>node := (node c)(a := snd ms), missed := (missed c)(a := fst ms), calls := calls c + mset es,
       started := (if viewNumber (snd ms) = viewNumber (node c a) then started c
                   else insert (a, viewNumber (snd ms)) (started c))\<rparr>"

inductive cluster_step :: "Cluster \<Rightarrow> Cluster \<Rightarrow> bool" where
  beat: "a \<in> alive c \<Longrightarrow> sint (viewNumber (node c a)) < 2 ^ 63 - 1 \<Longrightarrow>
     heartbeat_turn ping_ok (missed c a, node c a) = Inr (ms, es) \<Longrightarrow>
     cluster_step c (beat_result c a ms es)"
| vote: "CallViewChange conn m \<in># calls c \<Longrightarrow> conn_target conn \<in> alive c \<Longrightarrow>
     ViewChange (node c (conn_target conn)) m = Inr (s, ack) \<Longrightarrow>
     cluster_step c (c\<lparr>node := (node c)(conn_target conn := s), calls := calls c - {#CallViewChange conn m#}\<rparr>)"
| repl: "CallReplicate conn m \<in># calls c \<Longrightarrow> conn_target conn \<in> alive c \<Longrightarrow>
     cluster_step c (c\<lparr>node := (node c)(conn_target conn := fst (Replicate (node c (conn_target conn)) m)),
       calls := calls c - {#CallReplicate conn m#}\<rparr>)"
| request: "a \<in> alive c \<Longrightarrow> IncrCounter (node c a) q = (s, r, es) \<Longrightarrow>
     cluster_step c (c\<lparr>node := (node c)(a := s), calls := calls c + mset es\<rparr>)"
| lose: "e \<in># calls c \<Longrightarrow> cluster_step c (c\<lparr>calls := calls c - {#e#}\<rparr>)"
| crash: "a \<in> alive c \<Longrightarrow> cluster_step c (c\<lparr>alive := alive c - {a}\<rparr>)"

inductive reachable :: "(string \<Rightarrow> go_error + client_conn) \<Rightarrow> string list \<Rightarrow> bool \<Rightarrow> Cluster \<Rightarrow> bool"
  for nc ms dedup where
  start: "reachable nc ms dedup (init_cluster nc ms dedup)"
| step: "reachable nc ms dedup c \<Longrightarrow> cluster_step c c' \<Longrightarrow> reachable nc ms dedup c'"

text \<open>
  The same steps as a function of a script, to run a scenario: the pings of a \<open>Beat\<close> succeed for
  the listed addresses.
\<close>

datatype action =
    Beat string "string list"
  | Deliver effect
  | Lose effect
  | Ask string IncrRequest
  | Crash string

fun act :: "Cluster \<Rightarrow> action \<Rightarrow> Cluster option" where
  "act c (Beat a up) =
     (if a \<in> alive c \<and> sint (viewNumber (node c a)) < 2 ^ 63 - 1 then
        (case heartbeat_turn (\<lambda>conn. conn_target conn \<in> set up) (missed c a, node c a) of
           Inl p \<Rightarrow> None | Inr (ms, es) \<Rightarrow> Some (beat_result c a ms es))
      else None)"
| "act c (Deliver (CallViewChange conn m)) =
     (if CallViewChange conn m \<in># calls c \<and> conn_target conn \<in> alive c then
        (case ViewChange (node c (conn_target conn)) m of
           Inl p \<Rightarrow> None
         | Inr (s, ack) \<Rightarrow>
             Some (c\<lparr>node := (node c)(conn_target conn := s), calls := calls c - {#CallViewChange conn m#}\<rparr>))
      else None)"
| "act c (Deliver (CallReplicate conn m)) =
     (if CallReplicate conn m \<in># calls c \<and> conn_target conn \<in> alive c then
        Some (c\<lparr>node := (node c)(conn_target conn := fst (Replicate (node c (conn_target conn)) m)),
          calls := calls c - {#CallReplicate conn m#}\<rparr>)
      else None)"
| "act c (Deliver (SleepFor d)) = None"
| "act c (Lose e) = (if e \<in># calls c then Some (c\<lparr>calls := calls c - {#e#}\<rparr>) else None)"
| "act c (Ask a q) =
     (if a \<in> alive c then
        (case IncrCounter (node c a) q of
           (s, r, es) \<Rightarrow> Some (c\<lparr>node := (node c)(a := s), calls := calls c + mset es\<rparr>))
      else None)"
| "act c (Crash a) = (if a \<in> alive c then Some (c\<lparr>alive := alive c - {a}\<rparr>) else None)"

fun run_script :: "Cluster \<Rightarrow> action list \<Rightarrow> Cluster option" where
  "run_script c [] = Some c"
| "run_script c (x # xs) = (case act c x of None \<Rightarrow> None | Some c' \<Rightarrow> run_script c' xs)"

lemma act_step: "act c x = Some c' \<Longrightarrow> cluster_step c c'"
proof (cases "(c, x)" rule: act.cases)
  case (1 c1 a up)
  then show "act c x = Some c' \<Longrightarrow> cluster_step c c'"
    by (auto split: if_splits sum.splits intro: cluster_step.beat)
next
  case (2 c1 conn m)
  then show "act c x = Some c' \<Longrightarrow> cluster_step c c'"
    by (auto split: if_splits sum.splits intro: cluster_step.vote)
next
  case (3 c1 conn m)
  then show "act c x = Some c' \<Longrightarrow> cluster_step c c'"
    by (auto split: if_splits intro: cluster_step.repl)
next
  case (6 c1 a q)
  then show "act c x = Some c' \<Longrightarrow> cluster_step c c'"
    by (auto split: if_splits prod.splits intro: cluster_step.request)
qed (auto split: if_splits intro: cluster_step.lose cluster_step.crash)

lemma run_script_reachable:
  "reachable nc ms dedup c \<Longrightarrow> run_script c xs = Some c' \<Longrightarrow> reachable nc ms dedup c'"
proof (induction xs arbitrary: c)
  case (Cons x xs)
  then show ?case by (auto split: option.splits) (metis reachable.step act_step)
qed simp

section \<open>The invariant\<close>

text \<open>What holds of one server, given which views have been initiated by whom.\<close>

definition node_inv :: "string list \<Rightarrow> (string \<times> int64) set \<Rightarrow> string \<Rightarrow> Server \<Rightarrow> bool" where
  "node_inv ms st a s \<longleftrightarrow>
     wf_server s \<and> self s = a \<and> allServers s = sort ms \<and>
     (\<forall>v. voters s v \<subseteq> set ms \<inter> insert a {b. (b, v) \<in> st}) \<and>
     (\<forall>v. voters s v \<noteq> {} \<longrightarrow> a \<in> voters s v) \<and>
     (inViewChange s = 0 \<longrightarrow> viewNumber s = 0 \<or> majority s \<le> card (voters s (viewNumber s)))"

definition call_inv :: "string list \<Rightarrow> (string \<times> int64) set \<Rightarrow> effect \<Rightarrow> bool" where
  "call_inv ms st e =
     (case e of
        CallViewChange conn m \<Rightarrow> vcm_SenderId m \<in> set ms \<and> (vcm_SenderId m, vcm_ViewNumber m) \<in> st
      | CallReplicate conn m \<Rightarrow> msg_ok m
      | SleepFor d \<Rightarrow> True)"

definition cluster_inv :: "string list \<Rightarrow> Cluster \<Rightarrow> bool" where
  "cluster_inv ms c \<longleftrightarrow>
     alive c \<subseteq> set ms \<and> (\<forall>a \<in> set ms. node_inv ms (started c) a (node c a)) \<and>
     (\<forall>e \<in># calls c. call_inv ms (started c) e)"

lemma node_inv_parts:
  assumes "node_inv ms st a s"
  shows "wf_server s" and "votes_ok (viewVotes s)" and "self s = a" and "allServers s = sort ms"
proof -
  show wf: "wf_server s" and "self s = a" and "allServers s = sort ms" using assms by (simp_all add: node_inv_def)
  show "votes_ok (viewVotes s)" using wf by (simp add: wf_server_def)
qed

lemma node_inv_mono: "node_inv ms st a s \<Longrightarrow> st \<subseteq> st' \<Longrightarrow> node_inv ms st' a s"
  unfolding node_inv_def by blast

lemma call_inv_mono: "call_inv ms st e \<Longrightarrow> st \<subseteq> st' \<Longrightarrow> call_inv ms st' e"
  by (auto simp: call_inv_def split: effect.splits)

lemma node_inv_start:
  assumes "distinct ms" and "a \<in> set ms"
  shows "node_inv ms st a (start_server nc ms dedup a)"
proof -
  have "mset (a # filter (\<lambda>b. b \<noteq> a) ms) = mset ms"
    using assms by (subst set_eq_iff_mset_eq_distinct [symmetric]) auto
  then have "sort (a # filter (\<lambda>b. b \<noteq> a) ms) = sort ms" by (rule mset_sort_eq)
  then show ?thesis
    using wf_New [of nc 0 a "filter (\<lambda>b. b \<noteq> a) ms" dedup 0]
    by (simp add: node_inv_def start_server_def New_def Let_def voters_def)
qed

lemma node_inv_data:
  assumes "node_inv ms st a s" and "wf_server s'" and "self s' = self s" and "allServers s' = allServers s"
    and "viewVotes s' = viewVotes s" and "viewNumber s' = viewNumber s" and "inViewChange s' = inViewChange s"
  shows "node_inv ms st a s'"
proof -
  have "voters s' = voters s" by (simp add: voters_def fun_eq_iff assms(5))
  moreover have "majority s' = majority s" by (simp add: majority_def assms(4))
  ultimately show ?thesis using assms by (simp add: node_inv_def)
qed

lemma node_inv_Replicate: "node_inv ms st a s \<Longrightarrow> msg_ok m \<Longrightarrow> node_inv ms st a (fst (Replicate s m))"
  by (frule node_inv_parts(1), erule node_inv_data) (simp_all add: Replicate_wf server_frame)

lemma node_inv_IncrCounter: "node_inv ms st a s \<Longrightarrow> node_inv ms st a (fst (IncrCounter s q))"
proof -
  assume inv: "node_inv ms st a s"
  have "node_inv ms st a (executed s q)"
    by (rule node_inv_data [OF inv]) (simp_all add: executed_wf node_inv_parts(1) [OF inv])
  then show "node_inv ms st a (fst (IncrCounter s q))"
    using inv IncrCounter_state [of s q] by auto
qed

lemma IncrCounter_calls:
  assumes "IncrCounter s q = (s', r, es)" and "e \<in> set es"
  shows "call_inv ms st e"
proof (cases "irq_CounterId q \<noteq> [] \<and> serving s \<and> cached_reply s q = None")
  case True
  then show ?thesis
    using assms incr_msg_ok [of s q]
    by (auto simp: IncrCounter_fresh call_inv_def replicateToAll_def List.map_filter_def split: if_splits)
next
  case False
  then have "es = []"
    using assms(1) by (auto simp: IncrCounter_def serving_def currentLeader_def cached_reply_def tracked_def
        Let_def split: if_splits option.splits)
  then show ?thesis using assms(2) by simp
qed

lemma node_inv_vote:
  assumes inv: "node_inv ms st a s" and m: "vcm_SenderId m \<in> set ms" "(vcm_SenderId m, vcm_ViewNumber m) \<in> st"
    and a: "a \<in> set ms" and step: "ViewChange s m = Inr (s', ack)"
  shows "node_inv ms st a s'"
proof (cases "sint (vcm_ViewNumber m) < sint (viewNumber s)")
  case True
  then show ?thesis using inv step by (simp add: ViewChange_stale)
next
  case False
  let ?v = "vcm_ViewNumber m"
  note wf = node_inv_parts(1) [OF inv] and vs = node_inv_parts(2) [OF inv]
  have voters: "voters (voted s m) u =
      (if u = ?v then insert (vcm_SenderId m) (if voters s u = {} then {a} else voters s u) else voters s u)" for u
    using inv by (simp add: voted_voters vs node_inv_def)
  have sub: "voters (voted s m) u \<subseteq> set ms \<inter> insert a {b. (b, u) \<in> st}"
    and mem: "voters (voted s m) u \<noteq> {} \<longrightarrow> a \<in> voters (voted s m) u" for u
    using inv m a by (auto simp: voters node_inv_def)
  have cnt: "vote_count (voted s m) ?v = card (voters (voted s m) ?v)"
    by (simp add: vote_count_card voted_votes_ok vs)
  have wf': "wf_server s'" using ViewChange_wf [OF wf, of m] step by auto
  have flag: "viewNumber s = 0 \<or> majority s \<le> card (voters (voted s m) (viewNumber s))"
    if "inViewChange (voted s m) = 0"
  proof -
    have "inViewChange s = 0" using that by (simp split: if_splits)
    then have "viewNumber s = 0 \<or> majority s \<le> card (voters s (viewNumber s))" using inv by (simp add: node_inv_def)
    moreover have "voters s (viewNumber s) \<subseteq> voters (voted s m) (viewNumber s)" by (auto simp: voters)
    then have "card (voters s (viewNumber s)) \<le> card (voters (voted s m) (viewNumber s))"
      by (intro card_mono) simp_all
    ultimately show ?thesis by auto
  qed
  show ?thesis
  proof (cases "vote_count (voted s m) ?v = majority s")
    case True
    then have "s' = (voted s m)\<lparr>viewNumber := ?v, leaderAddr := leader_at (allServers s) ?v, inViewChange := 0\<rparr>"
      using step False wf by (simp add: ViewChange_eq Let_def)
    then show ?thesis using inv sub mem wf' True cnt by (simp add: node_inv_def)
  next
    case no: False
    then have "s' = voted s m" using step False wf by (simp add: ViewChange_eq Let_def)
    then show ?thesis using inv sub mem wf' flag by (simp add: node_inv_def)
  qed
qed

lemma broadcast_calls:
  "e \<in> set (broadcastViewChange s v) \<Longrightarrow>
     \<exists>conn. e = CallViewChange conn \<lparr>vcm_ViewNumber = v, vcm_SenderId = self s\<rparr>"
  by (auto simp: broadcastViewChange_def List.map_filter_def)

lemma node_inv_initiate:
  assumes inv: "node_inv ms st a s" and a: "a \<in> set ms" and v: "sint (viewNumber s) < 2 ^ 63 - 1"
    and step: "initiateViewChange s = Inr (s', es)"
  shows "node_inv ms (insert (a, viewNumber s') st) a s' \<and>
    (\<forall>e \<in> set es. call_inv ms (insert (a, viewNumber s') st) e) \<and> viewNumber s' \<noteq> viewNumber s"
proof -
  note wf = node_inv_parts(1) [OF inv] and vs = node_inv_parts(2) [OF inv] and self = node_inv_parts(3) [OF inv]
  have s'_wf: "wf_server s'" using initiate_wf [OF wf v] step by auto
  have view: "viewNumber s' = viewNumber s + 1" by (rule initiate_view [OF wf v step])
  have cnt: "vote_count (suspected s) (viewNumber s + 1) = card (voters (suspected s) (viewNumber s + 1))"
    using suspected_wf [OF wf v] by (simp add: vote_count_card wf_server_def)
  have s': "s' = (if majority s \<le> vote_count (suspected s) (viewNumber s + 1)
      then (suspected s)\<lparr>inViewChange := 0\<rparr> else suspected s)"
    and es: "set es \<subseteq> set (broadcastViewChange (suspected s) (viewNumber s + 1))"
    using step by (auto simp: initiate_eq [OF wf v] Let_def split: if_splits)
  have voters: "voters s' u = (if u = viewNumber s + 1 then insert a (voters s u) else voters s u)" for u
    by (simp add: s' suspected_voters self)
  have frame: "self s' = a" "allServers s' = allServers s" "majority s' = majority s"
    by (simp_all add: s' self)
  have "inViewChange s' = 0 \<longrightarrow> majority s' \<le> card (voters s' (viewNumber s'))"
    using cnt by (simp add: s')
  then have "node_inv ms (insert (a, viewNumber s') st) a s'"
    using inv a s'_wf frame view by (auto simp: node_inv_def voters)
  moreover have "\<forall>e \<in> set es. call_inv ms (insert (a, viewNumber s') st) e"
    using es a by (fastforce simp: call_inv_def view self dest: broadcast_calls)
  moreover have "viewNumber s' \<noteq> viewNumber s" by (simp add: view)
  ultimately show ?thesis by blast
qed

lemma beat_cases:
  assumes "heartbeat_turn ping_ok (k, s) = Inr (ms, es)"
  obtains "snd ms = s" and "es = []" | s' where "initiateViewChange s = Inr (s', es)" and "snd ms = s'"
  using assms by (auto simp: heartbeat_turn_def Let_def split: if_splits sum.splits prod.splits)

lemma cluster_inv_init: "distinct ms \<Longrightarrow> cluster_inv ms (init_cluster nc ms dedup)"
  by (simp add: cluster_inv_def init_cluster_def node_inv_start)

lemma cluster_inv_step:
  assumes "cluster_step c c'" and "cluster_inv ms c"
  shows "cluster_inv ms c'"
  using assms
proof (induction rule: cluster_step.induct)
  case (beat a c ping_ok r es)
  then have a: "a \<in> set ms" and n: "node_inv ms (started c) a (node c a)" by (auto simp: cluster_inv_def)
  from beat(3) show ?case
  proof (cases rule: beat_cases)
    case 1
    then show ?thesis using beat(4) by (simp add: cluster_inv_def beat_result_def)
  next
    case (2 s')
    let ?st = "insert (a, viewNumber s') (started c)"
    have new: "node_inv ms ?st a s'" "\<forall>e \<in> set es. call_inv ms ?st e" "viewNumber s' \<noteq> viewNumber (node c a)"
      using node_inv_initiate [OF n a beat(2) 2(1)] by simp_all
    have old: "\<And>b. b \<in> set ms \<Longrightarrow> node_inv ms ?st b (node c b)" "\<And>e. e \<in># calls c \<Longrightarrow> call_inv ms ?st e"
      using beat(4) by (auto simp: cluster_inv_def intro: node_inv_mono call_inv_mono)
    show ?thesis
      using beat(4) new old 2(2) by (auto simp: cluster_inv_def beat_result_def)
  qed
next
  case (vote conn m c s ack)
  then have m: "vcm_SenderId m \<in> set ms" "(vcm_SenderId m, vcm_ViewNumber m) \<in> started c"
    and a: "conn_target conn \<in> set ms"
    by (fastforce simp: cluster_inv_def call_inv_def)+
  with vote node_inv_vote [OF _ m a vote(3)] show ?case
    by (auto simp: cluster_inv_def dest: in_diffD)
next
  case (repl conn m c)
  then have "msg_ok m" "conn_target conn \<in> set ms" by (fastforce simp: cluster_inv_def call_inv_def)+
  with repl show ?case by (auto simp: cluster_inv_def node_inv_Replicate dest: in_diffD)
next
  case (request a c q s r es)
  then have "s = fst (IncrCounter (node c a) q)" by simp
  with request show ?case
    by (auto simp: cluster_inv_def intro: node_inv_IncrCounter IncrCounter_calls)
next
  case (lose e c)
  then show ?case by (auto simp: cluster_inv_def dest: in_diffD)
next
  case (crash a c)
  then show ?case by (auto simp: cluster_inv_def)
qed

lemma reachable_inv: "reachable nc ms dedup c \<Longrightarrow> distinct ms \<Longrightarrow> cluster_inv ms c"
  by (induction rule: reachable.induct) (auto intro: cluster_inv_init cluster_inv_step)

end
