(* ===== verification/Cluster_Scenarios.thy ===== *)
theory Cluster_Scenarios
  imports Cluster_Safety
begin

text \<open>
  What the election and the replication do not guarantee: reachable states of the replica group,
  each given by the script that runs into it, in which the group refuses every request for good,
  has two leaders at once, loses an acknowledged increment, or lets a restarted server lead a view
  nobody committed.  None of them needs a partition or more than the failures the program
  is written for.
\<close>

section \<open>Scripts\<close>

definition three :: "string list" where
  "three = [''s1'', ''s2'', ''s3'']"

definition run_from :: "string list \<Rightarrow> action list \<Rightarrow> Cluster" where
  "run_from ms script =
     (case run_script (init_cluster dial_all ms True) script of
        Some c \<Rightarrow> c | None \<Rightarrow> init_cluster dial_all ms True)"

lemma run_from_reachable: "reachable dial_all ms True (run_from ms script)"
  using run_script_reachable [OF reachable.start] reachable.start
  by (auto simp: run_from_def split: option.splits)

definition lose_vote :: "string \<Rightarrow> int64 \<Rightarrow> string \<Rightarrow> action" where
  "lose_vote dst v src = Lose (CallViewChange (ClientConn dst) (vote_msg v src))"

definition suspects :: "string \<Rightarrow> action list" where
  "suspects a = replicate 3 (Beat a [])"

text \<open>A heartbeat turn that pings exactly the live servers successfully.\<close>

definition true_beat :: "Cluster \<Rightarrow> string \<Rightarrow> panic + ((int \<times> Server) \<times> effect list)" where
  "true_beat c a = heartbeat_turn (\<lambda>conn. conn_target conn \<in> alive c) (missed c a, node c a)"

text \<open>A turn that changes at most the miss count, to zero, and sends nothing.\<close>

definition idle :: "Cluster \<Rightarrow> string \<Rightarrow> bool" where
  "idle c a \<longleftrightarrow> true_beat c a = Inr ((0, node c a), [])"

definition refuses :: "Cluster \<Rightarrow> string \<Rightarrow> bool" where
  "refuses c a \<longleftrightarrow> leaderAddr (node c a) = self (node c a) \<and> inViewChange (node c a) = 1"

definition sends_to :: "Cluster \<Rightarrow> string \<Rightarrow> string \<Rightarrow> bool" where
  "sends_to c a l \<longleftrightarrow> leaderAddr (node c a) = l \<and> self (node c a) \<noteq> l"

lemma refuses_IncrCounter:
  "refuses c a \<Longrightarrow> IncrCounter (node c a) (req_on (x # k) cl r) =
     (node c a, Inl (GrpcStatus Unavailable ''view change in progress''), [])"
  by (simp add: refuses_def IncrCounter_unavailable req_on_def)

lemma sends_to_IncrCounter:
  "sends_to c a l \<Longrightarrow> IncrCounter (node c a) (req_on (x # k) cl r) =
     (node c a, Inr \<lparr>irs_NewValue = 0, irs_RedirectTo = l\<rparr>, [])"
  by (auto simp: sends_to_def IncrCounter_redirect req_on_def)

section \<open>An election that elects a leader who never serves\<close>

definition stall_script :: "action list" where
  "stall_script =
     Crash ''s1'' # suspects ''s2'' @ suspects ''s4'' @
     [vote_call ''s3'' 1 ''s2'', vote_call ''s5'' 1 ''s2'', vote_call ''s4'' 1 ''s2'',
      vote_call ''s2'' 1 ''s4'', vote_call ''s3'' 1 ''s4'', vote_call ''s5'' 1 ''s4'',
      lose_vote ''s1'' 1 ''s2'', lose_vote ''s1'' 1 ''s4'']"

lemma stall_facts:
  "alive (run_from five stall_script) = {''s2'', ''s3'', ''s4'', ''s5''} \<and>
   calls (run_from five stall_script) = {#} \<and>
   refuses (run_from five stall_script) ''s2'' \<and>
   sends_to (run_from five stall_script) ''s3'' ''s2'' \<and>
   sends_to (run_from five stall_script) ''s4'' ''s2'' \<and>
   sends_to (run_from five stall_script) ''s5'' ''s2'' \<and>
   idle (run_from five stall_script) ''s2'' \<and> idle (run_from five stall_script) ''s3'' \<and>
   idle (run_from five stall_script) ''s4'' \<and> idle (run_from five stall_script) ''s5''"
  by (intro conjI) code_simp+

text \<open>C24: A failover can end in a deadlock.  Five servers, the leader dies, two of the four others time out
  first: the remaining two commit the new view on those two votes and therefore never vote
  themselves, so the two initiators stay one vote short for ever, and one of them is the new
  leader.  In the reachable state below every call has been delivered (or was for the dead
  server), the new leader refuses every request, the three others redirect every request to it,
  and no heartbeat of a live server changes anything, since the new leader answers its pings.\<close>

theorem failover_can_deadlock:
  "\<exists>c. reachable dial_all five True c \<and> alive c = {''s2'', ''s3'', ''s4'', ''s5''} \<and> calls c = {#} \<and>
    (\<forall>x k cl r. IncrCounter (node c ''s2'') (req_on (x # k) cl r) =
       (node c ''s2'', Inl (GrpcStatus Unavailable ''view change in progress''), [])) \<and>
    (\<forall>x k cl r. IncrCounter (node c ''s3'') (req_on (x # k) cl r) =
       (node c ''s3'', Inr \<lparr>irs_NewValue = 0, irs_RedirectTo = ''s2''\<rparr>, [])) \<and>
    (\<forall>x k cl r. IncrCounter (node c ''s4'') (req_on (x # k) cl r) =
       (node c ''s4'', Inr \<lparr>irs_NewValue = 0, irs_RedirectTo = ''s2''\<rparr>, [])) \<and>
    (\<forall>x k cl r. IncrCounter (node c ''s5'') (req_on (x # k) cl r) =
       (node c ''s5'', Inr \<lparr>irs_NewValue = 0, irs_RedirectTo = ''s2''\<rparr>, [])) \<and>
    true_beat c ''s2'' = Inr ((0, node c ''s2''), []) \<and> true_beat c ''s3'' = Inr ((0, node c ''s3''), []) \<and>
    true_beat c ''s4'' = Inr ((0, node c ''s4''), []) \<and> true_beat c ''s5'' = Inr ((0, node c ''s5''), [])"
  using stall_facts run_from_reachable [of five stall_script]
  by (intro exI [of _ "run_from five stall_script"])
     (simp add: refuses_IncrCounter sends_to_IncrCounter idle_def)

section \<open>One false suspicion stops the group\<close>

definition false_alarm_script :: "action list" where
  "false_alarm_script =
     suspects ''s4'' @
     [vote_call ''s1'' 1 ''s4'', vote_call ''s2'' 1 ''s4'', vote_call ''s3'' 1 ''s4'', vote_call ''s5'' 1 ''s4'']"

lemma false_alarm_facts:
  "alive (run_from five false_alarm_script) = {''s1'', ''s2'', ''s3'', ''s4'', ''s5''} \<and>
   calls (run_from five false_alarm_script) = {#} \<and>
   refuses (run_from five false_alarm_script) ''s1'' \<and>
   sends_to (run_from five false_alarm_script) ''s2'' ''s1'' \<and>
   sends_to (run_from five false_alarm_script) ''s4'' ''s2'' \<and>
   idle (run_from five false_alarm_script) ''s1'' \<and> idle (run_from five false_alarm_script) ''s2'' \<and>
   idle (run_from five false_alarm_script) ''s3'' \<and> idle (run_from five false_alarm_script) ''s4'' \<and>
   idle (run_from five false_alarm_script) ''s5''"
  by (intro conjI) code_simp+

text \<open>A view change that fails is never called off.  Five live servers; one of them misses three
  pings of a healthy leader and starts a view change that no one joins.  All its messages arrive,
  no server crashes, and the group is dead: the leader is in view-change mode and refuses every
  request, the next server redirects to it, the suspicious one redirects to the next server, and
  no heartbeat changes anything, because every pinged leader answers.\<close>

lemma false_alarm_stops_service:
  "\<exists>c. reachable dial_all five True c \<and> alive c = set five \<and> calls c = {#} \<and>
    (\<forall>x k cl r. IncrCounter (node c ''s1'') (req_on (x # k) cl r) =
       (node c ''s1'', Inl (GrpcStatus Unavailable ''view change in progress''), [])) \<and>
    (\<forall>x k cl r. IncrCounter (node c ''s2'') (req_on (x # k) cl r) =
       (node c ''s2'', Inr \<lparr>irs_NewValue = 0, irs_RedirectTo = ''s1''\<rparr>, [])) \<and>
    (\<forall>x k cl r. IncrCounter (node c ''s4'') (req_on (x # k) cl r) =
       (node c ''s4'', Inr \<lparr>irs_NewValue = 0, irs_RedirectTo = ''s2''\<rparr>, [])) \<and>
    true_beat c ''s1'' = Inr ((0, node c ''s1''), []) \<and> true_beat c ''s2'' = Inr ((0, node c ''s2''), []) \<and>
    true_beat c ''s3'' = Inr ((0, node c ''s3''), []) \<and> true_beat c ''s4'' = Inr ((0, node c ''s4''), []) \<and>
    true_beat c ''s5'' = Inr ((0, node c ''s5''), [])"
  using false_alarm_facts run_from_reachable [of five false_alarm_script]
  by (intro exI [of _ "run_from five false_alarm_script"])
     (simp add: refuses_IncrCounter sends_to_IncrCounter idle_def five_def)

section \<open>Two leaders\<close>

definition split_script :: "action list" where
  "split_script =
     suspects ''s2'' @ suspects ''s3'' @ suspects ''s4'' @ [vote_call ''s2'' 1 ''s3'', vote_call ''s2'' 1 ''s4'']"

definition increment_of :: "Cluster \<Rightarrow> string \<Rightarrow> IncrRequest \<Rightarrow> go_error + IncrResponse" where
  "increment_of c a q = fst (snd (IncrCounter (node c a) q))"

lemma split_facts:
  "alive (run_from five split_script) = set five \<and>
   increment_of (run_from five split_script) ''s1'' (req_on ''x'' ''u'' 1) =
     Inr \<lparr>irs_NewValue = 1, irs_RedirectTo = []\<rparr> \<and>
   increment_of (run_from five split_script) ''s2'' (req_on ''x'' ''w'' 1) =
     Inr \<lparr>irs_NewValue = 1, irs_RedirectTo = []\<rparr>"
  by (intro conjI) code_simp+

text \<open>C25: Two leaders at once.  The majority count decides when the new leader opens, but nothing closes
  the old one before its \<open>ViewChange\<close> messages arrive, and \<open>Replicate\<close> carries no view: there is a
  reachable state of five live servers in which two of them take increments of the same counter at
  the same time, and acknowledge the same value to two different clients.\<close>

theorem two_leaders_reachable:
  "\<exists>c. reachable dial_all five True c \<and> alive c = set five \<and>
    fst (snd (IncrCounter (node c ''s1'') (req_on ''x'' ''u'' 1))) = Inr \<lparr>irs_NewValue = 1, irs_RedirectTo = []\<rparr> \<and>
    fst (snd (IncrCounter (node c ''s2'') (req_on ''x'' ''w'' 1))) = Inr \<lparr>irs_NewValue = 1, irs_RedirectTo = []\<rparr>"
  using split_facts run_from_reachable [of five split_script]
  by (intro exI [of _ "run_from five split_script"]) (simp add: increment_of_def)

section \<open>A lost increment\<close>

definition repl_call :: "string \<Rightarrow> int64 \<Rightarrow> int64 \<Rightarrow> action" where
  "repl_call dst v r =
     Deliver (CallReplicate (ClientConn dst)
       \<lparr>rpm_CounterId = ''x'', rpm_NewValue = v, rpm_ClientId = ''u'', rpm_RequestId = r,
        rpm_CachedResponse = Some \<lparr>irs_NewValue = v, irs_RedirectTo = []\<rparr>\<rparr>)"

definition reorder_script :: "action list" where
  "reorder_script =
     [Ask ''s1'' (req_on ''x'' ''u'' 1), Ask ''s1'' (req_on ''x'' ''u'' 2),
      repl_call ''s3'' 1 1, repl_call ''s3'' 2 2, repl_call ''s2'' 2 2, repl_call ''s2'' 1 1,
      Crash ''s1''] @ suspects ''s3'' @ [vote_call ''s2'' 1 ''s3'', lose_vote ''s1'' 1 ''s3'']"

lemma reorder_facts:
  "calls (run_from three reorder_script) = {#} \<and>
   cache_get (cache (node (run_from three reorder_script) ''s2'')) ''u'' 1 =
     Some \<lparr>irs_NewValue = 1, irs_RedirectTo = []\<rparr> \<and>
   cache_get (cache (node (run_from three reorder_script) ''s2'')) ''u'' 2 =
     Some \<lparr>irs_NewValue = 2, irs_RedirectTo = []\<rparr> \<and>
   GetCounter (node (run_from three reorder_script) ''s2'') \<lparr>grq_CounterId = ''x''\<rparr> =
     Inr \<lparr>grs_Value = 1, grs_RedirectTo = []\<rparr>"
  by (intro conjI) code_simp+

text \<open>C26: An acknowledged increment can be lost.  The leader releases its lock before it replicates, so
  the \<open>Replicate\<close> calls of two concurrent increments may reach a follower in either order, and the
  follower keeps the last one.  There is a reachable state, with every \<open>Replicate\<close> call delivered
  (so both requests were answered, with 1 and 2, and both replies are cached), in which the
  leader has died, the follower that saw them in the wrong order leads, and the counter reads 1.\<close>

theorem acknowledged_increment_lost:
  "\<exists>c. reachable dial_all three True c \<and> calls c = {#} \<and>
    cache_get (cache (node c ''s2'')) ''u'' 1 = Some \<lparr>irs_NewValue = 1, irs_RedirectTo = []\<rparr> \<and>
    cache_get (cache (node c ''s2'')) ''u'' 2 = Some \<lparr>irs_NewValue = 2, irs_RedirectTo = []\<rparr> \<and>
    GetCounter (node c ''s2'') \<lparr>grq_CounterId = ''x''\<rparr> = Inr \<lparr>grs_Value = 1, grs_RedirectTo = []\<rparr>"
  using reorder_facts run_from_reachable [of three reorder_script] by blast

section \<open>A joiner that leads an uncommitted view\<close>

text \<open>
  A restart as \<open>main\<close> makes it: \<open>New\<close>, then \<open>PullState\<close>; \<open>TransferState\<close> succeeds for the live peers
  that answer.
\<close>

definition rejoin :: "string list \<Rightarrow> (string \<Rightarrow> bool) \<Rightarrow> Cluster \<Rightarrow> string \<Rightarrow> Cluster option" where
  "rejoin ms answers c a =
     (case PullState dial_all
         (\<lambda>conn req. if conn_target conn \<in> alive c \<and> answers (conn_target conn)
            then Inr (TransferState (node c (conn_target conn)) req)
            else Inl (GrpcStatus Unavailable ''connection error''))
         (start_server dial_all ms True a) of
        Inl p \<Rightarrow> None
      | Inr s \<Rightarrow> Some (c\<lparr>node := (node c)(a := s), missed := (missed c)(a := 0), alive := insert a (alive c)\<rparr>))"

definition uncommitted_script :: "action list" where
  "uncommitted_script =
     Crash ''s2'' # suspects ''s3'' @ [lose_vote ''s1'' 1 ''s3'', lose_vote ''s2'' 1 ''s3'']"

definition rejoined :: Cluster where
  "rejoined =
     (case rejoin three (\<lambda>b. b = ''s3'') (run_from three uncommitted_script) ''s2'' of
        Some c \<Rightarrow> c | None \<Rightarrow> run_from three uncommitted_script)"

lemma rejoined_eq: "rejoin three (\<lambda>b. b = ''s3'') (run_from three uncommitted_script) ''s2'' = Some rejoined"
proof -
  have "case rejoin three (\<lambda>b. b = ''s3'') (run_from three uncommitted_script) ''s2'' of
      Some c \<Rightarrow> True | None \<Rightarrow> False" by code_simp
  then show ?thesis by (auto simp: rejoined_def split: option.splits)
qed

lemma rejoined_facts:
  "started (run_from three uncommitted_script) = {(''s3'', 1)} \<and>
   viewNumber (node rejoined ''s2'') = 1 \<and> vote_count (node rejoined ''s2'') 1 = 0 \<and>
   vote_count (node rejoined ''s3'') 1 = 1 \<and>
   serving (node rejoined ''s2'') \<and> serving (node rejoined ''s1'')"
  by (intro conjI) code_simp+

text \<open>C27: A snapshot does not say whether its view was ever committed.  There is a reachable state in which
  one server alone has initiated view 1, its messages being lost, and a restarted server that
  pulls its state from it comes up at view 1 without a single vote, outside view-change mode, and
  leads; the leader of view 0 serves on next to it.\<close>

theorem joiner_leads_uncommitted_view:
  "\<exists>c c'. reachable dial_all three True c \<and> started c = {(''s3'', 1)} \<and>
    rejoin three (\<lambda>b. b = ''s3'') c ''s2'' = Some c' \<and>
    viewNumber (node c' ''s2'') = 1 \<and> vote_count (node c' ''s2'') 1 = 0 \<and> vote_count (node c' ''s3'') 1 = 1 \<and>
    serving (node c' ''s2'') \<and> serving (node c' ''s1'')"
  using rejoined_facts rejoined_eq run_from_reachable [of three uncommitted_script] by blast

end
