(* ===== verification/Concurrent_Requests.thy ===== *)
theory Concurrent_Requests
  imports Exactly_Once
begin

text \<open>
  \<open>IncrCounter\<close> under concurrency.  gRPC runs every request in a goroutine of its own, and the handler
  of \<open>internal/server/state.go\<close> holds a lock only for moments: to read the leader, to look a reply
  up, to increment, to store a reply.  Here the handler is cut at those points into the steps of a
  thread, a state is the server with any number of threads, and a step lets one thread go on.  The
  ticks are a history variable: which thread incremented which counter to which value, in order.
\<close>

section \<open>Threads\<close>

datatype pc =
    AtLeader
  | AtFlag
  | AtLookup
  | AtCount
  | AtStore int64
  | AtSend int64
  | Answered "go_error + IncrResponse"

text \<open>The message the code builds from \<open>useDedup\<close>, the request and the value.\<close>

definition replicate_msg :: "bool \<Rightarrow> IncrRequest \<Rightarrow> int64 \<Rightarrow> ReplicateMsg" where
  "replicate_msg useDedup req val =
     (let msg = \<lparr>rpm_CounterId = irq_CounterId req, rpm_NewValue = val, rpm_ClientId = [], rpm_RequestId = 0,
            rpm_CachedResponse = None\<rparr>
      in if useDedup
         then msg\<lparr>rpm_ClientId := irq_ClientId req, rpm_RequestId := irq_RequestId req,
                rpm_CachedResponse := Some \<lparr>irs_NewValue = val, irs_RedirectTo = []\<rparr>\<rparr>
         else msg)"

fun incr_micro :: "IncrRequest \<Rightarrow> Server \<Rightarrow> pc \<Rightarrow> Server \<times> pc \<times> effect list" where
  "incr_micro req s AtLeader =
     (if irq_CounterId req = [] then
        (s, Answered (Inl (GrpcStatus InvalidArgument ''counter_id must not be empty'')), [])
      else if currentLeader s \<noteq> self s then
        (s, Answered (Inr \<lparr>irs_NewValue = 0, irs_RedirectTo = currentLeader s\<rparr>), [])
      else (s, AtFlag, []))"
| "incr_micro req s AtFlag =
     (if inViewChange s = 1 then (s, Answered (Inl (GrpcStatus Unavailable ''view change in progress'')), [])
      else (s, AtLookup, []))"
| "incr_micro req s AtLookup =
     (case (if tracked s req then cache_get (cache s) (irq_ClientId req) (irq_RequestId req) else None) of
        Some cached \<Rightarrow> (s, Answered (Inr cached), [])
      | None \<Rightarrow> (s, AtCount, []))"
| "incr_micro req s AtCount =
     (let val = map_zero (counters s) (irq_CounterId req) + 1
      in (s\<lparr>counters := AList.update (irq_CounterId req) val (counters s)\<rparr>, AtStore val, []))"
| "incr_micro req s (AtStore val) =
     (if tracked s req then
        s\<lparr>cache := cache_set (cache s) (irq_ClientId req) (irq_RequestId req) \<lparr>irs_NewValue = val, irs_RedirectTo = []\<rparr>\<rparr>
      else s, AtSend val, [])"
| "incr_micro req s (AtSend val) =
     (s, Answered (Inr \<lparr>irs_NewValue = val, irs_RedirectTo = []\<rparr>),
      replicateToAll s (replicate_msg (tracked s req) req val) @
      (if 0 <s replyDelay s then [SleepFor (replyDelay s)] else []))"
| "incr_micro req s (Answered r) = (s, Answered r, [])"

text \<open>One thread on its own.\<close>

fun run_alone :: "nat \<Rightarrow> IncrRequest \<Rightarrow> Server \<times> pc \<times> effect list \<Rightarrow> Server \<times> pc \<times> effect list" where
  "run_alone 0 req st = st"
| "run_alone (Suc n) req (s, p, es) =
     (case incr_micro req s p of (s', p', es') \<Rightarrow> run_alone n req (s', p', es @ es'))"

text \<open>The cut handler is the handler.  A thread that nobody interrupts answers after at most six
  steps, and it leaves the server, gives the answer and starts the calls that \<open>IncrCounter\<close> does,
  on every branch.\<close>

lemma uninterrupted_is_IncrCounter:
  "run_alone 6 q (s, AtLeader, []) =
     (fst (IncrCounter s q), Answered (fst (snd (IncrCounter s q))), snd (snd (IncrCounter s q)))"
proof (cases "irq_CounterId q \<noteq> [] \<and> serving s")
  case False
  then show ?thesis
    by (auto simp: eval_nat_numeral currentLeader_def serving_def IncrCounter_invalid IncrCounter_redirect
        IncrCounter_unavailable)
next
  case True
  then have k: "irq_CounterId q \<noteq> []" "currentLeader s = self s" "inViewChange s \<noteq> 1"
    by (simp_all add: serving_def currentLeader_def)
  show ?thesis
  proof (cases "cached_reply s q")
    case (Some x)
    then show ?thesis using k True
      by (simp add: eval_nat_numeral IncrCounter_cached cached_reply_def split: if_splits)
  next
    case None
    have t: "tracked (executed s q) q = tracked s q" by (simp add: tracked_def)
    show ?thesis using None k True
      by (auto simp: eval_nat_numeral IncrCounter_fresh cached_reply_def executed_def incr_response_def incr_msg_def
          replicate_msg_def tracked_def Let_def split: if_splits)
  qed
qed

section \<open>Interleavings\<close>

record Race =
  shared :: Server
  threads :: "(IncrRequest \<times> pc) list"
  ticks :: "(nat \<times> string \<times> int64) list"

definition ready :: "Server \<Rightarrow> IncrRequest list \<Rightarrow> Race" where
  "ready s qs = \<lparr>shared = s, threads = map (\<lambda>q. (q, AtLeader)) qs, ticks = []\<rparr>"

definition advance :: "nat \<Rightarrow> Race \<Rightarrow> Race" where
  "advance i c =
     (let (q, p) = threads c ! i; (s', p', es) = incr_micro q (shared c) p
      in c\<lparr>shared := s', threads := (threads c)[i := (q, p')],
           ticks := (case p of AtCount \<Rightarrow> ticks c @ [(i, irq_CounterId q, map_zero (counters s') (irq_CounterId q))]
                     | _ \<Rightarrow> ticks c)\<rparr>)"

inductive interleaved :: "Server \<Rightarrow> IncrRequest list \<Rightarrow> Race \<Rightarrow> bool" for s qs where
  begin_threads: "interleaved s qs (ready s qs)"
| one_step: "interleaved s qs c \<Longrightarrow> i < length (threads c) \<Longrightarrow> interleaved s qs (advance i c)"

inductive_cases interleavedE: "interleaved s qs c"

lemma interleaved_schedule:
  "interleaved s qs c \<Longrightarrow> \<forall>i \<in> set is. i < length qs \<Longrightarrow> length (threads c) = length qs \<Longrightarrow>
     interleaved s qs (fold advance is c)"
proof (induction "is" arbitrary: c)
  case (Cons i "is")
  have "length (threads (advance i c)) = length qs"
    using Cons.prems(3) by (simp add: advance_def Let_def split: prod.splits)
  moreover have "interleaved s qs (advance i c)" using Cons.prems by (intro one_step) simp_all
  ultimately show ?case using Cons by simp
qed simp

definition ticks_of :: "string \<Rightarrow> Race \<Rightarrow> int64 list" where
  "ticks_of k c = map (\<lambda>(i, k', v). v) (filter (\<lambda>(i, k', v). k' = k) (ticks c))"

text \<open>
  The invariant: a counter is its start plus its ticks, the ticks count up one by one, and a thread
  has ticked exactly once it is past its increment and before that never.
\<close>

fun before_count :: "pc \<Rightarrow> bool" where
  "before_count AtLeader = True"
| "before_count AtFlag = True"
| "before_count AtLookup = True"
| "before_count AtCount = True"
| "before_count _ = False"

definition counts_up :: "Server \<Rightarrow> Race \<Rightarrow> bool" where
  "counts_up s0 c \<longleftrightarrow>
     (\<forall>k. ticks_of k c = map (\<lambda>n. map_zero (counters s0) k + of_nat n) [1 ..< Suc (length (ticks_of k c))]) \<and>
     (\<forall>k. map_zero (counters (shared c)) k = map_zero (counters s0) k + of_nat (length (ticks_of k c)))"

definition ticked_once :: "Race \<Rightarrow> bool" where
  "ticked_once c \<longleftrightarrow>
     distinct (map fst (ticks c)) \<and>
     (\<forall>i \<in> fst ` set (ticks c). i < length (threads c) \<and> \<not> before_count (snd (threads c ! i)))"

lemma counts_up_ready: "counts_up s (ready s qs)"
  by (simp add: counts_up_def ready_def ticks_of_def comp_def)

lemma ticked_once_ready: "ticked_once (ready s qs)"
  by (simp add: ticked_once_def ready_def)

text \<open>A step other than the increment leaves counters and ticks alone.\<close>

lemma micro_counters:
  "p \<noteq> AtCount \<Longrightarrow> incr_micro q s p = (s', p', es) \<Longrightarrow> counters s' = counters s"
  by (cases p) (auto split: if_splits option.splits)

lemma micro_pc:
  "p \<noteq> AtCount \<Longrightarrow> incr_micro q s p = (s', p', es) \<Longrightarrow> \<not> before_count p \<Longrightarrow> \<not> before_count p'"
  by (cases p) (auto split: if_splits option.splits)

lemma advance_other:
  assumes "threads c ! i = (q, p)" and "p \<noteq> AtCount"
  shows "\<exists>s' p'. advance i c = c\<lparr>shared := s', threads := (threads c)[i := (q, p')]\<rparr> \<and>
    counters s' = counters (shared c) \<and> (\<not> before_count p \<longrightarrow> \<not> before_count p')"
proof -
  obtain s' p' es where m: "incr_micro q (shared c) p = (s', p', es)" by (cases "incr_micro q (shared c) p") auto
  have "(case p of AtCount \<Rightarrow> xs | _ \<Rightarrow> ticks c) = ticks c" for xs using assms(2) by (cases p) simp_all
  then have "advance i c = c\<lparr>shared := s', threads := (threads c)[i := (q, p')]\<rparr>"
    by (simp add: advance_def assms(1) m)
  then show ?thesis using micro_counters [OF assms(2) m] micro_pc [OF assms(2) m] by blast
qed

lemma advance_count:
  assumes "threads c ! i = (q, AtCount)"
  shows "let v = map_zero (counters (shared c)) (irq_CounterId q) + 1 in
    advance i c = c\<lparr>shared := (shared c)\<lparr>counters := AList.update (irq_CounterId q) v (counters (shared c))\<rparr>,
      threads := (threads c)[i := (q, AtStore v)], ticks := ticks c @ [(i, irq_CounterId q, v)]\<rparr>"
  by (simp add: advance_def assms Let_def map_zero_put)

lemma advance_counts_up:
  assumes "counts_up s0 c"
  shows "counts_up s0 (advance i c)"
proof -
  obtain q p where t: "threads c ! i = (q, p)" by (cases "threads c ! i")
  show ?thesis
  proof (cases "p = AtCount")
    case False
    then obtain s' p' where "advance i c = c\<lparr>shared := s', threads := (threads c)[i := (q, p')]\<rparr>"
        "counters s' = counters (shared c)"
      using advance_other [OF t] by blast
    then have "ticks_of k (advance i c) = ticks_of k c" "counters (shared (advance i c)) = counters (shared c)" for k
      by (simp_all add: ticks_of_def)
    note same = this
    show ?thesis using assms unfolding counts_up_def same .
  next
    case True
    define k where "k = irq_CounterId q"
    define v where "v = map_zero (counters (shared c)) k + 1"
    have a: "advance i c = c\<lparr>shared := (shared c)\<lparr>counters := AList.update k v (counters (shared c))\<rparr>,
        threads := (threads c)[i := (q, AtStore v)], ticks := ticks c @ [(i, k, v)]\<rparr>"
      using advance_count [of c i q] t True by (simp add: k_def v_def Let_def)
    have ticks: "ticks_of x (advance i c) = ticks_of x c @ (if x = k then [v] else [])" for x
      by (simp add: a ticks_of_def)
    have old: "ticks_of x c = map (\<lambda>n. map_zero (counters s0) x + of_nat n) [1 ..< Suc (length (ticks_of x c))]"
      and val: "map_zero (counters (shared c)) x = map_zero (counters s0) x + of_nat (length (ticks_of x c))" for x
      using assms unfolding counts_up_def by blast+
    have v: "v = map_zero (counters s0) k + of_nat (Suc (length (ticks_of k c)))"
      by (simp add: v_def val [of k])
    have "ticks_of x (advance i c) =
        map (\<lambda>n. map_zero (counters s0) x + of_nat n) [1 ..< Suc (length (ticks_of x (advance i c)))]" for x
    proof (cases "x = k")
      case True
      have "ticks_of k c @ [v] = map (\<lambda>n. map_zero (counters s0) k + of_nat n)
          ([1 ..< Suc (length (ticks_of k c))] @ [Suc (length (ticks_of k c))])"
        using old [of k] v by (metis list.simps(8) list.simps(9) map_append)
      then show ?thesis by (simp add: True ticks)
    qed (use old [of x] in \<open>simp add: ticks\<close>)
    moreover have "map_zero (counters (shared (advance i c))) x =
        map_zero (counters s0) x + of_nat (length (ticks_of x (advance i c)))" for x
    proof -
      have "map_zero (counters (shared (advance i c))) x = (if x = k then v else map_zero (counters (shared c)) x)"
        by (simp add: a map_zero_put)
      then show ?thesis by (simp add: ticks v val)
    qed
    ultimately show ?thesis unfolding counts_up_def by blast
  qed
qed

lemma advance_ticked_once:
  assumes "ticked_once c" and "i < length (threads c)"
  shows "ticked_once (advance i c)"
proof -
  obtain q p where t: "threads c ! i = (q, p)" by (cases "threads c ! i")
  show ?thesis
  proof (cases "p = AtCount")
    case False
    then obtain s' p' where a: "advance i c = c\<lparr>shared := s', threads := (threads c)[i := (q, p')]\<rparr>"
        and "\<not> before_count p \<longrightarrow> \<not> before_count p'"
      using advance_other [OF t] by blast
    then show ?thesis using assms t by (auto simp: ticked_once_def nth_list_update)
  next
    case True
    then obtain s' k v where a: "advance i c = c\<lparr>shared := s', threads := (threads c)[i := (q, AtStore v)],
        ticks := ticks c @ [(i, k, v)]\<rparr>"
      using advance_count [of c i q] t by (auto simp: Let_def)
    have "i \<notin> fst ` set (ticks c)"
    proof
      assume "i \<in> fst ` set (ticks c)"
      then have "\<not> before_count (snd (threads c ! i))" using assms(1) unfolding ticked_once_def by blast
      then show False using t True by simp
    qed
    then show ?thesis using assms by (auto simp: a ticked_once_def nth_list_update)
  qed
qed

lemma interleaved_inv: "interleaved s qs c \<Longrightarrow> counts_up s c \<and> ticked_once c"
  by (induction rule: interleaved.induct)
    (simp_all add: counts_up_ready ticked_once_ready advance_counts_up advance_ticked_once)


definition two_requests :: "IncrRequest list" where
  "two_requests = [req_on ''x'' ''u'' 1, req_on ''x'' ''u'' 1]"

definition raced :: Race where
  "raced = fold advance [0, 0, 0, 1, 1, 1, 0, 0, 0, 1, 1, 1] (ready (srv3 ''s1'') two_requests)"

lemma raced_interleaved: "interleaved (srv3 ''s1'') two_requests raced"
  unfolding raced_def
  by (rule interleaved_schedule [OF begin_threads]) (simp_all add: two_requests_def ready_def)


text \<open>C33: Looking up and storing a reply are not one step.  Two copies of one request that run at the same
  time on one leader, as when a client retries before the first attempt has answered, can both
  miss the cache: there is an interleaving in which one request identifier is executed twice and
  its two copies are answered 1 and 2.\<close>

theorem same_request_twice:
  "interleaved (srv3 ''s1'') [req_on ''x'' ''u'' 1, req_on ''x'' ''u'' 1]
     (fold advance [0, 0, 0, 1, 1, 1, 0, 0, 0, 1, 1, 1]
       (ready (srv3 ''s1'') [req_on ''x'' ''u'' 1, req_on ''x'' ''u'' 1]))
   \<and> (let c = fold advance [0, 0, 0, 1, 1, 1, 0, 0, 0, 1, 1, 1]
            (ready (srv3 ''s1'') [req_on ''x'' ''u'' 1, req_on ''x'' ''u'' 1])
      in map snd (threads c) = [Answered (Inr \<lparr>irs_NewValue = 1, irs_RedirectTo = []\<rparr>),
             Answered (Inr \<lparr>irs_NewValue = 2, irs_RedirectTo = []\<rparr>)]
       \<and> map_zero (counters (shared c)) ''x'' = 2)"
proof (rule conjI)
  show "let c = fold advance [0, 0, 0, 1, 1, 1, 0, 0, 0, 1, 1, 1]
            (ready (srv3 ''s1'') [req_on ''x'' ''u'' 1, req_on ''x'' ''u'' 1])
      in map snd (threads c) = [Answered (Inr \<lparr>irs_NewValue = 1, irs_RedirectTo = []\<rparr>),
             Answered (Inr \<lparr>irs_NewValue = 2, irs_RedirectTo = []\<rparr>)]
       \<and> map_zero (counters (shared c)) ''x'' = 2"
    by code_simp
qed (use raced_interleaved in \<open>simp only: raced_def two_requests_def\<close>)

end
