(* ===== verification/Linearizable.thy ===== *)
theory Linearizable
  imports Concurrent_Requests
begin

text \<open>
  Concurrent increments against the abstract service.  When no two requests in flight are copies of
  one another, every interleaving of the handlers of \<open>internal/server/state.go\<close> has the effect and
  the answers of the abstract service taking the requests one at a time.  A request takes effect
  when it increments its counter, or when it finds its reply in the cache; between its increment
  and its store the reply exists in the abstract table only.
\<close>

section \<open>The abstract service on a sequence of requests\<close>

fun spec_run :: "bool \<Rightarrow> CounterSpec \<Rightarrow> IncrRequest list \<Rightarrow> CounterSpec \<times> IncrResponse list" where
  "spec_run dedup a [] = (a, [])"
| "spec_run dedup a (q # qs) =
     (let (a1, x) = spec_incr dedup a q; (a2, xs) = spec_run dedup a1 qs in (a2, x # xs))"

lemma spec_run_snoc:
  "spec_run dedup a qs = (a1, xs) \<Longrightarrow> spec_incr dedup a1 q = (a2, x) \<Longrightarrow> spec_run dedup a (qs @ [q]) = (a2, xs @ [x])"
  by (induction qs arbitrary: a xs) (auto simp: Let_def split: prod.splits)

lemma spec_run_length: "spec_run dedup a qs = (a', xs) \<Longrightarrow> length xs = length qs"
  by (induction qs arbitrary: a xs) (auto simp: Let_def split: prod.splits)

section \<open>The simulation\<close>

definition same_identifier :: "bool \<Rightarrow> IncrRequest \<Rightarrow> IncrRequest \<Rightarrow> bool" where
  "same_identifier dedup q q' \<longleftrightarrow>
     dedup \<and> irq_ClientId q \<noteq> [] \<and> irq_ClientId q = irq_ClientId q' \<and> irq_RequestId q = irq_RequestId q'"

definition no_copies :: "bool \<Rightarrow> IncrRequest list \<Rightarrow> bool" where
  "no_copies dedup qs \<longleftrightarrow> (\<forall>i < length qs. \<forall>j < length qs. i \<noteq> j \<longrightarrow> \<not> same_identifier dedup (qs ! i) (qs ! j))"

definition value_reply :: "int64 \<Rightarrow> IncrResponse" where
  "value_reply v = \<lparr>irs_NewValue = v, irs_RedirectTo = []\<rparr>"

definition track :: "bool \<Rightarrow> IncrRequest \<Rightarrow> bool" where
  "track dedup q \<longleftrightarrow> dedup \<and> irq_ClientId q \<noteq> []"

text \<open>
  What the abstract state \<open>a\<close>, reached by the requests in \<open>order\<close> with replies \<open>xs\<close>, says of a thread.
\<close>

fun thread_ok :: "bool \<Rightarrow> CounterSpec \<Rightarrow> nat list \<Rightarrow> IncrResponse list \<Rightarrow> nat \<Rightarrow> IncrRequest \<times> pc \<Rightarrow> bool" where
  "thread_ok dedup a order xs i (q, AtCount) \<longleftrightarrow>
     i \<notin> set order \<and> (track dedup q \<longrightarrow> spec_reply a (irq_ClientId q) (irq_RequestId q) = None)"
| "thread_ok dedup a order xs i (q, AtStore v) \<longleftrightarrow>
     (i, value_reply v) \<in> set (zip order xs) \<and>
     (track dedup q \<longrightarrow> spec_reply a (irq_ClientId q) (irq_RequestId q) = Some (value_reply v))"
| "thread_ok dedup a order xs i (q, AtSend v) \<longleftrightarrow> (i, value_reply v) \<in> set (zip order xs)"
| "thread_ok dedup a order xs i (q, Answered r) \<longleftrightarrow> (\<exists>x. r = Inr x \<and> (i, x) \<in> set (zip order xs))"
| "thread_ok dedup a order xs i (q, _) \<longleftrightarrow> i \<notin> set order"

text \<open>A thread whose reply is in the abstract table but not yet in the cache.\<close>

fun owes :: "bool \<Rightarrow> string \<Rightarrow> int64 \<Rightarrow> IncrRequest \<times> pc \<Rightarrow> bool" where
  "owes dedup cl r (q, AtStore v) \<longleftrightarrow> track dedup q \<and> irq_ClientId q = cl \<and> irq_RequestId q = r"
| "owes dedup cl r _ \<longleftrightarrow> False"

definition simulates :: "Server \<Rightarrow> IncrRequest list \<Rightarrow> Race \<Rightarrow> CounterSpec \<Rightarrow> nat list \<Rightarrow> IncrResponse list \<Rightarrow> bool" where
  "simulates s qs c a order xs \<longleftrightarrow>
     map fst (threads c) = qs \<and> serving (shared c) \<and> dedupEnabled (shared c) = dedupEnabled s \<and>
     spec_run (dedupEnabled s) (abs_server s) (map (nth qs) order) = (a, xs) \<and>
     distinct order \<and> set order \<subseteq> {..<length qs} \<and>
     spec_value a = map_zero (counters (shared c)) \<and>
     (\<forall>i < length qs. thread_ok (dedupEnabled s) a order xs i (threads c ! i)) \<and>
     (\<forall>cl r. (\<forall>t \<in> set (threads c). \<not> owes (dedupEnabled s) cl r t) \<longrightarrow>
        spec_reply a cl r = cache_get (cache (shared c)) cl r)"

lemma simulates_ready: "serving s \<Longrightarrow> simulates s qs (ready s qs) (abs_server s) [] []"
  by (simp add: simulates_def ready_def comp_def abs_server_def)

text \<open>Threads that stay where they are keep what is said of them.\<close>

lemma thread_ok_grow:
  assumes "thread_ok dedup a order xs i t" and "j \<noteq> i" and "length xs = length order"
  shows "thread_ok dedup a (order @ [j]) (xs @ [x]) i t"
  using assms by (cases t; cases "snd t") auto

lemma thread_ok_reply:
  assumes "thread_ok dedup a order xs i (q, p)" and "\<not> same_identifier dedup q q'"
  shows "thread_ok dedup (fst (spec_incr dedup a q')) order xs i (q, p)"
  using assms
  by (cases p) (auto simp: spec_incr_def track_def same_identifier_def Let_def split: option.splits)

lemma advance_step:
  assumes "threads c ! i = (q, p)" and "incr_micro q (shared c) p = (s', p', es)"
  shows "shared (advance i c) = s'" "threads (advance i c) = (threads c)[i := (q, p')]"
  using assms by (simp_all add: advance_def)

lemma advance_requests:
  assumes "threads c ! i = (q, p)" and "i < length (threads c)"
  shows "map fst (threads (advance i c)) = map fst (threads c)"
proof -
  obtain s' p' es where m: "incr_micro q (shared c) p = (s', p', es)" by (rule prod_cases3)
  have "map fst (threads c) ! i = q" using assms by simp
  then have "(map fst (threads c))[i := q] = map fst (threads c)" by (metis list_update_id)
  then show ?thesis by (simp add: advance_step(2) [OF assms(1) m] map_update)
qed

text \<open>A step that changes neither the counters nor the cache, nor what is owed.\<close>

lemma simulates_quiet:
  assumes "simulates s qs c a order xs" and "i < length qs" and "threads c ! i = (q, p)"
    and "incr_micro q (shared c) p = (shared c, p', es)"
    and "thread_ok (dedupEnabled s) a order xs i (q, p')" and "\<And>cl r. owes (dedupEnabled s) cl r (q, p) = owes (dedupEnabled s) cl r (q, p')"
  shows "simulates s qs (advance i c) a order xs"
proof -
  have len: "length (threads c) = length qs" using assms(1) by (auto simp: simulates_def)
  have t: "threads (advance i c) ! j = (if j = i then (q, p') else threads c ! j)" if "j < length qs" for j
    using that len assms(2) by (simp add: advance_step [OF assms(3,4)] nth_list_update)
  have owed: "(\<forall>t \<in> set (threads (advance i c)). \<not> owes (dedupEnabled s) cl r t) \<longleftrightarrow> (\<forall>t \<in> set (threads c). \<not> owes (dedupEnabled s) cl r t)" for cl r
    using assms(2,3,6) len by (auto simp: all_set_conv_all_nth advance_step [OF assms(3,4)] nth_list_update)
  have "map fst (threads (advance i c)) = qs"
    using advance_requests [OF assms(3)] assms(1,2) len by (simp add: simulates_def)
  then show ?thesis
    using assms(1,5) t owed by (auto simp: simulates_def advance_step(1) [OF assms(3,4)])
qed

text \<open>A step that takes effect: the abstract service answers request \<open>i\<close> next.\<close>

lemma simulates_effect:
  assumes "simulates s qs c a order xs" and "no_copies (dedupEnabled s) qs" and "i < length qs" and "threads c ! i = (q, p)"
    and "i \<notin> set order" and "\<And>cl r. \<not> owes (dedupEnabled s) cl r (q, p)"
    and "incr_micro q (shared c) p = (s', p', es)" and "spec_incr (dedupEnabled s) a q = (a', x)"
    and "serving s'" and "dedupEnabled s' = dedupEnabled s" and "spec_value a' = map_zero (counters s')" and "cache s' = cache (shared c)"
    and "thread_ok (dedupEnabled s) a' (order @ [i]) (xs @ [x]) i (q, p')"
    and "\<And>cl r. spec_reply a' cl r \<noteq> spec_reply a cl r \<Longrightarrow> owes (dedupEnabled s) cl r (q, p')"
  shows "simulates s qs (advance i c) a' (order @ [i]) (xs @ [x])"
proof -
  have len: "length (threads c) = length qs" using assms(1) by (auto simp: simulates_def)
  have "map fst (threads c) = qs" using assms(1) unfolding simulates_def by blast
  then have fst_t: "fst (threads c ! j) = qs ! j" if "j < length qs" for j
    using that len by (metis nth_map)
  have q: "q = qs ! i" using fst_t [OF assms(3)] assms(4) by simp
  have run: "spec_run (dedupEnabled s) (abs_server s) (map (nth qs) order) = (a, xs)" using assms(1) by (simp add: simulates_def)
  then have "length xs = length order" using spec_run_length by fastforce
  have other: "thread_ok (dedupEnabled s) a' (order @ [i]) (xs @ [x]) j (threads c ! j)" if "j < length qs" "j \<noteq> i" for j
  proof -
    obtain qj pj where t: "threads c ! j = (qj, pj)" by (cases "threads c ! j")
    have "\<not> same_identifier (dedupEnabled s) qj q"
      using assms(2,3) that fst_t [OF that(1)] by (auto simp: no_copies_def q t)
    moreover have "thread_ok (dedupEnabled s) a order xs j (qj, pj)" using assms(1) that by (auto simp: simulates_def simp flip: t)
    ultimately have "thread_ok (dedupEnabled s) a' order xs j (qj, pj)" using thread_ok_reply assms(8) by fastforce
    then show ?thesis using thread_ok_grow that(2) \<open>length xs = length order\<close> by (simp add: t)
  qed
  have t: "threads (advance i c) ! j = (if j = i then (q, p') else threads c ! j)" if "j < length qs" for j
    using that len assms(3) by (simp add: advance_step [OF assms(4,7)] nth_list_update)
  have len': "length (threads (advance i c)) = length qs" using len by (simp add: advance_step [OF assms(4,7)])
  have table: "spec_reply a' cl r = cache_get (cache s') cl r"
    if owed: "\<forall>t \<in> set (threads (advance i c)). \<not> owes (dedupEnabled s) cl r t" for cl r
  proof -
    have none: "\<not> owes (dedupEnabled s) cl r (threads (advance i c) ! j)" if "j < length qs" for j
      using owed that len' by simp
    then have "spec_reply a' cl r = spec_reply a cl r" using assms(14) t [OF assms(3)] assms(3) by fastforce
    moreover have "\<not> owes (dedupEnabled s) cl r t" if mem: "t \<in> set (threads c)" for t
    proof -
      obtain j where "j < length qs" "t = threads c ! j" using mem len by (auto simp: in_set_conv_nth)
      then show ?thesis using none [of j] t [of j] assms(4,6) by (cases "j = i") auto
    qed
    ultimately show ?thesis using assms(1,12) by (simp add: simulates_def)
  qed
  have "map fst (threads (advance i c)) = qs"
    using advance_requests [OF assms(4)] assms(1,3) len by (simp add: simulates_def)
  moreover have "spec_run (dedupEnabled s) (abs_server s) (map (nth qs) (order @ [i])) = (a', xs @ [x])"
    using spec_run_snoc [OF run assms(8)] by (simp add: q)
  moreover have "set order \<subseteq> {..<length qs}" "distinct order" using assms(1) by (auto simp: simulates_def)
  moreover have "thread_ok (dedupEnabled s) a' (order @ [i]) (xs @ [x]) j (threads (advance i c) ! j)" if "j < length qs" for j
    using other [of j] assms(13) t that by (cases "j = i") simp_all
  ultimately show ?thesis
    using assms(3,5,9,10,11) table by (simp add: simulates_def advance_step(1) [OF assms(4,7)])
qed

lemma owed_free:
  assumes "map fst (threads c) = qs" and "no_copies dedup qs" and "i < length qs" and "threads c ! i = (q, p)"
    and "track dedup q" and "\<And>v. p \<noteq> AtStore v" and "t \<in> set (threads c)"
  shows "\<not> owes dedup (irq_ClientId q) (irq_RequestId q) t"
proof
  assume o: "owes dedup (irq_ClientId q) (irq_RequestId q) t"
  then obtain q' v where t: "t = (q', AtStore v)" "track dedup q'" "irq_ClientId q' = irq_ClientId q" "irq_RequestId q' = irq_RequestId q"
    by (cases "(dedup, irq_ClientId q, irq_RequestId q, t)" rule: owes.cases) auto
  obtain j where j: "j < length (threads c)" "threads c ! j = t" using assms(7) by (auto simp: in_set_conv_nth)
  have len: "length (threads c) = length qs" using assms(1) by (metis length_map)
  have "j \<noteq> i" using j(2) t(1) assms(4,6) by auto
  moreover have "qs ! i = q" "qs ! j = q'" using assms(1,3,4) j t(1) len by (metis fst_conv nth_map)+
  ultimately show False using assms(2,3,5) t j(1) len by (auto simp: no_copies_def same_identifier_def track_def)
qed

lemma simulates_advance:
  assumes "simulates s qs c a order xs" and "no_copies (dedupEnabled s) qs" and "\<forall>q \<in> set qs. irq_CounterId q \<noteq> []"
    and "i < length (threads c)"
  shows "\<exists>a' order' xs'. simulates s qs (advance i c) a' order' xs'"
proof -
  let ?d = "dedupEnabled s"
  obtain q p where t: "threads c ! i = (q, p)" by (cases "threads c ! i")
  have reqs: "map fst (threads c) = qs" and serving: "serving (shared c)" and dedup: "dedupEnabled (shared c) = ?d"
    and ok: "\<forall>i < length qs. thread_ok ?d a order xs i (threads c ! i)" and val: "spec_value a = map_zero (counters (shared c))"
    and table: "\<And>cl r. (\<forall>t \<in> set (threads c). \<not> owes ?d cl r t) \<Longrightarrow> spec_reply a cl r = cache_get (cache (shared c)) cl r"
    using assms(1) unfolding simulates_def by blast+
  have i: "i < length qs" using assms(4) reqs by (metis length_map)
  have "q = qs ! i" using reqs t assms(4) by (metis fst_conv nth_map)
  then have k: "irq_CounterId q \<noteq> []" using assms(3) i by simp
  have me: "thread_ok ?d a order xs i (q, p)" using ok i t by metis
  have lead: "currentLeader (shared c) = self (shared c)" "inViewChange (shared c) \<noteq> 1"
    using serving by (simp_all add: serving_def currentLeader_def)
  have tr: "tracked (shared c) q = track ?d q" by (simp add: tracked_def track_def dedup)
  have mine: "spec_reply a (irq_ClientId q) (irq_RequestId q) = cache_get (cache (shared c)) (irq_ClientId q) (irq_RequestId q)"
    if "track ?d q" "\<And>v. p \<noteq> AtStore v"
    using table owed_free [OF reqs assms(2) i t that] by blast
  note quiet = simulates_quiet [OF assms(1) i t]
  note effect = simulates_effect [OF assms(1,2) i t]
  have len: "length xs = length order" using assms(1) spec_run_length unfolding simulates_def by fastforce
  show ?thesis
  proof (cases p)
    case AtLeader
    have "simulates s qs (advance i c) a order xs"
      by (rule quiet [where p' = AtFlag and es = "[]"]) (use me k lead in \<open>simp_all add: AtLeader\<close>)
    then show ?thesis by blast
  next
    case AtFlag
    have "simulates s qs (advance i c) a order xs"
      by (rule quiet [where p' = AtLookup and es = "[]"]) (use me lead in \<open>simp_all add: AtFlag\<close>)
    then show ?thesis by blast
  next
    case AtLookup
    show ?thesis
    proof (cases "if track ?d q then cache_get (cache (shared c)) (irq_ClientId q) (irq_RequestId q) else None")
      case None
      have "simulates s qs (advance i c) a order xs"
        by (rule quiet [where p' = AtCount and es = "[]"])
          (use me None mine in \<open>simp_all add: AtLookup tr split: if_splits\<close>)
      then show ?thesis by blast
    next
      case (Some x)
      then have hit: "track ?d q" "cache_get (cache (shared c)) (irq_ClientId q) (irq_RequestId q) = Some x"
        by (simp_all split: if_splits)
      have "spec_incr ?d a q = (a, x)" using hit mine by (simp add: spec_incr_def track_def AtLookup)
      then have "simulates s qs (advance i c) a (order @ [i]) (xs @ [x])"
        by (intro effect [where p' = "Answered (Inr x)" and es = "[]" and s' = "shared c"])
          (use me hit serving dedup val len in \<open>simp_all add: AtLookup tr\<close>)
      then show ?thesis by blast
    qed
  next
    case AtCount
    define v where "v = map_zero (counters (shared c)) (irq_CounterId q) + 1"
    define s' where "s' = (shared c)\<lparr>counters := AList.update (irq_CounterId q) v (counters (shared c))\<rparr>"
    define a' where "a' = \<lparr>spec_value = (spec_value a)(irq_CounterId q := v),
      spec_reply = (if track ?d q then (spec_reply a)(irq_ClientId q := (spec_reply a (irq_ClientId q))(irq_RequestId q \<mapsto> value_reply v))
        else spec_reply a)\<rparr>"
    have "spec_incr ?d a q = (a', value_reply v)"
      using me by (auto simp: spec_incr_def AtCount track_def a'_def value_reply_def v_def val Let_def)
    moreover have "incr_micro q (shared c) p = (s', AtStore v, [])" by (simp add: AtCount s'_def v_def Let_def)
    moreover have "spec_value a' = map_zero (counters s')" by (auto simp: a'_def s'_def val map_zero_put)
    ultimately have "simulates s qs (advance i c) a' (order @ [i]) (xs @ [value_reply v])"
      by (intro effect [where p' = "AtStore v" and es = "[]" and s' = s'])
        (use me serving dedup len in \<open>auto simp: AtCount s'_def a'_def serving_def split: if_splits\<close>)
    then show ?thesis by blast
  next
    case (AtStore v)
    show ?thesis
    proof (cases "track ?d q")
      case False
      have "simulates s qs (advance i c) a order xs"
        by (rule quiet [where p' = "AtSend v" and es = "[]"]) (use me False in \<open>simp_all add: AtStore tr\<close>)
      then show ?thesis by blast
    next
      case True
      define s' where "s' = (shared c)\<lparr>cache := cache_set (cache (shared c)) (irq_ClientId q) (irq_RequestId q) (value_reply v)\<rparr>"
      have m: "incr_micro q (shared c) p = (s', AtSend v, [])" by (simp add: AtStore s'_def tr True value_reply_def)
      have at: "threads (advance i c) ! j = (if j = i then (q, AtSend v) else threads c ! j)" if "j < length qs" for j
        using that assms(4) i by (simp add: advance_step [OF t m] nth_list_update)
      have lengths: "length (threads c) = length qs" "length (threads (advance i c)) = length qs"
        using reqs by (auto simp: advance_step [OF t m])
      have "thread_ok ?d a order xs j (threads (advance i c) ! j)" if "j < length qs" for j
        using ok me that at [OF that] by (cases "j = i") (simp_all add: AtStore)
      moreover have "spec_reply a cl r = cache_get (cache s') cl r"
        if owed: "\<forall>t \<in> set (threads (advance i c)). \<not> owes ?d cl r t" for cl r
      proof (cases "cl = irq_ClientId q \<and> r = irq_RequestId q")
        case here: True
        then show ?thesis using me True by (simp add: AtStore s'_def rcache.get_set)
      next
        case elsewhere: False
        have "\<not> owes ?d cl r u" if mem: "u \<in> set (threads c)" for u
        proof -
          obtain j where j: "j < length qs" "u = threads c ! j" using mem lengths by (auto simp: in_set_conv_nth)
          have "threads (advance i c) ! j \<in> set (threads (advance i c))" using j lengths by simp
          then show ?thesis using owed j at [OF j(1)] t elsewhere by (cases "j = i") (auto simp: AtStore)
        qed
        then have "spec_reply a cl r = cache_get (cache (shared c)) cl r" using table by blast
        then show ?thesis using elsewhere by (auto simp: s'_def rcache.get_set)
      qed
      moreover have "map fst (threads (advance i c)) = qs" using advance_requests [OF t assms(4)] reqs by simp
      ultimately have "simulates s qs (advance i c) a order xs"
        using assms(1) by (simp add: simulates_def advance_step(1) [OF t m] s'_def serving_def)
      then show ?thesis by blast
    qed
  next
    case (AtSend v)
    have "simulates s qs (advance i c) a order xs"
      by (rule quiet [where p' = "Answered (Inr \<lparr>irs_NewValue = v, irs_RedirectTo = []\<rparr>)"]) 
        (use me in \<open>simp_all add: AtSend value_reply_def\<close>)
    then show ?thesis by blast
  next
    case (Answered r)
    have "simulates s qs (advance i c) a order xs"
      by (rule quiet [where p' = "Answered r" and es = "[]"]) (use me in \<open>simp_all add: Answered\<close>)
    then show ?thesis by blast
  qed
qed

lemma interleaved_simulates:
  assumes "interleaved s qs c" and "serving s" and "\<forall>q \<in> set qs. irq_CounterId q \<noteq> []" and "no_copies (dedupEnabled s) qs"
  shows "\<exists>a order xs. simulates s qs c a order xs"
  using assms(1)
proof induction
  case begin_threads
  then show ?case using simulates_ready [OF assms(2)] by blast
next
  case (one_step c i)
  then show ?case using simulates_advance [OF _ assms(4,3)] by blast
qed

text \<open>C10: Concurrent increments are linearizable.  On a serving leader let any requests run concurrently, no
  two of them copies of one request where deduplication applies.  At every moment of every
  interleaving there is an order of the requests that have taken effect, such that the abstract
  service, taking them one at a time in that order, has the counter values the server has, and
  gives each of them that has answered its very answer; and once all have answered, the order
  contains every request and the server's counters and replies are those of the abstract service.\<close>

theorem concurrent_requests_linearizable:
  assumes "interleaved s qs c" and "serving s" and "\<forall>q \<in> set qs. irq_CounterId q \<noteq> []" and "no_copies (dedupEnabled s) qs"
  shows "\<exists>order a xs. spec_run (dedupEnabled s) (abs_server s) (map (nth qs) order) = (a, xs)
    \<and> distinct order \<and> set order \<subseteq> {..<length qs}
    \<and> spec_value a = map_zero (counters (shared c))
    \<and> (\<forall>i < length qs. \<forall>r. snd (threads c ! i) = Answered r \<longrightarrow> (\<exists>x. r = Inr x \<and> (i, x) \<in> set (zip order xs)))
    \<and> ((\<forall>i < length qs. \<exists>r. snd (threads c ! i) = Answered r) \<longrightarrow>
        set order = {..<length qs} \<and> abs_server (shared c) = a)"
proof -
  obtain a order xs where sim: "simulates s qs c a order xs" using interleaved_simulates [OF assms] by blast
  have ok: "thread_ok (dedupEnabled s) a order xs i (threads c ! i)" if "i < length qs" for i
    using sim that unfolding simulates_def by blast
  have answered: "\<exists>x. r = Inr x \<and> (i, x) \<in> set (zip order xs)" if "i < length qs" "snd (threads c ! i) = Answered r" for i r
    using ok [OF that(1)] that(2) by (cases "threads c ! i") auto
  have quiescent: "set order = {..<length qs} \<and> abs_server (shared c) = a" if all: "\<forall>i < length qs. \<exists>r. snd (threads c ! i) = Answered r"
  proof
    have "i \<in> set order" if "i < length qs" for i
      using all answered that by (meson set_zip_leftD)
    then show "set order = {..<length qs}" using sim by (auto simp: simulates_def)
    have len: "length (threads c) = length qs" using sim unfolding simulates_def by (metis length_map)
    have "\<not> owes (dedupEnabled s) cl r t" if mem: "t \<in> set (threads c)" for cl r t
    proof -
      obtain i where i: "i < length qs" "t = threads c ! i" using mem len by (auto simp: in_set_conv_nth)
      then obtain q r' where "t = (q, Answered r')" using all by (metis prod.collapse)
      then show ?thesis by simp
    qed
    then have "spec_reply a cl r = cache_get (cache (shared c)) cl r" for cl r using sim unfolding simulates_def by blast
    moreover have "spec_value a = map_zero (counters (shared c))" using sim unfolding simulates_def by blast
    ultimately show "abs_server (shared c) = a" by (simp add: abs_server_def fun_eq_iff)
  qed
  have "spec_run (dedupEnabled s) (abs_server s) (map (nth qs) order) = (a, xs)" "distinct order" "set order \<subseteq> {..<length qs}"
    "spec_value a = map_zero (counters (shared c))"
    using sim unfolding simulates_def by blast+
  then show ?thesis using answered quiescent by blast
qed

definition three_requests :: "IncrRequest list" where
  "three_requests = [req_on ''x'' ''u'' 1, req_on ''x'' ''v'' 1, req_on ''y'' ''u'' 2]"

definition overtaking :: Race where
  "overtaking = fold advance [0, 0, 0, 1, 1, 1, 1, 2, 2, 2, 2, 2, 2, 0, 0, 0, 1, 1] (ready (srv3 ''s1'') three_requests)"

lemma concurrent_requests_linearizable_witness:
  "\<exists>order a xs. spec_run True (abs_server (srv3 ''s1'')) (map (nth three_requests) order) = (a, xs)
    \<and> set order = {..<3} \<and> abs_server (shared overtaking) = a \<and> spec_value a ''x'' = 2"
proof -
  have i: "interleaved (srv3 ''s1'') three_requests overtaking"
    unfolding overtaking_def
    by (rule interleaved_schedule [OF begin_threads]) (simp_all add: three_requests_def ready_def)
  have h: "serving (srv3 ''s1'')" "dedupEnabled (srv3 ''s1'') = True" "\<forall>q \<in> set three_requests. irq_CounterId q \<noteq> []"
    by code_simp+
  have n: "no_copies (dedupEnabled (srv3 ''s1'')) three_requests"
    by (simp add: no_copies_def three_requests_def same_identifier_def req_on_def nth_Cons')
  have all: "list_all (\<lambda>t. case snd t of Answered r \<Rightarrow> True | _ \<Rightarrow> False) (threads overtaking) \<and> length (threads overtaking) = 3
      \<and> map_zero (counters (shared overtaking)) ''x'' = 2"
    by code_simp
  have "\<exists>r. snd (threads overtaking ! i) = Answered r" if "i < length three_requests" for i
  proof -
    have "i < length (threads overtaking)" using that all by (simp add: three_requests_def)
    then have "case snd (threads overtaking ! i) of Answered r \<Rightarrow> True | _ \<Rightarrow> False"
      using all unfolding list_all_length by blast
    then show ?thesis by (cases "snd (threads overtaking ! i)") simp_all
  qed
  with concurrent_requests_linearizable [OF i h(1,3) n] all show ?thesis
    unfolding h(2) by (auto simp: three_requests_def)
qed

end
