(* ===== verification/Concurrent_Election.thy ===== *)
theory Concurrent_Election
  imports Election Counter_Service
begin

text \<open>
  The handlers of \<open>internal/server/election.go\<close> under concurrency.  gRPC runs every \<open>ViewChange\<close> in a
  goroutine of its own, the heartbeat runs \<open>initiateViewChange\<close> in another, and each of them reads
  and writes \<open>viewNumber\<close>, \<open>inViewChange\<close>, \<open>leaderAddr\<close> and \<open>viewVotes\<close> one after the other, with an
  atomic access or under the lock.  Here the handlers are cut at these accesses; a schedule is the
  list of the threads that take the next step.
\<close>

section \<open>The steps of a handler\<close>

text \<open>
  Where a thread is.  The first three are \<open>ViewChange\<close>: the load of the view number, the raising of
  the flag, the vote.  The next five are \<open>initiateViewChange\<close>: the increment of the view number, the
  flag, the vote for itself, the count, the broadcast.  Then \<open>commitView\<close>, with what its caller
  returns afterwards: the load and the compare-and-swap of its loop, the leader, the flag.
\<close>

datatype view_pc =
    AtLoad ViewChangeMsg
  | AtRaise ViewChangeMsg
  | AtVote ViewChangeMsg
  | AtAdd
  | AtSuspect int64 string
  | AtSeed int64 string
  | AtTally int64
  | AtBroadcast int64
  | AtRead int64 "ViewChangeAck option"
  | AtSwap int64 int64 "ViewChangeAck option"
  | AtLead int64 "ViewChangeAck option"
  | AtOpen int64 "ViewChangeAck option"
  | Returned "panic + ViewChangeAck option"

definition put_vote :: "int64 \<Rightarrow> string \<Rightarrow> (string, bool) gomap \<Rightarrow> Server \<Rightarrow> Server" where
  "put_vote v voter fresh s =
     s\<lparr>viewVotes := AList.update v
         (AList.update voter True (case map_of (viewVotes s) v of None \<Rightarrow> fresh | Some b \<Rightarrow> b)) (viewVotes s)\<rparr>"

fun view_micro :: "Server \<Rightarrow> view_pc \<Rightarrow> Server \<times> view_pc \<times> effect list" where
  "view_micro s (AtLoad msg) =
     (let currentView = viewNumber s; v = vcm_ViewNumber msg in
      (s, if v <s currentView then Returned (Inr (Some \<lparr>vca_Accepted = False, vca_ViewNumber = currentView\<rparr>))
          else if currentView <s v then AtRaise msg else AtVote msg, []))"
| "view_micro s (AtRaise msg) = (s\<lparr>inViewChange := 1\<rparr>, AtVote msg, [])"
| "view_micro s (AtVote msg) =
     (let v = vcm_ViewNumber msg;
          s' = put_vote v (vcm_SenderId msg) [(self s, True)] s;
          ack = \<lparr>vca_Accepted = True, vca_ViewNumber = v\<rparr>
      in (s', if vote_count s' v = majority s' then AtRead v (Some ack) else Returned (Inr (Some ack)), []))"
| "view_micro s AtAdd =
     (let newView = viewNumber s + 1 in
      (s\<lparr>viewNumber := newView\<rparr>,
       (case leaderOf (allServers s) newView of Inl p \<Rightarrow> Returned (Inl p) | Inr l \<Rightarrow> AtSuspect newView l), []))"
| "view_micro s (AtSuspect v l) = (s\<lparr>inViewChange := 1\<rparr>, AtSeed v l, [])"
| "view_micro s (AtSeed v l) = (put_vote v (self s) [] (s\<lparr>leaderAddr := l\<rparr>), AtTally v, [])"
| "view_micro s (AtTally v) =
     (s, if majority s \<le> vote_count s v then AtRead v None else AtBroadcast v, [])"
| "view_micro s (AtBroadcast v) = (s, Returned (Inr None), broadcastViewChange s v)"
| "view_micro s (AtRead v k) =
     (s, if v <s viewNumber s then Returned (Inr k)
         else if v = viewNumber s then AtLead v k else AtSwap v (viewNumber s) k, [])"
| "view_micro s (AtSwap v current k) =
     (if viewNumber s = current then (s\<lparr>viewNumber := v\<rparr>, AtLead v k, []) else (s, AtRead v k, []))"
| "view_micro s (AtLead v k) =
     (case leaderOf (allServers s) v of
        Inl p \<Rightarrow> (s, Returned (Inl p), [])
      | Inr newLeader \<Rightarrow> (s\<lparr>leaderAddr := newLeader\<rparr>, AtOpen v k, []))"
| "view_micro s (AtOpen v k) = (s\<lparr>inViewChange := 0\<rparr>, Returned (Inr k), [])"
| "view_micro s (Returned r) = (s, Returned r, [])"

text \<open>One thread on its own.\<close>

fun view_alone :: "nat \<Rightarrow> Server \<times> view_pc \<times> effect list \<Rightarrow> Server \<times> view_pc \<times> effect list" where
  "view_alone 0 st = st"
| "view_alone (Suc n) (s, p, es) =
     (case view_micro s p of (s', p', es') \<Rightarrow> view_alone n (s', p', es @ es'))"

lemma view_alone_returned: "view_alone n (s, Returned r, es) = (s, Returned r, es)"
  by (induction n) simp_all

text \<open>C21: The cut handlers are the handlers.  A thread that nobody interrupts returns within seven
  steps, and it leaves the server, gives the answer, starts the calls and panics exactly as
  \<open>ViewChange\<close> and \<open>initiateViewChange\<close> do, from every state of the server.\<close>

theorem uninterrupted_election:
  "(case view_alone 7 (s, AtLoad msg, []) of (s1, p1, es1) \<Rightarrow>
      (case ViewChange s msg of
         Inl e \<Rightarrow> p1 = Returned (Inl e)
       | Inr (t, ack) \<Rightarrow> s1 = t \<and> p1 = Returned (Inr (Some ack)) \<and> es1 = []))
   \<and> (case view_alone 7 (s, AtAdd, []) of (s2, p2, es2) \<Rightarrow>
      (case initiateViewChange s of
         Inl e \<Rightarrow> p2 = Returned (Inl e)
       | Inr (t, es) \<Rightarrow> s2 = t \<and> p2 = Returned (Inr None) \<and> es2 = es))"
  by (auto simp: eval_nat_numeral ViewChange_def initiateViewChange_def commitView_def put_vote_def Let_def
      split: sum.splits)

section \<open>Schedules\<close>

type_synonym view_race = "Server \<times> view_pc list"

definition view_turn :: "nat \<Rightarrow> view_race \<Rightarrow> view_race" where
  "view_turn i c =
     (if i < length (snd c)
      then (case view_micro (fst c) (snd c ! i) of (s', p', es) \<Rightarrow> (s', (snd c)[i := p'])) else c)"

definition run_views :: "nat list \<Rightarrow> view_race \<Rightarrow> view_race" where
  "run_views is c = fold view_turn is c"

fun starting :: "view_pc \<Rightarrow> bool" where
  "starting (AtLoad msg) = True"
| "starting AtAdd = True"
| "starting _ = False"

fun returned :: "view_pc \<Rightarrow> bool" where
  "returned (Returned r) = True"
| "returned _ = False"

text \<open>
  The invariant of a race that started from \<open>s0\<close>: no message is for a view above \<open>M\<close>, and a view
  number beyond it needs an increment, of which a thread makes one.
\<close>

definition forward :: "Server \<Rightarrow> Server \<Rightarrow> bool" where
  "forward s s' \<longleftrightarrow> sint (viewNumber s) \<le> sint (viewNumber s') \<and> (\<forall>v. voters s v \<subseteq> voters s' v)
     \<and> allServers s' = allServers s \<and> self s' = self s"

definition supported :: "Server \<Rightarrow> int64 \<Rightarrow> bool" where
  "supported s v \<longleftrightarrow> majority s \<le> card (voters s v)"

fun pc_ok :: "Server \<Rightarrow> int \<Rightarrow> Server \<Rightarrow> view_pc \<Rightarrow> bool" where
  "pc_ok s0 M s (AtLoad msg) \<longleftrightarrow> sint (vcm_ViewNumber msg) \<le> M"
| "pc_ok s0 M s (AtRaise msg) \<longleftrightarrow> sint (viewNumber s0) \<le> sint (vcm_ViewNumber msg) \<and> sint (vcm_ViewNumber msg) \<le> M"
| "pc_ok s0 M s (AtVote msg) \<longleftrightarrow> sint (viewNumber s0) \<le> sint (vcm_ViewNumber msg) \<and> sint (vcm_ViewNumber msg) \<le> M"
| "pc_ok s0 M s AtAdd \<longleftrightarrow> True"
| "pc_ok s0 M s (AtSuspect v l) \<longleftrightarrow> sint (viewNumber s0) \<le> sint v \<and> sint v \<le> sint (viewNumber s) \<and> l = leader_at (allServers s0) v"
| "pc_ok s0 M s (AtSeed v l) \<longleftrightarrow> sint (viewNumber s0) \<le> sint v \<and> sint v \<le> sint (viewNumber s) \<and> l = leader_at (allServers s0) v"
| "pc_ok s0 M s (AtTally v) \<longleftrightarrow> sint (viewNumber s0) \<le> sint v \<and> sint v \<le> sint (viewNumber s)"
| "pc_ok s0 M s (AtBroadcast v) \<longleftrightarrow> sint (viewNumber s0) \<le> sint v \<and> sint v \<le> sint (viewNumber s)"
| "pc_ok s0 M s (AtRead v k) \<longleftrightarrow> sint (viewNumber s0) \<le> sint v \<and> sint v \<le> max M (sint (viewNumber s)) \<and> supported s v"
| "pc_ok s0 M s (AtSwap v current k) \<longleftrightarrow>
     sint current < sint v \<and> sint (viewNumber s0) \<le> sint v \<and> sint v \<le> max M (sint (viewNumber s)) \<and> supported s v"
| "pc_ok s0 M s (AtLead v k) \<longleftrightarrow> sint (viewNumber s0) \<le> sint v \<and> sint v \<le> sint (viewNumber s) \<and> supported s v"
| "pc_ok s0 M s (AtOpen v k) \<longleftrightarrow> sint (viewNumber s0) \<le> sint v \<and> sint v \<le> sint (viewNumber s) \<and> supported s v"
| "pc_ok s0 M s (Returned r) \<longleftrightarrow> (\<exists>k. r = Inr k)"

definition server_ok :: "Server \<Rightarrow> Server \<Rightarrow> bool" where
  "server_ok s0 s \<longleftrightarrow> forward s0 s \<and> votes_ok (viewVotes s) \<and> (inViewChange s = 0 \<or> inViewChange s = 1)
     \<and> (\<exists>v. sint (viewNumber s0) \<le> sint v \<and> sint v \<le> sint (viewNumber s) \<and> leaderAddr s = leader_at (allServers s0) v)"

lemma forward_refl [simp]: "forward s s"
  by (simp add: forward_def)

lemma forward_trans [trans]: "forward s t \<Longrightarrow> forward t u \<Longrightarrow> forward s u"
  unfolding forward_def by (metis order_trans)

lemma forward_supported: "forward s s' \<Longrightarrow> supported s v \<Longrightarrow> supported s' v"
  unfolding forward_def supported_def majority_def
  by (metis (no_types) card_mono finite_voters le_trans)

lemma forward_pc_ok:
  assumes "forward s s'" and "pc_ok s0 M s p"
  shows "pc_ok s0 M s' p"
proof -
  have "sint (viewNumber s) \<le> sint (viewNumber s')" using assms(1) by (simp add: forward_def)
  then show ?thesis using assms forward_supported [OF assms(1)] by (cases p) auto
qed

text \<open>A vote adds its voter, and in a fresh ballot those it starts with.\<close>

lemma put_vote_simps [simp]:
  "viewNumber (put_vote v x d s) = viewNumber s" "allServers (put_vote v x d s) = allServers s"
  "self (put_vote v x d s) = self s" "inViewChange (put_vote v x d s) = inViewChange s"
  "leaderAddr (put_vote v x d s) = leaderAddr s" "majority (put_vote v x d s) = majority s"
  by (simp_all add: put_vote_def)

lemma put_vote_voters:
  "votes_ok (viewVotes s) \<Longrightarrow> voters (put_vote v x d s) u =
     (if u = v then insert x (if voters s v = {} then fst ` set d else voters s v) else voters s u)"
  by (auto simp: put_vote_def voters_def amap.lookup_put fst_set_update ballot_ok_def
      dest: votes_ok_get split: option.splits)

lemma put_vote_ok:
  "votes_ok (viewVotes s) \<Longrightarrow> map_ok d \<Longrightarrow> list_all (\<lambda>(v, yes). yes) d \<Longrightarrow> votes_ok (viewVotes (put_vote v x d s))"
  using ballot_default_ok [of d "viewVotes s" v] by (simp add: put_vote_def votes_ok_put ballot_ok_put)

lemma put_vote_forward: "votes_ok (viewVotes s) \<Longrightarrow> forward s (put_vote v x d s)"
  by (auto simp: forward_def put_vote_voters)

lemma set_fields_forward [simp]:
  "forward s (s\<lparr>inViewChange := f\<rparr>)" "forward s (s\<lparr>leaderAddr := l\<rparr>)"
  "sint (viewNumber s) \<le> sint v \<Longrightarrow> forward s (s\<lparr>viewNumber := v\<rparr>)"
  by (simp_all add: forward_def)

lemma server_okI:
  assumes "server_ok s0 s" and "forward s s'" and "votes_ok (viewVotes s')" and "inViewChange s' = 0 \<or> inViewChange s' = 1"
    and "leaderAddr s' = leaderAddr s \<or> (\<exists>v. sint (viewNumber s0) \<le> sint v \<and> sint v \<le> sint (viewNumber s')
      \<and> leaderAddr s' = leader_at (allServers s0) v)"
  shows "server_ok s0 s'"
proof -
  have "sint (viewNumber s) \<le> sint (viewNumber s')" using assms(2) by (simp add: forward_def)
  then have "\<exists>v. sint (viewNumber s0) \<le> sint v \<and> sint v \<le> sint (viewNumber s')
      \<and> leaderAddr s' = leader_at (allServers s0) v"
    using assms(1,5) unfolding server_ok_def by (metis order_trans)
  then show ?thesis using assms(1-4) forward_trans unfolding server_ok_def by blast
qed

text \<open>A step of one thread keeps the server good, the thread good, and moves everything forward.\<close>

lemma view_micro_ok:
  assumes "wf_server s0" and "server_ok s0 s" and "pc_ok s0 M s p" and "view_micro s p = (s', p', es)"
    and "p = AtAdd \<longrightarrow> sint (viewNumber s) < 2 ^ 63 - 1"
  shows "server_ok s0 s' \<and> forward s s' \<and> pc_ok s0 M s' p'
    \<and> sint (viewNumber s') \<le> max M (sint (viewNumber s) + (if p = AtAdd then 1 else 0))"
proof -
  have all: "allServers s = allServers s0" "allServers s0 \<noteq> []" and nonneg: "0 \<le> sint (viewNumber s0)"
    and up: "sint (viewNumber s0) \<le> sint (viewNumber s)" and votes: "votes_ok (viewVotes s)"
    and flag: "inViewChange s = 0 \<or> inViewChange s = 1"
    using assms(1,2) all_nonempty by (auto simp: server_ok_def forward_def wf_server_def)
  have leader: "leaderOf (allServers s0) v = Inr (leader_at (allServers s0) v)" if "sint (viewNumber s0) \<le> sint v" for v
    using that nonneg all by (intro leaderOf_leader_at) linarith+
  show ?thesis
  proof (cases p)
    case (AtVote msg)
    let ?s = "put_vote (vcm_ViewNumber msg) (vcm_SenderId msg) [(self s, True)] s"
    have ok: "votes_ok (viewVotes ?s)" using votes by (intro put_vote_ok) (simp_all add: map_ok_def)
    have s': "s' = ?s" using assms(4) AtVote by (auto simp: Let_def)
    have "pc_ok s0 M s' p'"
      using assms(3,4) AtVote vote_count_card [OF ok] by (auto simp: Let_def supported_def)
    moreover have "server_ok s0 s'"
      using ok flag s' by (intro server_okI [OF assms(2)]) (auto intro: put_vote_forward [OF votes])
    ultimately show ?thesis using AtVote s' put_vote_forward [OF votes] by simp
  next
    case (AtSeed v l)
    let ?t = "s\<lparr>leaderAddr := l\<rparr>"
    have t: "votes_ok (viewVotes ?t)" using votes by simp
    have ok: "votes_ok (viewVotes (put_vote v (self s) [] ?t))" using put_vote_ok [OF t, of "[]"] by (simp add: map_ok_def)
    have s': "s' = put_vote v (self s) [] ?t" "p' = AtTally v" using assms(4) AtSeed by auto
    have "forward s ?t" by simp
    also have "forward ?t s'" unfolding s' by (rule put_vote_forward [OF t])
    finally have f: "forward s s'" .
    then show ?thesis
      using server_okI [OF assms(2) f] ok flag s' assms(3) AtSeed by auto
  next
    case AtAdd
    have n: "sint (viewNumber s + 1) = sint (viewNumber s) + 1" using assms(5) AtAdd by (simp add: sint64_inc)
    have s': "s' = s\<lparr>viewNumber := viewNumber s + 1\<rparr>" "p' = AtSuspect (viewNumber s + 1) (leader_at (allServers s0) (viewNumber s + 1))"
      using assms(4) AtAdd leader [of "viewNumber s + 1"] n up all by (auto simp: Let_def)
    then show ?thesis
      using AtAdd n up server_okI [OF assms(2), of s'] votes flag by simp
  next
    case (AtSwap v current k)
    show ?thesis
    proof (cases "viewNumber s = current")
      case True
      then have s': "s' = s\<lparr>viewNumber := v\<rparr>" "p' = AtLead v k" using assms(4) AtSwap by auto
      have v: "sint (viewNumber s) < sint v" "supported s v" "sint (viewNumber s0) \<le> sint v" "sint v \<le> max M (sint (viewNumber s))"
        using assms(3) AtSwap True by simp_all
      have f: "forward s s'" using v(1) s' by simp
      then show ?thesis
        using v s' server_okI [OF assms(2) f] votes flag forward_supported [OF f v(2)] AtSwap by simp
    qed (use assms AtSwap in auto)
  next
    case (AtLead v k)
    then have v: "sint (viewNumber s0) \<le> sint v" "sint v \<le> sint (viewNumber s)" "supported s v" using assms(3) by simp_all
    have s': "s' = s\<lparr>leaderAddr := leader_at (allServers s0) v\<rparr>" "p' = AtOpen v k"
      using assms(4) AtLead leader [OF v(1)] all by auto
    have f: "forward s s'" using s' by simp
    show ?thesis
      using server_okI [OF assms(2) f] v s' votes flag forward_supported [OF f v(3)] AtLead by auto
  next
    case (AtTally v)
    then show ?thesis
      using assms votes up vote_count_card [OF votes, of v] by (auto simp: supported_def)
  next
    case (AtRead v k)
    then show ?thesis using assms by (auto simp: int64_less int64_eq not_less order_le_less)
  next
    case (AtLoad msg)
    then show ?thesis using assms up by (auto simp: Let_def int64_less)
  next
    case (AtRaise msg)
    have f: "forward s (s\<lparr>inViewChange := 1\<rparr>)" by simp
    show ?thesis using AtRaise assms(3,4) server_okI [OF assms(2) f] votes by auto
  next
    case (AtSuspect v l)
    have f: "forward s (s\<lparr>inViewChange := 1\<rparr>)" by simp
    show ?thesis using AtSuspect assms(3,4) server_okI [OF assms(2) f] votes by auto
  next
    case (AtOpen v k)
    have f: "forward s (s\<lparr>inViewChange := 0\<rparr>)" by simp
    show ?thesis using AtOpen assms(3,4) server_okI [OF assms(2) f] votes by auto
  qed (use assms in auto)
qed

lemma micro_never_adds: "view_micro s p = (s', p', es) \<Longrightarrow> p' \<noteq> AtAdd"
  by (cases p) (auto simp: Let_def split: if_splits sum.splits)

lemma count_after_update:
  "i < length xs \<Longrightarrow> P y \<Longrightarrow> length (filter P (xs[i := y])) = length (filter P xs) + (if P (xs ! i) then 0 else 1)"
proof (induction xs arbitrary: i)
  case (Cons x xs)
  then show ?case by (cases i) auto
qed simp

definition increments :: "view_pc list \<Rightarrow> nat" where
  "increments ps = length (filter (\<lambda>p. p \<noteq> AtAdd) ps)"

definition race_ok :: "Server \<Rightarrow> int \<Rightarrow> view_race \<Rightarrow> bool" where
  "race_ok s0 M c \<longleftrightarrow> server_ok s0 (fst c) \<and> (\<forall>p \<in> set (snd c). pc_ok s0 M (fst c) p)
     \<and> sint (viewNumber (fst c)) \<le> M + int (increments (snd c))"

lemma view_turn_length [simp]: "length (snd (view_turn i c)) = length (snd c)"
  by (simp add: view_turn_def split: prod.splits)

lemma run_views_Nil [simp]: "run_views [] c = c"
  and run_views_snoc: "run_views (is @ [i]) c = view_turn i (run_views is c)"
  and run_views_append: "run_views (is @ js) c = run_views js (run_views is c)"
  by (simp_all add: run_views_def)

lemma run_views_length [simp]: "length (snd (run_views is c)) = length (snd c)"
  by (induction "is" rule: rev_induct) (simp_all add: run_views_snoc)

text \<open>The turn of an existing thread, as a step of its server and its position.\<close>

lemma view_turn_cases:
  obtains "view_turn i c = c" "\<not> i < length (snd c)"
  | s' p' es where "i < length (snd c)" "view_micro (fst c) (snd c ! i) = (s', p', es)"
      "view_turn i c = (s', (snd c)[i := p'])"
proof (cases "i < length (snd c)")
  case True
  obtain s' p' es where "view_micro (fst c) (snd c ! i) = (s', p', es)" by (rule prod_cases3)
  then show ?thesis using True that(2) by (simp add: view_turn_def)
next
  case False
  then show ?thesis using that(1) by (simp add: view_turn_def)
qed

lemma view_turn_ok:
  assumes "wf_server s0" and "race_ok s0 M c" and "M + int (length (snd c)) < 2 ^ 63"
  shows "race_ok s0 M (view_turn i c) \<and> forward (fst c) (fst (view_turn i c))"
proof (cases rule: view_turn_cases [of i c])
  case 1
  then show ?thesis using assms(2) by simp
next
  case (2 s' p' es)
  let ?p = "snd c ! i"
  have p: "pc_ok s0 M (fst c) ?p" "server_ok s0 (fst c)" using assms(2) 2(1) by (simp_all add: race_ok_def)
  have n: "int (increments ((snd c)[i := p'])) = int (increments (snd c)) + (if ?p = AtAdd then 1 else 0)"
    using count_after_update [OF 2(1), of "\<lambda>p. p \<noteq> AtAdd" p'] micro_never_adds [OF 2(2)] by (simp add: increments_def)
  have "increments ((snd c)[i := p']) \<le> length (snd c)" unfolding increments_def by (metis length_filter_le length_list_update)
  then have "?p = AtAdd \<longrightarrow> sint (viewNumber (fst c)) < 2 ^ 63 - 1"
    using assms(2,3) n by (auto simp: race_ok_def)
  from view_micro_ok [OF assms(1) p(2,1) 2(2) this]
  have step: "server_ok s0 s'" "forward (fst c) s'" "pc_ok s0 M s' p'"
    "sint (viewNumber s') \<le> max M (sint (viewNumber (fst c)) + (if ?p = AtAdd then 1 else 0))" by blast+
  have "\<forall>q \<in> set ((snd c)[i := p']). pc_ok s0 M s' q"
    using assms(2) step(3) forward_pc_ok [OF step(2)] set_update_subset_insert [of "snd c" i p']
    unfolding race_ok_def by blast
  moreover have "sint (viewNumber s') \<le> M + int (increments ((snd c)[i := p']))"
    using step(4) n assms(2) by (auto simp: race_ok_def)
  ultimately show ?thesis using step(1,2) 2(3) by (simp add: race_ok_def)
qed

lemma run_views_ok:
  assumes "wf_server s0" and "race_ok s0 M c" and "M + int (length (snd c)) < 2 ^ 63"
  shows "race_ok s0 M (run_views is c) \<and> forward (fst c) (fst (run_views is c))"
proof (induction "is" rule: rev_induct)
  case (snoc i "is")
  then show ?case
    using view_turn_ok [OF assms(1), of M "run_views is c" i] assms(3) forward_trans by (auto simp: run_views_snoc)
qed (simp add: assms(2))

lemma race_ok_start:
  assumes "wf_server s" and "list_all starting ps" and "\<forall>msg. AtLoad msg \<in> set ps \<longrightarrow> sint (vcm_ViewNumber msg) \<le> M"
    and "sint (viewNumber s) \<le> M"
  shows "race_ok s M (s, ps)"
proof -
  have "pc_ok s M s p" if "p \<in> set ps" for p
  proof -
    have "starting p" using assms(2) that by (simp add: list_all_iff)
    then show ?thesis using assms(3) that by (cases p) auto
  qed
  moreover have "server_ok s s"
    using assms(1) wf_leader_at [OF assms(1)] by (auto simp: server_ok_def wf_server_def)
  ultimately show ?thesis using assms(4) by (simp add: race_ok_def)
qed

text \<open>C17: Elections only move forward, in every interleaving.  From a well-formed server, let any number of
  \<open>ViewChange\<close> messages and heartbeats run at once, in any schedule.  No thread panics; from any
  moment to any later one the view number does not go back and no recorded vote is lost; the leader
  the server names is that of a view it has been at; and a thread is about to commit a view only
  with a majority of votes recorded for it.\<close>

theorem concurrent_views_forward:
  assumes "wf_server s" and "list_all starting ps"
    and "\<forall>msg. AtLoad msg \<in> set ps \<longrightarrow> sint (vcm_ViewNumber msg) \<le> M" and "sint (viewNumber s) \<le> M"
    and "M + int (length ps) < 2 ^ 63"
    and "run_views is (s, ps) = (s1, ps1)" and "run_views js (s1, ps1) = (s2, ps2)"
  shows "sint (viewNumber s1) \<le> sint (viewNumber s2) \<and> (\<forall>v. voters s1 v \<subseteq> voters s2 v)
    \<and> (\<forall>e. Returned (Inl e) \<notin> set ps2)
    \<and> (\<exists>v. sint (viewNumber s) \<le> sint v \<and> sint v \<le> sint (viewNumber s2) \<and> leaderAddr s2 = leader_at (allServers s) v)
    \<and> (\<forall>v k. AtLead v k \<in> set ps2 \<or> AtOpen v k \<in> set ps2 \<longrightarrow> majority s \<le> vote_count s2 v)"
proof -
  have ok1: "race_ok s M (s1, ps1)" and len: "length ps1 = length ps"
    using run_views_ok [OF assms(1) race_ok_start [OF assms(1-4)], of "is"] assms(5,6)
      run_views_length [of "is" "(s, ps)"] by simp_all
  have ok2: "race_ok s M (s2, ps2)" "forward s1 s2"
    using run_views_ok [OF assms(1) ok1, of js] assms(5,7) len by simp_all
  have maj: "majority s2 = majority s" using ok2(1) by (simp add: race_ok_def server_ok_def forward_def majority_def)
  have votes: "votes_ok (viewVotes s2)" using ok2(1) by (simp add: race_ok_def server_ok_def)
  have pcs: "pc_ok s M s2 p" if "p \<in> set ps2" for p using ok2(1) that by (simp add: race_ok_def)
  have "Returned (Inl e) \<notin> set ps2" for e using pcs by fastforce
  moreover have "majority s \<le> vote_count s2 v" if "AtLead v k \<in> set ps2 \<or> AtOpen v k \<in> set ps2" for v k
    using that pcs [of "AtLead v k"] pcs [of "AtOpen v k"] vote_count_card [OF votes, of v] maj
    by (auto simp: supported_def)
  ultimately show ?thesis
    using ok2 unfolding forward_def race_ok_def server_ok_def by simp
qed

text \<open>A fresh server of three, two votes for view 1 and its own suspicion, interleaved.\<close>

definition three_threads :: "view_pc list" where
  "three_threads = [AtLoad (vote_msg 1 ''s2''), AtAdd, AtLoad (vote_msg 1 ''s3'')]"

lemma three_threads_ok:
  "wf_server (srv3 ''s1'')" "list_all starting three_threads"
  "\<forall>msg. AtLoad msg \<in> set three_threads \<longrightarrow> sint (vcm_ViewNumber msg) \<le> 1"
  "sint (viewNumber (srv3 ''s1'')) \<le> 1" "1 + int (length three_threads) < 2 ^ 63"
  by (simp_all add: srv3_def wf_New three_threads_def vote_msg_def) (simp add: New_def Let_def)

lemma concurrent_views_forward_witness:
  "sint (viewNumber (srv3 ''s1'')) \<le>
     sint (viewNumber (fst (run_views [2, 0, 1, 0, 0, 1, 1, 0, 0, 0, 2, 2] (srv3 ''s1'', three_threads))))"
  using concurrent_views_forward [OF three_threads_ok, of "[]" _ _ "[2, 0, 1, 0, 0, 1, 1, 0, 0, 0, 2, 2]"]
  by (metis prod.collapse run_views_Nil)

section \<open>A majority is never overheard\<close>

fun carries :: "int64 \<Rightarrow> view_pc \<Rightarrow> bool" where
  "carries v (AtTally u) \<longleftrightarrow> u = v"
| "carries v (AtRead u k) \<longleftrightarrow> u = v"
| "carries v (AtSwap u current k) \<longleftrightarrow> u = v"
| "carries v _ \<longleftrightarrow> False"

definition heard :: "Server \<Rightarrow> int64 \<Rightarrow> view_race \<Rightarrow> bool" where
  "heard s0 v c \<longleftrightarrow>
     (card (voters s0 v) < majority s0 \<and> majority s0 \<le> card (voters (fst c) v) \<longrightarrow>
       sint v \<le> sint (viewNumber (fst c)) \<or> (\<exists>p \<in> set (snd c). carries v p))"

text \<open>The vote that completes a majority is seen by the thread that casts it.\<close>

lemma micro_heard:
  assumes "server_ok s0 s" and "view_micro s p = (s', p', es)" and "2 \<le> majority s0"
    and "majority s0 \<le> card (voters s' v)" and "carries v p \<or> card (voters s v) < majority s0"
  shows "sint v \<le> sint (viewNumber s') \<or> carries v p'"
proof -
  have votes: "votes_ok (viewVotes s)" and maj: "majority s = majority s0"
    using assms(1) by (simp_all add: server_ok_def forward_def majority_def)
  show ?thesis
  proof (cases p)
    case (AtVote msg)
    let ?v = "vcm_ViewNumber msg"
    let ?s = "put_vote ?v (vcm_SenderId msg) [(self s, True)] s"
    have s': "s' = ?s" using assms(2) AtVote by (auto simp: Let_def)
    have few: "card (voters s v) < majority s0" using assms(5) AtVote by simp
    have ok: "votes_ok (viewVotes ?s)" using votes by (intro put_vote_ok) (simp_all add: map_ok_def)
    have v: "v = ?v" using few assms(4) by (simp add: s' put_vote_voters [OF votes] split: if_splits)
    have "card (voters ?s v) \<le> max 2 (Suc (card (voters s v)))"
      by (auto simp: put_vote_voters [OF votes] v card_insert_if)
    then have "card (voters ?s v) = majority s0" using few assms(3,4) by (simp add: s' max_def split: if_splits)
    then show ?thesis using assms(2) AtVote vote_count_card [OF ok, of v] maj v by (auto simp: Let_def)
  next
    case (AtSeed u l)
    have "voters s' v = (if v = u then voters s' v else voters s v)"
      using assms(2) AtSeed votes by (auto simp: put_vote_voters)
    then show ?thesis using assms(2,4,5) AtSeed by (auto split: if_splits)
  next
    case (AtTally u)
    then show ?thesis using assms vote_count_card [OF votes, of u] maj by auto
  next
    case (AtRead u k)
    then have "u = v" using assms(5) by (auto split: if_splits) (use assms(2,4) AtRead in auto)
    then show ?thesis using assms(2) AtRead by (auto simp: int64_less split: if_splits)
  next
    case (AtSwap u current k)
    then show ?thesis using assms by (auto split: if_splits)
  qed (use assms in \<open>auto simp: Let_def split: sum.splits\<close>)
qed

lemma view_turn_heard:
  assumes "wf_server s0" and "race_ok s0 M c" and "M + int (length (snd c)) < 2 ^ 63" and "2 \<le> majority s0"
    and "heard s0 v c"
  shows "heard s0 v (view_turn i c)"
proof (cases rule: view_turn_cases [of i c])
  case (2 s' p' es)
  have fwd: "sint (viewNumber (fst c)) \<le> sint (viewNumber s')"
    using view_turn_ok [OF assms(1-3), of i] 2(3) by (simp add: forward_def)
  show ?thesis unfolding heard_def
  proof (intro impI)
    assume now: "card (voters s0 v) < majority s0 \<and> majority s0 \<le> card (voters (fst (view_turn i c)) v)"
    have i: "p' \<in> set (snd (view_turn i c))" using 2(1,3) by (simp add: set_update_memI)
    have ok: "server_ok s0 (fst c)" using assms(2) by (simp add: race_ok_def)
    consider "carries v (snd c ! i) \<or> card (voters (fst c) v) < majority s0"
      | "sint v \<le> sint (viewNumber (fst c))"
      | j where "j < length (snd c)" "j \<noteq> i" "carries v (snd c ! j)"
      using assms(5) now unfolding heard_def by (metis in_set_conv_nth not_le)
    then show "sint v \<le> sint (viewNumber (fst (view_turn i c))) \<or> (\<exists>p \<in> set (snd (view_turn i c)). carries v p)"
    proof cases
      case 1
      then show ?thesis using micro_heard [OF ok 2(2) assms(4) _ 1] now i 2(3) by auto
    next
      case 2
      then show ?thesis using fwd \<open>view_turn i c = (s', (snd c)[i := p'])\<close> by simp
    next
      case (3 j)
      then have "snd (view_turn i c) ! j = snd c ! j" using \<open>view_turn i c = (s', (snd c)[i := p'])\<close> by simp
      then show ?thesis using 3 by (metis nth_mem view_turn_length)
    qed
  qed
qed (use assms(5) in simp)

text \<open>C18: A majority that is heard is never missed.  The votes of one view come in by different threads, and
  \<open>ViewChange\<close> commits only when it counts exactly a majority.  Still, whatever the schedule: when all
  threads have returned and the server has recorded a majority for a view it had no majority for
  before, it is at that view or a later one.  (Among at least two servers: alone, the first foreign
  vote would step over the majority of one.)\<close>

theorem majority_never_missed:
  assumes "wf_server s" and "list_all starting ps"
    and "\<forall>msg. AtLoad msg \<in> set ps \<longrightarrow> sint (vcm_ViewNumber msg) \<le> M" and "sint (viewNumber s) \<le> M"
    and "M + int (length ps) < 2 ^ 63" and "peers s \<noteq> []"
    and "run_views is (s, ps) = (s', ps')" and "list_all returned ps'"
    and "vote_count s v < majority s" and "majority s \<le> vote_count s' v"
  shows "sint v \<le> sint (viewNumber s')"
proof -
  have "length (allServers s) = length (self s # peers s)" using assms(1) unfolding wf_server_def by (metis length_sort)
  then have two: "2 \<le> majority s" using assms(6) by (cases "peers s") (simp_all add: majority_def)
  have start: "race_ok s M (s, ps)" by (rule race_ok_start [OF assms(1-4)])
  have "heard s v (run_views is (s, ps))"
  proof (induction "is" rule: rev_induct)
    case (snoc i "is")
    have "race_ok s M (run_views is (s, ps))" using run_views_ok [OF assms(1) start] assms(5) by simp
    from view_turn_heard [OF assms(1) this _ two snoc] show ?case using assms(5) by (simp add: run_views_snoc)
  qed (simp add: heard_def)
  moreover have "race_ok s M (s', ps')" using run_views_ok [OF assms(1) start, of "is"] assms(5,7) by simp
  then have "votes_ok (viewVotes s')" by (simp add: race_ok_def server_ok_def)
  moreover have "votes_ok (viewVotes s)" using assms(1) by (simp add: wf_server_def)
  moreover have "\<not> carries v p" if "p \<in> set ps'" for p
    using assms(8) that by (cases p) (auto simp: list_all_iff)
  ultimately show ?thesis using assms(7,9,10) by (auto simp: heard_def vote_count_card)
qed

section \<open>One election at a time\<close>

text \<open>Where a thread may be while all messages are for the view \<open>w\<close>.\<close>

fun about :: "int64 \<Rightarrow> view_pc \<Rightarrow> bool" where
  "about w (AtLoad msg) \<longleftrightarrow> vcm_ViewNumber msg = w"
| "about w (AtRaise msg) \<longleftrightarrow> vcm_ViewNumber msg = w"
| "about w (AtVote msg) \<longleftrightarrow> vcm_ViewNumber msg = w"
| "about w (AtRead v k) \<longleftrightarrow> v = w"
| "about w (AtSwap v current k) \<longleftrightarrow> v = w"
| "about w (AtLead v k) \<longleftrightarrow> v = w"
| "about w (AtOpen v k) \<longleftrightarrow> v = w"
| "about w (Returned r) \<longleftrightarrow> True"
| "about w _ \<longleftrightarrow> False"

fun at_lead :: "view_pc \<Rightarrow> bool" where
  "at_lead (AtLead v k) = True"
| "at_lead _ = False"

definition agreeing :: "int64 \<Rightarrow> view_race \<Rightarrow> bool" where
  "agreeing w c \<longleftrightarrow> list_all (about w) (snd c)
     \<and> (leaderAddr (fst c) = leader_at (allServers (fst c)) (viewNumber (fst c))
        \<or> (\<exists>p \<in> set (snd c). at_lead p) \<and> viewNumber (fst c) = w)"

lemma micro_about: "about w p \<Longrightarrow> view_micro s p = (s', p', es) \<Longrightarrow> about w p'"
  by (cases p) (auto simp: Let_def split: if_splits sum.splits)

text \<open>Between the compare-and-swap and the new leader, the thread of the commit is the one to wait for.\<close>

lemma micro_leader:
  assumes "about w p" and "view_micro s p = (s', p', es)"
  shows "at_lead p \<or> (leaderAddr s' = leaderAddr s \<and> viewNumber s' = viewNumber s) \<or> (at_lead p' \<and> viewNumber s' = w)"
  using assms by (cases p) (auto simp: Let_def split: if_splits sum.splits)

lemma view_turn_agreeing:
  assumes "wf_server s0" and "race_ok s0 M c" and "M + int (length (snd c)) < 2 ^ 63"
    and "sint (viewNumber (fst c)) \<le> sint w" and "agreeing w c"
  shows "agreeing w (view_turn i c) \<and> sint (viewNumber (fst (view_turn i c))) \<le> sint w"
proof (cases rule: view_turn_cases [of i c])
  case (2 s' p' es)
  let ?p = "snd c ! i"
  have p: "about w ?p" "pc_ok s0 M (fst c) ?p" "server_ok s0 (fst c)"
    using assms(2,5) 2(1) by (simp_all add: agreeing_def race_ok_def list_all_length)
  have turn: "view_turn i c = (s', (snd c)[i := p'])" by (rule 2(3))
  have all: "allServers s' = allServers (fst c)" "allServers (fst c) = allServers s0"
    using view_turn_ok [OF assms(1-3), of i] p(3) by (simp_all add: turn forward_def server_ok_def)
  have abouts: "list_all (about w) ((snd c)[i := p'])"
    using assms(5) micro_about [OF p(1) 2(2)] set_update_subset_insert [of "snd c" i p']
    unfolding agreeing_def list_all_iff by blast
  have p': "p' \<in> set ((snd c)[i := p'])" using 2(1) by (rule set_update_memI)
  have below: "sint (viewNumber s') \<le> sint w"
    using assms(4) p(1) 2(2) by (cases ?p) (auto simp: Let_def split: if_splits sum.splits)
  consider "at_lead ?p" | "leaderAddr s' = leaderAddr (fst c)" "viewNumber s' = viewNumber (fst c)" "\<not> at_lead ?p"
    | "at_lead p'" "viewNumber s' = w"
    using micro_leader [OF p(1) 2(2)] by blast
  then have "leaderAddr s' = leader_at (allServers s') (viewNumber s')
      \<or> (\<exists>q \<in> set ((snd c)[i := p']). at_lead q) \<and> viewNumber s' = w"
  proof cases
    case 1
    then obtain k where k: "?p = AtLead w k" using p(1) by (cases ?p) simp_all
    have "leaderOf (allServers s0) w = Inr (leader_at (allServers s0) w)"
      using assms(1) p(2) all_nonempty [OF assms(1)] by (intro leaderOf_leader_at) (simp_all add: k wf_server_def)
    then have "s' = (fst c)\<lparr>leaderAddr := leader_at (allServers s0) w\<rparr>" using 2(2) by (simp add: k all)
    moreover have "viewNumber (fst c) = w" using p(2) assms(4) by (simp add: k int64_eq)
    ultimately show ?thesis using all by simp
  next
    case 2
    have "q \<in> set ((snd c)[i := p'])" if "q \<in> set (snd c)" "at_lead q" for q
      using that 2(3) by (metis in_set_conv_nth length_list_update nth_list_update_neq)
    then show ?thesis using assms(5) 2(1,2) all by (auto simp: agreeing_def)
  next
    case 3
    then show ?thesis using p' by blast
  qed
  then show ?thesis using abouts below by (simp add: agreeing_def turn)
qed (use assms in simp)

lemma micro_frame:
  "view_micro s p = (s', p', es) \<Longrightarrow> counters s' = counters s \<and> cache s' = cache s \<and> peers s' = peers s"
  by (cases p) (auto simp: Let_def put_vote_def split: if_splits sum.splits)

lemma run_views_frame:
  "counters (fst (run_views is c)) = counters (fst c) \<and> cache (fst (run_views is c)) = cache (fst c)
     \<and> peers (fst (run_views is c)) = peers (fst c)"
proof (induction "is" rule: rev_induct)
  case (snoc i "is")
  then show ?case
    by (cases rule: view_turn_cases [of i "run_views is c"]) (auto simp: run_views_snoc dest: micro_frame)
qed simp

text \<open>C19: One election at a time ends in agreement.  When all messages that run at once are for the same
  view, not below the server's, then in every schedule the server is well formed again once they
  have returned: it is at its old view or at the new one, and the leader it names is the leader of
  that view.\<close>

theorem one_election_agrees:
  assumes "wf_server s" and "\<forall>p \<in> set ps. \<exists>sender. p = AtLoad (vote_msg w sender)" and "sint (viewNumber s) \<le> sint w"
    and "sint w + int (length ps) < 2 ^ 63" and "run_views is (s, ps) = (s', ps')" and "list_all returned ps'"
  shows "wf_server s' \<and> sint (viewNumber s') \<le> sint w"
proof -
  have start: "race_ok s (sint w) (s, ps)"
    using assms(1-3) by (intro race_ok_start) (auto simp: list_all_iff vote_msg_def)
  have first: "agreeing w (s, ps)"
    using assms(1,2) wf_leader_at [OF assms(1)] by (auto simp: agreeing_def list_all_iff vote_msg_def)
  have "agreeing w (run_views is (s, ps)) \<and> sint (viewNumber (fst (run_views is (s, ps)))) \<le> sint w"
  proof (induction "is" rule: rev_induct)
    case (snoc i "is")
    have "race_ok s (sint w) (run_views is (s, ps))" using run_views_ok [OF assms(1) start] assms(4) by simp
    from view_turn_agreeing [OF assms(1) this] snoc assms(4) show ?case by (simp add: run_views_snoc)
  qed (use first assms(3) in simp)
  moreover have "\<not> at_lead p" if "p \<in> set ps'" for p using assms(6) that by (cases p) (auto simp: list_all_iff)
  ultimately have l: "leaderAddr s' = leader_at (allServers s') (viewNumber s')" "sint (viewNumber s') \<le> sint w"
    using assms(5) by (auto simp: agreeing_def)
  have ok: "server_ok s s'" using run_views_ok [OF assms(1) start, of "is"] assms(4,5) by (simp add: race_ok_def)
  have same: "counters s' = counters s" "cache s' = cache s" "peers s' = peers s"
    using run_views_frame [of "is" "(s, ps)"] assms(5) by simp_all
  have known: "self s' = self s" "allServers s' = allServers s" "votes_ok (viewVotes s')"
      "inViewChange s' = 0 \<or> inViewChange s' = 1" "0 \<le> sint (viewNumber s')"
    using ok assms(1) by (auto simp: server_ok_def forward_def wf_server_def)
  have "leaderOf (allServers s') (viewNumber s') = Inr (leaderAddr s')"
    using known(2,5) all_nonempty [OF assms(1)] by (simp add: l leaderOf_leader_at)
  then have "wf_server s'" using assms(1) same known by (simp add: wf_server_def)
  then show ?thesis using l(2) by blast
qed

section \<open>Every handler returns\<close>

text \<open>
  What a thread has still to do, with a compare-and-swap that will fail counted as the turn it
  takes and the loop it repeats; and how often it may still change the view number.
\<close>

fun effort :: "int64 \<Rightarrow> view_pc \<Rightarrow> nat" where
  "effort n (AtLoad msg) = 7"
| "effort n (AtRaise msg) = 6"
| "effort n (AtVote msg) = 5"
| "effort n AtAdd = 8"
| "effort n (AtSuspect v l) = 7"
| "effort n (AtSeed v l) = 6"
| "effort n (AtTally v) = 5"
| "effort n (AtBroadcast v) = 1"
| "effort n (AtRead v k) = 4"
| "effort n (AtSwap v current k) = (if n = current then 3 else 5)"
| "effort n (AtLead v k) = 2"
| "effort n (AtOpen v k) = 1"
| "effort n (Returned r) = 0"

fun changes :: "view_pc \<Rightarrow> nat" where
  "changes (AtLead v k) = 0"
| "changes (AtOpen v k) = 0"
| "changes (AtBroadcast v) = 0"
| "changes (Returned r) = 0"
| "changes AtAdd = 2"
| "changes _ = 1"

definition race_effort :: "view_race \<Rightarrow> nat" where
  "race_effort c = sum_list (map (effort (viewNumber (fst c))) (snd c))
     + 2 * length (snd c) * sum_list (map changes (snd c))"

lemma micro_effort:
  assumes "\<not> returned p" and "view_micro s p = (s', p', es)"
  shows "(viewNumber s' = viewNumber s \<and> changes p' \<le> changes p \<and> effort (viewNumber s') p' < effort (viewNumber s') p)
    \<or> (changes p' < changes p \<and> effort (viewNumber s') p' < effort (viewNumber s') p)"
  using assms by (cases p) (auto simp: Let_def split: if_splits sum.splits)

lemma micro_returned: "returned p \<Longrightarrow> view_micro s p = (s, p, [])"
  by (cases p) simp_all

lemma sum_after_update:
  "i < length xs \<Longrightarrow> sum_list (map f (xs[i := y])) + f (xs ! i) = sum_list (map f xs) + (f y :: nat)"
proof (induction xs arbitrary: i)
  case (Cons x xs)
  then show ?case by (cases i) (simp_all add: add.assoc add.left_commute)
qed simp

lemma sum_list_bound:
  fixes f g :: "'b \<Rightarrow> nat"
  assumes "\<And>x. f x \<le> g x + k"
  shows "sum_list (map f xs) \<le> sum_list (map g xs) + k * length xs"
proof (induction xs)
  case (Cons x xs)
  show ?case using add_mono [OF assms [of x] Cons.IH] by simp
qed simp

lemma view_turn_effort:
  assumes "i < length (snd c)" and "\<not> returned (snd c ! i)"
  shows "race_effort (view_turn i c) < race_effort c"
proof (cases rule: view_turn_cases [of i c])
  case (2 s' p' es)
  let ?n = "viewNumber s'" and ?len = "length (snd c)"
  have e: "sum_list (map (effort ?n) ((snd c)[i := p'])) + effort ?n (snd c ! i) = sum_list (map (effort ?n) (snd c)) + effort ?n p'"
    and h: "sum_list (map changes ((snd c)[i := p'])) + changes (snd c ! i) = sum_list (map changes (snd c)) + changes p'"
    by (rule sum_after_update [OF assms(1)])+
  have total: "race_effort (view_turn i c) = sum_list (map (effort ?n) ((snd c)[i := p'])) + 2 * ?len * sum_list (map changes ((snd c)[i := p']))"
      "race_effort c = sum_list (map (effort (viewNumber (fst c))) (snd c)) + 2 * ?len * sum_list (map changes (snd c))"
    by (simp_all add: race_effort_def 2(3))
  from micro_effort [OF assms(2) 2(2)] show ?thesis
  proof
    assume m: "?n = viewNumber (fst c) \<and> changes p' \<le> changes (snd c ! i) \<and> effort ?n p' < effort ?n (snd c ! i)"
    then have "sum_list (map changes ((snd c)[i := p'])) \<le> sum_list (map changes (snd c))" using h by linarith
    then have "2 * ?len * sum_list (map changes ((snd c)[i := p'])) \<le> 2 * ?len * sum_list (map changes (snd c))"
      by (rule mult_le_mono2)
    moreover have "sum_list (map (effort ?n) ((snd c)[i := p'])) < sum_list (map (effort (viewNumber (fst c))) (snd c))"
      using m e by (metis add_less_imp_less_right nat_add_left_cancel_less)
    ultimately show ?thesis unfolding total by (rule add_less_le_mono [rotated])
  next
    assume m: "changes p' < changes (snd c ! i) \<and> effort ?n p' < effort ?n (snd c ! i)"
    then have "Suc (sum_list (map changes ((snd c)[i := p']))) \<le> sum_list (map changes (snd c))" using h by linarith
    then have "2 * ?len * Suc (sum_list (map changes ((snd c)[i := p']))) \<le> 2 * ?len * sum_list (map changes (snd c))"
      by (rule mult_le_mono2)
    then have "2 * ?len * sum_list (map changes ((snd c)[i := p'])) + 2 * ?len \<le> 2 * ?len * sum_list (map changes (snd c))"
      by (simp only: mult_Suc_right add.commute)
    moreover have "effort ?n p \<le> effort (viewNumber (fst c)) p + 2" for p by (cases p) simp_all
    then have "sum_list (map (effort ?n) (snd c)) \<le> sum_list (map (effort (viewNumber (fst c))) (snd c)) + 2 * ?len"
      by (rule sum_list_bound)
    ultimately show ?thesis using m e unfolding total by linarith
  qed
qed (use assms in simp)

lemma view_turn_idle: "i < length (snd c) \<Longrightarrow> returned (snd c ! i) \<Longrightarrow> view_turn i c = c"
  by (cases c) (simp add: view_turn_def micro_returned)

lemma view_turn_returned:
  assumes "returned (snd c ! i)" and "i < length (snd c)"
  shows "returned (snd (view_turn j c) ! i)"
proof (cases "j = i")
  case True
  then show ?thesis using view_turn_idle assms by simp
qed (use assms in \<open>auto simp: view_turn_def split: prod.splits\<close>)

lemma run_views_effort:
  assumes "i < length (snd c)"
  shows "returned (snd (run_views is c) ! i) \<or> race_effort (run_views is c) + count_list is i \<le> race_effort c"
proof (induction "is" rule: rev_induct)
  case (snoc j "is")
  let ?c = "run_views is c"
  have len: "length (snd ?c) = length (snd c)" by simp
  have "race_effort (view_turn j ?c) \<le> race_effort ?c"
  proof (cases "j < length (snd c)")
    case True
    then show ?thesis
      using view_turn_effort [of j ?c] view_turn_idle [of j ?c] len by (cases "returned (snd ?c ! j)") simp_all
  qed (simp add: view_turn_def)
  moreover have "race_effort (view_turn i ?c) < race_effort ?c" if "\<not> returned (snd ?c ! i)"
    using view_turn_effort [of i ?c] that assms len by simp
  ultimately show ?case
    using snoc view_turn_returned [of ?c i j] assms len
    by (cases "returned (snd ?c ! i)"; cases "j = i") (simp_all add: run_views_snoc)
qed simp

text \<open>C20: No handler waits for ever.  The loop of \<open>commitView\<close> repeats when its compare-and-swap fails, but
  that takes a change of the view number by another thread, and each thread changes it at most
  twice.  In any schedule, of \<open>n\<close> threads that start anywhere in a handler, one that has had
  \<open>4 n n + 8 n + 1\<close> turns has returned.\<close>

theorem election_threads_return:
  assumes "i < length ps" and "4 * length ps * length ps + 8 * length ps < count_list is i"
  shows "returned (snd (run_views is (s, ps)) ! i)"
proof -
  have e: "effort n p \<le> 8" and h: "changes p \<le> 2" for n p by (cases p; simp)+
  have "sum_list (map (effort n) qs) \<le> 8 * length qs" for n qs
    using sum_list_bound [of "effort n" "\<lambda>p. 0" 8 qs] e by simp
  moreover have "sum_list (map changes ps) \<le> 2 * length ps"
    using sum_list_bound [of changes "\<lambda>p. 0" 2 ps] h by (simp add: numeral_2_eq_2)
  then have "2 * length ps * sum_list (map changes ps) \<le> 2 * length ps * (2 * length ps)"
    by (rule mult_le_mono2)
  ultimately have "race_effort (s, ps) \<le> 8 * length ps + 2 * length ps * (2 * length ps)"
    unfolding race_effort_def by (simp add: add_mono)
  then show ?thesis
    using run_views_effort [of i "(s, ps)" "is"] assms by auto
qed

lemma election_threads_return_witness:
  "returned (snd (run_views (replicate 61 1) (srv3 ''s1'', three_threads)) ! 1)"
  by (rule election_threads_return) (simp_all add: three_threads_def count_list_eq_length_filter)

section \<open>What the interleaving breaks\<close>

text \<open>The server \<open>s2\<close> of five, and votes for view 1, which it leads, and view 2, which \<open>s3\<close> leads.\<close>

definition late_vote :: view_race where
  "late_vote = run_views [2, 0, 0, 0, 1, 1, 1, 1, 1, 1, 1, 2, 2]
     (srv5 ''s2'', [AtLoad (vote_msg 1 ''s3''), AtLoad (vote_msg 1 ''s4''), AtLoad (vote_msg 1 ''s5'')])"

definition one_by_one :: view_race where
  "one_by_one = run_views (replicate 7 0 @ replicate 7 1 @ replicate 7 2)
     (srv5 ''s2'', [AtLoad (vote_msg 1 ''s3''), AtLoad (vote_msg 1 ''s4''), AtLoad (vote_msg 1 ''s5'')])"

lemma majority_never_missed_witness: "sint (1 :: int64) \<le> sint (viewNumber (fst late_vote))"
proof (rule majority_never_missed)
  let ?ps = "[AtLoad (vote_msg 1 ''s3''), AtLoad (vote_msg 1 ''s4''), AtLoad (vote_msg 1 ''s5'')]"
  show "run_views [2, 0, 0, 0, 1, 1, 1, 1, 1, 1, 1, 2, 2] (srv5 ''s2'', ?ps) = (fst late_vote, snd late_vote)"
    by (simp only: late_vote_def prod.collapse)
  show "wf_server (srv5 ''s2'')" by (simp add: srv5_def wf_New)
  show "list_all starting ?ps" by simp
  show "\<forall>msg. AtLoad msg \<in> set ?ps \<longrightarrow> sint (vcm_ViewNumber msg) \<le> 1" by (simp add: vote_msg_def)
  show "sint (viewNumber (srv5 ''s2'')) \<le> 1" by code_simp
  show "1 + int (length ?ps) < 2 ^ 63" by simp
  show "peers (srv5 ''s2'') \<noteq> []" by (simp add: srv5_def New_def Let_def)
  show "list_all returned (snd late_vote)" by code_simp
  show "vote_count (srv5 ''s2'') 1 < majority (srv5 ''s2'')" by code_simp
  show "majority (srv5 ''s2'') \<le> vote_count (fst late_vote) 1" by code_simp
qed

lemma one_election_agrees_witness: "wf_server (fst late_vote)"
proof -
  let ?ps = "[AtLoad (vote_msg 1 ''s3''), AtLoad (vote_msg 1 ''s4''), AtLoad (vote_msg 1 ''s5'')]"
  have run: "run_views [2, 0, 0, 0, 1, 1, 1, 1, 1, 1, 1, 2, 2] (srv5 ''s2'', ?ps) = (fst late_vote, snd late_vote)"
    by (simp only: late_vote_def prod.collapse)
  have "wf_server (srv5 ''s2'')" by (simp add: srv5_def wf_New)
  moreover have "sint (viewNumber (srv5 ''s2'')) \<le> sint (1 :: int64)" by code_simp
  moreover have "list_all returned (snd late_vote)" by code_simp
  moreover have "\<forall>p \<in> set ?ps. \<exists>sender. p = AtLoad (vote_msg 1 sender)" by auto
  ultimately show ?thesis using one_election_agrees [OF _ _ _ _ run] by simp
qed

text \<open>C22: A late vote closes a committed view.  \<open>ViewChange\<close> reads the view number, and only later raises
  \<open>inViewChange\<close>.  When the view is committed in between, the flag stays up for good: three votes for
  view 1 reach its leader, the third thread reads view 0 and pauses, the second completes the
  majority and opens the view, the third raises the flag and finds four votes, not three.  All have
  returned, the server is at view 1, which it leads, refuses every request, and its heartbeat, being
  the leader's, never starts another view.  Handled one after the other the same votes open it.\<close>

theorem late_vote_closes_view:
  "list_all returned (snd late_vote) \<and> viewNumber (fst late_vote) = 1
   \<and> leaderAddr (fst late_vote) = self (fst late_vote) \<and> vote_count (fst late_vote) 1 = 4
   \<and> fst (snd (IncrCounter (fst late_vote) (req_on (c # k) u r))) = Inl (GrpcStatus Unavailable ''view change in progress'')
   \<and> runHeartbeat (ping # pings) (misses, fst late_vote) = Inr ((0, fst late_vote), [])
   \<and> list_all returned (snd one_by_one) \<and> viewNumber (fst one_by_one) = 1 \<and> inViewChange (fst one_by_one) = 0"
proof -
  have facts: "list_all returned (snd late_vote)" "viewNumber (fst late_vote) = 1" "inViewChange (fst late_vote) = 1"
      "leaderAddr (fst late_vote) = self (fst late_vote)" "vote_count (fst late_vote) 1 = 4"
      "list_all returned (snd one_by_one)" "viewNumber (fst one_by_one) = 1" "inViewChange (fst one_by_one) = 0"
    by code_simp+
  have "runHeartbeat ps (0, fst late_vote) = Inr ((0, fst late_vote), [])" for ps
    by (induction ps) (simp_all add: heartbeat_turn_def currentLeader_def facts(4) Let_def)
  then have "runHeartbeat (ping # pings) (misses, fst late_vote) = Inr ((0, fst late_vote), [])"
    by (simp add: heartbeat_turn_def currentLeader_def facts(4) Let_def)
  moreover have "fst (snd (IncrCounter (fst late_vote) (req_on (c # k) u r)))
      = Inl (GrpcStatus Unavailable ''view change in progress'')"
    by (simp add: IncrCounter_def currentLeader_def facts(3,4) req_on_def)
  ultimately show ?thesis using facts by blast
qed

definition stale_commit :: view_race where
  "stale_commit = run_views ([0, 0, 0] @ [1, 1, 1, 1, 1] @ [2, 2, 2] @ [3, 3, 3, 3, 3, 3, 3] @ [1, 1])
     (srv5 ''s2'', [AtLoad (vote_msg 1 ''s3''), AtLoad (vote_msg 1 ''s4''),
       AtLoad (vote_msg 2 ''s4''), AtLoad (vote_msg 2 ''s5'')])"

definition in_order :: view_race where
  "in_order = run_views (replicate 7 0 @ replicate 7 1)
     (srv5 ''s3'', [AtLoad (vote_msg 2 ''s4''), AtLoad (vote_msg 2 ''s5'')])"

text \<open>C23: A stale commit names the wrong leader.  \<open>commitView\<close> moves the view number with a
  compare-and-swap and sets \<open>leaderAddr\<close> in a later step, so the commits of two views can cross: the
  thread that moved the server to view 1 pauses, the votes for view 2 are counted and view 2 is
  committed, then the first thread puts the leader of view 1 back.  All have returned, the server
  is at view 2 and open, yet serves as its leader, which is \<open>s3\<close>; and \<open>s3\<close>, at the same view, serves
  too: both acknowledge the value 1 of one counter.\<close>

theorem stale_commit_two_leaders:
  "list_all returned (snd stale_commit) \<and> viewNumber (fst stale_commit) = 2
   \<and> leaderAddr (fst stale_commit) = ''s2'' \<and> leader_at (allServers (fst stale_commit)) 2 = ''s3''
   \<and> list_all returned (snd in_order) \<and> viewNumber (fst in_order) = 2 \<and> leaderAddr (fst in_order) = ''s3''
   \<and> fst (snd (IncrCounter (fst stale_commit) (req_on ''x'' ''u'' 1))) = Inr \<lparr>irs_NewValue = 1, irs_RedirectTo = []\<rparr>
   \<and> fst (snd (IncrCounter (fst in_order) (req_on ''x'' ''w'' 1))) = Inr \<lparr>irs_NewValue = 1, irs_RedirectTo = []\<rparr>"
proof -
  have "list_all returned (snd stale_commit)" "viewNumber (fst stale_commit) = 2"
      "leaderAddr (fst stale_commit) = ''s2''" "leader_at (allServers (fst stale_commit)) 2 = ''s3''"
      "list_all returned (snd in_order)" "viewNumber (fst in_order) = 2" "leaderAddr (fst in_order) = ''s3''"
      "fst (snd (IncrCounter (fst stale_commit) (req_on ''x'' ''u'' 1))) = Inr \<lparr>irs_NewValue = 1, irs_RedirectTo = []\<rparr>"
      "fst (snd (IncrCounter (fst in_order) (req_on ''x'' ''w'' 1))) = Inr \<lparr>irs_NewValue = 1, irs_RedirectTo = []\<rparr>"
    by code_simp+
  then show ?thesis by blast
qed

end
