(* ===== verification/Client_Rpc.thy ===== *)
theory Client_Rpc
  imports Go_Strings Messages
begin

text \<open>
  What the client side of \<open>internal/client\<close> and \<open>cmd\<close> uses of gRPC and of the standard library:
  contexts with their values, request and reply messages behind an \<open>any\<close>, error texts and
  \<open>status.FromError\<close>, and the calls that reach the outside world.  The latter are parameters: a
  \<open>runtime\<close> holds an invoker, \<open>grpc.NewClient\<close>, \<open>(*ClientConn).Close\<close> and \<open>time.Sleep\<close>, over a
  world of any type which they may change.
\<close>

section \<open>Contexts and messages\<close>

datatype ctx_key = AttemptTrackerKey | OtherKey string

text \<open>A tracker is a pointer that may be nil: an optional address of the tracker store.\<close>

datatype ctx_value = TrackerValue "nat option" | OtherValue string

datatype ctx = Background | WithValue ctx ctx_key ctx_value

fun ctx_Value :: "ctx \<Rightarrow> ctx_key \<Rightarrow> ctx_value option" where
  "ctx_Value Background k = None"
| "ctx_Value (WithValue c k' v) k = (if k' = k then Some v else ctx_Value c k)"

datatype request = IncrReq IncrRequest | GetReq GetRequest | OtherReq string

datatype reply = IncrReply IncrResponse | GetReply GetResponse | OtherReply string

section \<open>Errors\<close>

text \<open>\<open>codes.Code.String\<close>, the text of a status error, and \<open>fmt.Errorf\<close> with one \<open>%w\<close> at the end:
  \<open>status.FromError\<close> still finds the status of the wrapped error, with the longer text.\<close>

fun code_String :: "grpc_code \<Rightarrow> string" where
  "code_String OK = ''OK''"
| "code_String InvalidArgument = ''InvalidArgument''"
| "code_String Unavailable = ''Unavailable''"
| "code_String (OtherCode s) = s"

fun error_text :: "go_error \<Rightarrow> string" where
  "error_text (GrpcStatus c m) = ''rpc error: code = '' @ code_String c @ '' desc = '' @ m"
| "error_text (OtherError m) = m"

text \<open>\<open>log.Fatalf\<close> with an error at its end: the message it exits with.\<close>

definition fatalf :: "string \<Rightarrow> go_error \<Rightarrow> string + 'a" where
  "fatalf message err = Inl (message @ error_text err)"

fun Errorf_w :: "string \<Rightarrow> go_error \<Rightarrow> go_error" where
  "Errorf_w p (GrpcStatus c m) = GrpcStatus c (p @ error_text (GrpcStatus c m))"
| "Errorf_w p (OtherError m) = OtherError (p @ m)"

fun FromError :: "go_error \<Rightarrow> (grpc_code \<times> string) option" where
  "FromError (GrpcStatus c m) = Some (c, m)"
| "FromError (OtherError m) = None"

text \<open>\<open>strings.Contains\<close>.\<close>

fun Contains :: "string \<Rightarrow> string \<Rightarrow> bool" where
  "Contains s sub \<longleftrightarrow>
     take (length sub) s = sub \<or> (case s of [] \<Rightarrow> False | c # cs \<Rightarrow> Contains cs sub)"

declare Contains.simps [simp del]

lemma Contains_iff: "Contains s sub \<longleftrightarrow> (\<exists>xs ys. s = xs @ sub @ ys)"
proof (induction s)
  case Nil
  show ?case by (subst Contains.simps) (auto simp: eq_commute)
next
  case (Cons c cs)
  have "(\<exists>xs ys. c # cs = xs @ sub @ ys) \<longleftrightarrow> (\<exists>ys. c # cs = sub @ ys) \<or> (\<exists>xs ys. cs = xs @ sub @ ys)"
    by (metis append_Cons append_Nil list.exhaust list.inject)
  moreover have "(\<exists>ys. c # cs = sub @ ys) \<longleftrightarrow> take (length sub) (c # cs) = sub"
    by (metis append_eq_conv_conj append_take_drop_id)
  ultimately show ?case using Cons by (subst Contains.simps) simp
qed

section \<open>The runtime\<close>

type_synonym 'w invoker =
  "ctx \<Rightarrow> string \<Rightarrow> request \<Rightarrow> reply \<Rightarrow> client_conn option \<Rightarrow> 'w \<Rightarrow> reply \<times> go_error option \<times> 'w"

record 'w runtime =
  Invoke :: "'w invoker"
  NewClient :: "string \<Rightarrow> go_error + client_conn"
  CloseConn :: "client_conn \<Rightarrow> 'w \<Rightarrow> go_error option \<times> 'w"
  Sleep :: "int64 \<Rightarrow> 'w \<Rightarrow> 'w"

definition millisecond :: int64 where
  "millisecond = 1000000"

end
