(* ===== verification/Leader_Interceptor.thy ===== *)
theory Leader_Interceptor
  imports Client_Rpc
begin

text \<open>
  \<open>internal/client/interceptor.go\<close>: the client interceptor that follows the leader.  One call of
  the interceptor is a loop of at most 15 turns over a \<open>call_state\<close>: the peers found unreachable,
  the interceptor, the reply and the world.  The interceptor's mutex makes each of its operations
  one atomic step.  Here a call has no other call of the same interceptor in between; calls that
  overlap are the subject of \<open>Concurrent_Calls\<close>.
  \<open>peerIdx\<close> is a \<open>nat\<close>, as it is 0 or a remainder by the number of peers.  Log output is left out.
\<close>

section \<open>The interceptor\<close>

record LeaderInterceptor =
  li_currConn :: "client_conn option"
  li_leaderAddr :: string
  li_peers :: "string list"
  li_peerIdx :: nat

definition NewLeaderInterceptor ::
  "(string \<Rightarrow> go_error + client_conn) \<Rightarrow> string list \<Rightarrow> go_error + LeaderInterceptor" where
  "NewLeaderInterceptor dial ps =
     (case ps of
        [] \<Rightarrow> Inl (OtherError ''no peers provided'')
      | initialLeader # _ \<Rightarrow>
          (case dial initialLeader of
             Inl err \<Rightarrow> Inl err
           | Inr conn \<Rightarrow>
               Inr \<lparr>li_currConn = Some conn, li_leaderAddr = initialLeader, li_peers = ps, li_peerIdx = 0\<rparr>))"

definition Conn :: "LeaderInterceptor \<Rightarrow> client_conn option" where
  "Conn l = li_currConn l"

definition CurrentLeader :: "LeaderInterceptor \<Rightarrow> string" where
  "CurrentLeader l = li_leaderAddr l"

definition Close :: "'w runtime \<Rightarrow> LeaderInterceptor \<Rightarrow> 'w \<Rightarrow> go_error option \<times> 'w" where
  "Close rt l w = (case li_currConn l of Some conn \<Rightarrow> CloseConn rt conn w | None \<Rightarrow> (None, w))"

definition rebind ::
  "'w runtime \<Rightarrow> string \<Rightarrow> LeaderInterceptor \<Rightarrow> 'w \<Rightarrow> go_error option \<times> LeaderInterceptor \<times> 'w" where
  "rebind rt newAddr l w =
     (if li_leaderAddr l = newAddr then (None, l, w)
      else
        (case NewClient rt newAddr of
           Inl err \<Rightarrow> (Some err, l, w)
         | Inr conn \<Rightarrow>
             let w' = (case li_currConn l of Some old \<Rightarrow> snd (CloseConn rt old w) | None \<Rightarrow> w)
             in (None, l\<lparr>li_currConn := Some conn, li_leaderAddr := newAddr\<rparr>, w')))"

definition isTransportFailure :: "go_error option \<Rightarrow> bool" where
  "isTransportFailure err =
     (case err of
        None \<Rightarrow> False
      | Some e \<Rightarrow>
          (case FromError e of
             None \<Rightarrow> True
           | Some (code, msg) \<Rightarrow>
               if code \<noteq> Unavailable then False
               else Contains msg ''connection error'' \<or> Contains msg ''connection refused''))"

text \<open>A \<open>map[string]bool\<close> read: false when the key is missing.\<close>

definition is_dead :: "(string, bool) gomap \<Rightarrow> string \<Rightarrow> bool" where
  "is_dead dead a \<longleftrightarrow> map_of dead a = Some True"

text \<open>The loop over the peers, with the number of turns left.\<close>

fun next_alive :: "nat \<Rightarrow> (string, bool) gomap \<Rightarrow> LeaderInterceptor \<Rightarrow> string \<times> LeaderInterceptor" where
  "next_alive 0 dead l = ([], l)"
| "next_alive (Suc n) dead l =
     (let l' = l\<lparr>li_peerIdx := (li_peerIdx l + 1) mod length (li_peers l)\<rparr>;
          candidate = li_peers l' ! li_peerIdx l'
      in if \<not> is_dead dead candidate then (candidate, l') else next_alive n dead l')"

definition nextAlivePeer :: "(string, bool) gomap \<Rightarrow> LeaderInterceptor \<Rightarrow> string \<times> LeaderInterceptor" where
  "nextAlivePeer dead l = next_alive (length (li_peers l)) dead l"

section \<open>A call\<close>

record 'w call_state =
  dead_peers :: "(string, bool) gomap"
  interceptor :: LeaderInterceptor
  reply_of :: reply
  world :: 'w

datatype loop_exit = Continue | Return "go_error option"

definition maxAttempts :: nat where
  "maxAttempts = 15"

text \<open>The type switch that reads and clears the redirect.\<close>

fun take_redirect :: "reply \<Rightarrow> string \<times> reply" where
  "take_redirect (IncrReply r) = (irs_RedirectTo r, IncrReply (r\<lparr>irs_RedirectTo := []\<rparr>))"
| "take_redirect (GetReply r) = (grs_RedirectTo r, GetReply (r\<lparr>grs_RedirectTo := []\<rparr>))"
| "take_redirect (OtherReply r) = ([], OtherReply r)"

definition after_error ::
  "'w runtime \<Rightarrow> string \<Rightarrow> go_error \<Rightarrow> 'w call_state \<Rightarrow> loop_exit \<times> 'w call_state" where
  "after_error rt currentAddr err s =
     (if isTransportFailure (Some err) then
        let dead = AList.update currentAddr True (dead_peers s);
            (next, l) = nextAlivePeer dead (interceptor s);
            s' = s\<lparr>dead_peers := dead, interceptor := l\<rparr>
        in if next = [] then (Return (Some (OtherError ''all peers unreachable'')), s')
           else (case rebind rt next l (world s') of
                   (Some bindErr, l', w) \<Rightarrow>
                     (Return (Some (Errorf_w ''failed to bind to backup peer: '' bindErr)),
                      s'\<lparr>interceptor := l', world := w\<rparr>)
                 | (None, l', w) \<Rightarrow> (Continue, s'\<lparr>interceptor := l', world := w\<rparr>))
      else (Continue, s\<lparr>world := Sleep rt (100 * millisecond) (world s)\<rparr>))"

definition after_reply :: "'w runtime \<Rightarrow> 'w call_state \<Rightarrow> loop_exit \<times> 'w call_state" where
  "after_reply rt s =
     (let (redirectTo, r) = take_redirect (reply_of s);
          s' = s\<lparr>reply_of := r\<rparr>
      in if redirectTo \<noteq> [] then
           if is_dead (dead_peers s') redirectTo then
             (Continue, s'\<lparr>world := Sleep rt (100 * millisecond) (world s')\<rparr>)
           else (case rebind rt redirectTo (interceptor s') (world s') of
                   (Some bindErr, l', w) \<Rightarrow>
                     (Return (Some (Errorf_w ''failed to rebind: '' bindErr)),
                      s'\<lparr>interceptor := l', world := w\<rparr>)
                 | (None, l', w) \<Rightarrow> (Continue, s'\<lparr>interceptor := l', world := w\<rparr>))
         else (Return None, s'))"

definition unary_turn ::
  "'w runtime \<Rightarrow> ctx \<Rightarrow> string \<Rightarrow> request \<Rightarrow> 'w call_state \<Rightarrow> loop_exit \<times> 'w call_state" where
  "unary_turn rt c method req s =
     (let activeConn = li_currConn (interceptor s);
          currentAddr = li_leaderAddr (interceptor s);
          (r, err, w) = Invoke rt c method req (reply_of s) activeConn (world s);
          s' = s\<lparr>reply_of := r, world := w\<rparr>
      in case err of Some e \<Rightarrow> after_error rt currentAddr e s' | None \<Rightarrow> after_reply rt s')"

fun unary_loop ::
  "'w runtime \<Rightarrow> ctx \<Rightarrow> string \<Rightarrow> request \<Rightarrow> nat \<Rightarrow> 'w call_state \<Rightarrow> go_error option \<times> 'w call_state" where
  "unary_loop rt c method req 0 s =
     (Some (OtherError (''exceeded max attempts ('' @ FormatInt (of_nat maxAttempts) @ '')'')), s)"
| "unary_loop rt c method req (Suc n) s =
     (case unary_turn rt c method req s of
        (Continue, s') \<Rightarrow> unary_loop rt c method req n s'
      | (Return err, s') \<Rightarrow> (err, s'))"

definition Leader_Unary ::
  "'w runtime \<Rightarrow> ctx \<Rightarrow> string \<Rightarrow> request \<Rightarrow> reply \<Rightarrow> LeaderInterceptor \<Rightarrow> 'w \<Rightarrow>
     go_error option \<times> reply \<times> LeaderInterceptor \<times> 'w" where
  "Leader_Unary rt c method req r l w =
     (let (err, s) = unary_loop rt c method req maxAttempts
            \<lparr>dead_peers = [], interceptor = l, reply_of = r, world = w\<rparr>
      in (err, reply_of s, interceptor s, world s))"

section \<open>Peers\<close>

definition wf_interceptor :: "LeaderInterceptor \<Rightarrow> bool" where
  "wf_interceptor l \<longleftrightarrow> li_peers l \<noteq> [] \<and> li_peerIdx l < length (li_peers l)"

lemma take_rotate_Suc:
  assumes "n < length xs"
  shows "take (Suc n) (rotate m xs) = xs ! (m mod length xs) # take n (rotate (Suc m) xs)"
proof -
  have ne: "rotate m xs \<noteq> []" and len: "n \<le> length (tl (rotate m xs))" using assms by auto
  then have "take (Suc n) (rotate m xs) = hd (rotate m xs) # take n (tl (rotate m xs))"
    by (metis list.collapse take_Suc_Cons)
  moreover have "take n (rotate (Suc m) xs) = take n (tl (rotate m xs))"
    using ne len by (simp add: rotate1_hd_tl)
  moreover have "hd (rotate m xs) = xs ! (m mod length xs)"
    using assms by (intro hd_rotate_conv_nth) auto
  ultimately show ?thesis by simp
qed

lemma next_alive_eq:
  assumes "n \<le> length (li_peers l)"
  shows "fst (next_alive n dead l) =
      (case filter (\<lambda>a. \<not> is_dead dead a) (take n (rotate (Suc (li_peerIdx l)) (li_peers l))) of
         [] \<Rightarrow> [] | a # _ \<Rightarrow> a)"
  using assms
proof (induction n arbitrary: l)
  case (Suc n)
  let ?ps = "li_peers l" and ?i = "Suc (li_peerIdx l) mod length (li_peers l)"
  have lt: "n < length ?ps" using Suc.prems by simp
  have "rotate (Suc ?i) ?ps = rotate (Suc (Suc (li_peerIdx l))) ?ps"
    by (metis mod_Suc_eq rotate_conv_mod)
  then show ?case
    using Suc.IH [of "l\<lparr>li_peerIdx := ?i\<rparr>"] lt
    by (simp add: take_rotate_Suc [OF lt] Let_def del: rotate_Suc)
qed simp

lemma next_alive_frame:
  "\<exists>i. snd (next_alive n dead l) = l\<lparr>li_peerIdx := i\<rparr> \<and> (wf_interceptor l \<longrightarrow> i < length (li_peers l))"
proof (induction n arbitrary: l)
  case 0
  show ?case by (rule exI [of _ "li_peerIdx l"]) (simp add: wf_interceptor_def)
next
  case (Suc n)
  let ?i = "(li_peerIdx l + 1) mod length (li_peers l)"
  obtain i where i: "snd (next_alive n dead (l\<lparr>li_peerIdx := ?i\<rparr>)) = l\<lparr>li_peerIdx := ?i\<rparr>\<lparr>li_peerIdx := i\<rparr>"
      "wf_interceptor (l\<lparr>li_peerIdx := ?i\<rparr>) \<longrightarrow> i < length (li_peers l)"
    using Suc.IH [of "l\<lparr>li_peerIdx := ?i\<rparr>"] by auto
  have lt: "wf_interceptor l \<longrightarrow> ?i < length (li_peers l)" by (simp add: wf_interceptor_def)
  show ?case
  proof (cases "is_dead dead (li_peers l ! ?i)")
    case True
    then have "snd (next_alive (Suc n) dead l) = l\<lparr>li_peerIdx := i\<rparr>"
      using i(1) by (simp add: Let_def)
    moreover have "wf_interceptor l \<longrightarrow> i < length (li_peers l)"
      using i(2) lt by (simp add: wf_interceptor_def)
    ultimately show ?thesis by blast
  next
    case False
    then have "snd (next_alive (Suc n) dead l) = l\<lparr>li_peerIdx := ?i\<rparr>" by (simp add: Let_def)
    then show ?thesis using lt by blast
  qed
qed

lemma nextAlivePeer_frame:
  assumes "nextAlivePeer dead l = (next, l')"
  shows "li_currConn l' = li_currConn l \<and> li_leaderAddr l' = li_leaderAddr l \<and> li_peers l' = li_peers l
    \<and> (wf_interceptor l \<longrightarrow> wf_interceptor l')"
  using next_alive_frame [of "length (li_peers l)" dead l] assms
  by (auto simp: nextAlivePeer_def wf_interceptor_def)

lemma nextAlivePeer_fst:
  "fst (nextAlivePeer dead l) =
     (case filter (\<lambda>a. \<not> is_dead dead a) (rotate (Suc (li_peerIdx l)) (li_peers l)) of [] \<Rightarrow> [] | a # _ \<Rightarrow> a)"
  by (simp add: nextAlivePeer_def next_alive_eq)

lemma nextAlivePeer_some:
  assumes "nextAlivePeer dead l = (next, l')" and "next \<noteq> []"
  shows "next \<in> set (li_peers l) \<and> \<not> is_dead dead next"
proof -
  let ?alive = "filter (\<lambda>a. \<not> is_dead dead a) (rotate (Suc (li_peerIdx l)) (li_peers l))"
  have "next = (case ?alive of [] \<Rightarrow> [] | a # _ \<Rightarrow> a)"
    using assms(1) nextAlivePeer_fst [of dead l] by simp
  then obtain as where "?alive = next # as"
    using assms(2) by (cases ?alive) auto
  then have "next \<in> set ?alive" by simp
  then show ?thesis unfolding set_filter set_rotate by blast
qed

lemma nextAlivePeer_none:
  assumes "nextAlivePeer dead l = ([], l')" and "[] \<notin> set (li_peers l)"
  shows "\<forall>a \<in> set (li_peers l). is_dead dead a"
proof -
  let ?alive = "filter (\<lambda>a. \<not> is_dead dead a) (rotate (Suc (li_peerIdx l)) (li_peers l))"
  have "[] = (case ?alive of [] \<Rightarrow> [] | a # _ \<Rightarrow> a)"
    using assms(1) nextAlivePeer_fst [of dead l] by simp
  moreover have "[] \<notin> set ?alive" using assms(2) unfolding set_filter set_rotate by blast
  ultimately have "?alive = []" by (metis list.case(2) list.exhaust list.set_intros(1))
  then show ?thesis by (simp only: filter_empty_conv set_rotate not_not)
qed

lemma is_dead_update: "is_dead (AList.update a True dead) b \<longleftrightarrow> b = a \<or> is_dead dead b"
  by (simp add: is_dead_def amap.lookup_put)

end
