(* ===== verification/Leader_Call.thy ===== *)
theory Leader_Call
  imports Leader_Interceptor
begin

text \<open>
  The properties of one call of the leader interceptor: the rule by which a fact of each turn
  becomes a fact of the call, how a call may end, how often it invokes, which peer it tries next
  and what it does with an error a server returns on purpose.
\<close>

section \<open>Reasoning about the loop\<close>

lemma unary_loop_rule:
  assumes "P s"
    and "\<And>s s'. P s \<Longrightarrow> unary_turn rt c m q s = (Continue, s') \<Longrightarrow> P s'"
    and "\<And>s s' e. P s \<Longrightarrow> unary_turn rt c m q s = (Return e, s') \<Longrightarrow> Q e s'"
    and "\<And>s. P s \<Longrightarrow> Q (Some (OtherError ''exceeded max attempts (15)'')) s"
    and "unary_loop rt c m q n s = (err, s')"
  shows "Q err s'"
  using assms(1,5)
proof (induction n arbitrary: s)
  case 0
  have "FormatInt (of_nat maxAttempts) = ''15''" by code_simp
  then show ?case using 0 assms(4) [of s] by auto
next
  case (Suc n)
  obtain x s1 where t: "unary_turn rt c m q s = (x, s1)" by (cases "unary_turn rt c m q s")
  show ?case
  proof (cases x)
    case Continue
    then show ?thesis using Suc t assms(2) [of s s1] by simp
  next
    case (Return e)
    then show ?thesis using Suc.prems t assms(3) [of s e s1] by simp
  qed
qed

lemma Leader_Unary_rule:
  assumes "P \<lparr>dead_peers = [], interceptor = l, reply_of = r, world = w\<rparr>"
    and "\<And>s s'. P s \<Longrightarrow> unary_turn rt c m q s = (Continue, s') \<Longrightarrow> P s'"
    and "\<And>s s' e. P s \<Longrightarrow> unary_turn rt c m q s = (Return e, s') \<Longrightarrow> Q e s'"
    and "\<And>s. P s \<Longrightarrow> Q (Some (OtherError ''exceeded max attempts (15)'')) s"
    and "Leader_Unary rt c m q r l w = (err, r', l', w')"
  shows "\<exists>s. Q err s \<and> reply_of s = r' \<and> interceptor s = l' \<and> world s = w'"
proof -
  obtain s where s: "unary_loop rt c m q maxAttempts
        \<lparr>dead_peers = [], interceptor = l, reply_of = r, world = w\<rparr> = (err, s)"
      "reply_of s = r'" "interceptor s = l'" "world s = w'"
    using assms(5) by (auto simp: Leader_Unary_def split: prod.splits)
  have "Q err s"
    by (rule unary_loop_rule [where P = P and Q = Q, OF assms(1) _ _ _ s(1)]) (use assms(2-4) in blast)+
  then show ?thesis using s(2-4) by blast
qed

text \<open>What one turn can be, as six cases.\<close>

lemma unary_turn_cases:
  assumes "unary_turn rt c m q s = (x, s')"
    and "Invoke rt c m q (reply_of s) (li_currConn (interceptor s)) (world s) = (r, err, w)"
  obtains (wait) e where "err = Some e" "\<not> isTransportFailure err" "x = Continue"
      "s' = s\<lparr>reply_of := r, world := Sleep rt (100 * millisecond) w\<rparr>"
    | (unreachable) e l' where "err = Some e" "isTransportFailure err"
      "nextAlivePeer (AList.update (li_leaderAddr (interceptor s)) True (dead_peers s)) (interceptor s) = ([], l')"
      "x = Return (Some (OtherError ''all peers unreachable''))"
      "s' = s\<lparr>reply_of := r, world := w, interceptor := l',
        dead_peers := AList.update (li_leaderAddr (interceptor s)) True (dead_peers s)\<rparr>"
    | (failover) e l1 nx b l' w' where "err = Some e" "isTransportFailure err"
      "nextAlivePeer (AList.update (li_leaderAddr (interceptor s)) True (dead_peers s)) (interceptor s) = (nx, l1)"
      "nx \<noteq> []" "rebind rt nx l1 w = (b, l', w')"
      "x = (case b of None \<Rightarrow> Continue | Some e' \<Rightarrow> Return (Some (Errorf_w ''failed to bind to backup peer: '' e')))"
      "s' = s\<lparr>reply_of := r, world := w', interceptor := l',
        dead_peers := AList.update (li_leaderAddr (interceptor s)) True (dead_peers s)\<rparr>"
    | (redirect_dead) to r' where "err = None" "take_redirect r = (to, r')" "to \<noteq> []"
      "is_dead (dead_peers s) to" "x = Continue"
      "s' = s\<lparr>reply_of := r', world := Sleep rt (100 * millisecond) w\<rparr>"
    | (follow) to r' b l' w' where "err = None" "take_redirect r = (to, r')" "to \<noteq> []"
      "\<not> is_dead (dead_peers s) to" "rebind rt to (interceptor s) w = (b, l', w')"
      "x = (case b of None \<Rightarrow> Continue | Some e' \<Rightarrow> Return (Some (Errorf_w ''failed to rebind: '' e')))"
      "s' = s\<lparr>reply_of := r', world := w', interceptor := l'\<rparr>"
    | (finish) r' where "err = None" "take_redirect r = ([], r')" "x = Return None"
      "s' = s\<lparr>reply_of := r', world := w\<rparr>"
proof -
  obtain nx l1 where n:
    "nextAlivePeer (AList.update (li_leaderAddr (interceptor s)) True (dead_peers s)) (interceptor s) = (nx, l1)"
    by (cases "nextAlivePeer (AList.update (li_leaderAddr (interceptor s)) True (dead_peers s)) (interceptor s)")
  obtain to r' where t: "take_redirect r = (to, r')" by (cases "take_redirect r")
  obtain b l' w' where rb: "rebind rt nx l1 w = (b, l', w')" by (cases "rebind rt nx l1 w")
  obtain b2 l2 w2 where rr: "rebind rt to (interceptor s) w = (b2, l2, w2)"
    by (cases "rebind rt to (interceptor s) w")
  show thesis
  proof (cases err)
    case None
    then have e: "after_reply rt (s\<lparr>reply_of := r, world := w\<rparr>) = (x, s')"
      using assms by (simp add: unary_turn_def)
    show thesis
    proof (cases "to = []")
      case True
      then show thesis using e None t by (intro finish) (auto simp: after_reply_def)
    next
      case to: False
      show thesis
      proof (cases "is_dead (dead_peers s) to")
        case True
        then show thesis using e None t to by (intro redirect_dead) (auto simp: after_reply_def)
      next
        case False
        then show thesis using e None t to rr
          by (intro follow [OF None t to False rr])
            (auto simp: after_reply_def Let_def split: option.splits)
      qed
    qed
  next
    case (Some er)
    then have e: "after_error rt (li_leaderAddr (interceptor s)) er (s\<lparr>reply_of := r, world := w\<rparr>) = (x, s')"
      using assms by (simp add: unary_turn_def)
    show thesis
    proof (cases "isTransportFailure err")
      case False
      then show thesis using e Some by (intro wait) (auto simp: after_error_def)
    next
      case tf: True
      show thesis
      proof (cases "nx = []")
        case True
        then show thesis using e Some tf n by (intro unreachable [OF Some tf]) (auto simp: after_error_def)
      next
        case False
        then show thesis using e Some tf n rb
          by (intro failover [OF Some tf n False rb]) (auto simp: after_error_def Let_def split: option.splits)
      qed
    qed
  qed
qed

lemma rebind_cases:
  assumes "rebind rt a l w = (b, l', w')"
  obtains (same) "li_leaderAddr l = a" "b = None" "l' = l" "w' = w"
    | (failed) e where "li_leaderAddr l \<noteq> a" "NewClient rt a = Inl e" "b = Some e" "l' = l" "w' = w"
    | (bound) conn where "li_leaderAddr l \<noteq> a" "NewClient rt a = Inr conn" "b = None"
      "l' = l\<lparr>li_currConn := Some conn, li_leaderAddr := a\<rparr>"
      "w' = (case li_currConn l of Some old \<Rightarrow> snd (CloseConn rt old w) | None \<Rightarrow> w)"
  using assms by (auto simp: rebind_def Let_def split: if_splits sum.splits)

text \<open>After its invocation a turn changes the world by one sleep or one closed connection, if at all.\<close>

lemma rebind_world:
  assumes "rebind rt a l w = (b, l', w')"
  shows "w' = w \<or> (\<exists>cc. w' = snd (CloseConn rt cc w))"
  using assms by (cases rule: rebind_cases) (auto split: option.splits)

lemma turn_world:
  assumes "unary_turn rt c m q s = (x, s')"
    and "Invoke rt c m q (reply_of s) (li_currConn (interceptor s)) (world s) = (r, err, w)"
  shows "world s' = w \<or> (\<exists>d. world s' = Sleep rt d w) \<or> (\<exists>cc. world s' = snd (CloseConn rt cc w))"
  using assms
proof (cases rule: unary_turn_cases)
  case (failover e l1 nx b l' w')
  then show ?thesis using rebind_world [OF failover(5)] by auto
next
  case (follow to r' b l' w')
  then show ?thesis using rebind_world [OF follow(5)] by auto
qed auto

lemma loop_ticks:
  assumes "\<And>s x s'. unary_turn rt c m q s = (x, s') \<Longrightarrow> f (world s') = Suc (f (world s))"
    and "unary_loop rt c m q n s = (err, s')" and "0 < n"
  shows "f (world s) < f (world s') \<and> f (world s') \<le> f (world s) + n"
  using assms(2,3)
proof (induction n arbitrary: s)
  case (Suc n)
  obtain x s1 where t: "unary_turn rt c m q s = (x, s1)" by (cases "unary_turn rt c m q s")
  then have f: "f (world s1) = Suc (f (world s))" by (rule assms(1))
  show ?case
  proof (cases x)
    case Continue
    then show ?thesis using Suc t f by (cases "n = 0") fastforce+
  next
    case (Return e)
    then show ?thesis using Suc.prems t f by simp
  qed
qed simp

section \<open>How a call ends\<close>

definition call_error :: "'w runtime \<Rightarrow> go_error \<Rightarrow> bool" where
  "call_error rt e \<longleftrightarrow>
     e = OtherError ''all peers unreachable'' \<or> e = OtherError ''exceeded max attempts (15)'' \<or>
     (\<exists>a b. NewClient rt a = Inl b \<and>
       (e = Errorf_w ''failed to bind to backup peer: '' b \<or> e = Errorf_w ''failed to rebind: '' b))"

lemma turn_return:
  assumes "unary_turn rt c m q s = (Return err, s')"
  shows "case err of
      None \<Rightarrow> (\<exists>r0 r1 w0. Invoke rt c m q r0 (li_currConn (interceptor s')) w0 = (r1, None, world s')
        \<and> take_redirect r1 = ([], reply_of s'))
    | Some e \<Rightarrow> call_error rt e"
proof -
  obtain r er w where inv: "Invoke rt c m q (reply_of s) (li_currConn (interceptor s)) (world s) = (r, er, w)"
    by (cases "Invoke rt c m q (reply_of s) (li_currConn (interceptor s)) (world s)")
  from assms inv show ?thesis
  proof (cases rule: unary_turn_cases)
    case (failover e l1 nx b l' w')
    from failover(5) show ?thesis
      by (cases rule: rebind_cases) (use failover in \<open>auto simp: call_error_def\<close>)
  next
    case (follow to r' b l' w')
    from follow(5) show ?thesis
      by (cases rule: rebind_cases) (use follow in \<open>auto simp: call_error_def\<close>)
  next
    case (finish r')
    then show ?thesis using inv by simp blast
  qed (auto simp: call_error_def)
qed

lemma call_outcome_aux:
  assumes "Leader_Unary rt c m q r l w = (err, r', l', w')"
  shows "case err of
      None \<Rightarrow> (\<exists>r0 r1 w0. Invoke rt c m q r0 (li_currConn l') w0 = (r1, None, w')
        \<and> take_redirect r1 = ([], r'))
    | Some e \<Rightarrow> e = OtherError ''all peers unreachable'' \<or> e = OtherError ''exceeded max attempts (15)''
        \<or> (\<exists>a b. NewClient rt a = Inl b \<and>
          (e = Errorf_w ''failed to bind to backup peer: '' b \<or> e = Errorf_w ''failed to rebind: '' b))"
proof -
  define Q :: "go_error option \<Rightarrow> 'a call_state \<Rightarrow> bool" where
    "Q err s \<longleftrightarrow> (case err of
      None \<Rightarrow> (\<exists>r0 r1 w0. Invoke rt c m q r0 (li_currConn (interceptor s)) w0 = (r1, None, world s)
        \<and> take_redirect r1 = ([], reply_of s))
    | Some e \<Rightarrow> call_error rt e)" for err s
  have "\<exists>s. Q err s \<and> reply_of s = r' \<and> interceptor s = l' \<and> world s = w'"
  proof (rule Leader_Unary_rule [where P = "\<lambda>s. True" and Q = Q, OF _ _ _ _ assms])
    show "Q e s'" if "unary_turn rt c m q s = (Return e, s')" for s s' e
      using turn_return [OF that] by (simp add: Q_def)
    show "Q (Some (OtherError ''exceeded max attempts (15)'')) s" for s
      by (simp add: Q_def call_error_def)
  qed simp_all
  then show ?thesis by (auto simp: Q_def call_error_def split: option.splits)
qed

text \<open>C29: How a call ends.  A call that reports success ended with an invocation, on the connection
  the interceptor is bound to when it returns, that succeeded without a redirect, and the caller
  sees exactly that reply and that world; a call that fails reports one of the interceptor's own
  four errors, never the error a server returned.\<close>

theorem call_outcome:
  "case Leader_Unary rt c m q r l w of (err, r', l', w') \<Rightarrow>
     (case err of
        None \<Rightarrow> (\<exists>r0 r1 w0. Invoke rt c m q r0 (li_currConn l') w0 = (r1, None, w')
          \<and> take_redirect r1 = ([], r'))
      | Some e \<Rightarrow> e = OtherError ''all peers unreachable'' \<or> e = OtherError ''exceeded max attempts (15)''
          \<or> (\<exists>a b. NewClient rt a = Inl b \<and>
            (e = Errorf_w ''failed to bind to backup peer: '' b \<or> e = Errorf_w ''failed to rebind: '' b)))"
  using call_outcome_aux [of rt c m q r l w]
  by (cases "Leader_Unary rt c m q r l w") (simp split: option.splits)

section \<open>How often a call invokes\<close>

text \<open>The same runtime over a world that counts the invocations.\<close>

definition counted :: "'w runtime \<Rightarrow> (nat \<times> 'w) runtime" where
  "counted rt =
     \<lparr>Invoke = (\<lambda>c m q r conn (k, w). case Invoke rt c m q r conn w of (r', e, w') \<Rightarrow> (r', e, (Suc k, w'))),
      NewClient = NewClient rt,
      CloseConn = (\<lambda>conn (k, w). case CloseConn rt conn w of (e, w') \<Rightarrow> (e, (k, w'))),
      Sleep = (\<lambda>d (k, w). (k, Sleep rt d w))\<rparr>"

definition with_count :: "nat \<Rightarrow> 'w call_state \<Rightarrow> (nat \<times> 'w) call_state" where
  "with_count k s =
     \<lparr>dead_peers = dead_peers s, interceptor = interceptor s, reply_of = reply_of s, world = (k, world s)\<rparr>"

lemma with_count_simps [simp]:
  "dead_peers (with_count k s) = dead_peers s" "interceptor (with_count k s) = interceptor s"
  "reply_of (with_count k s) = reply_of s" "world (with_count k s) = (k, world s)"
  by (simp_all add: with_count_def)

lemma with_count_update [simp]:
  "with_count k s\<lparr>world := (k', w)\<rparr> = with_count k' (s\<lparr>world := w\<rparr>)"
  "with_count k s\<lparr>reply_of := r\<rparr> = with_count k (s\<lparr>reply_of := r\<rparr>)"
  "with_count k s\<lparr>interceptor := l\<rparr> = with_count k (s\<lparr>interceptor := l\<rparr>)"
  "with_count k s\<lparr>dead_peers := d\<rparr> = with_count k (s\<lparr>dead_peers := d\<rparr>)"
  by (simp_all add: with_count_def)

lemma rebind_counted:
  "rebind (counted rt) a l (k, w) = (case rebind rt a l w of (b, l', w') \<Rightarrow> (b, l', (k, w')))"
  by (auto simp: rebind_def counted_def Let_def split: sum.splits option.splits prod.splits)

lemma sleep_counted: "Sleep (counted rt) d (k, w) = (k, Sleep rt d w)"
  by (simp add: counted_def)

lemma after_error_counted:
  "after_error (counted rt) a e (with_count k s) =
     (case after_error rt a e s of (x, s') \<Rightarrow> (x, with_count k s'))"
proof -
  obtain nx l1 where n: "nextAlivePeer (AList.update a True (dead_peers s)) (interceptor s) = (nx, l1)"
    by (cases "nextAlivePeer (AList.update a True (dead_peers s)) (interceptor s)")
  obtain b l' w' where rb: "rebind rt nx l1 (world s) = (b, l', w')" by (cases "rebind rt nx l1 (world s)")
  show ?thesis
    by (cases b) (simp_all add: after_error_def Let_def n rb rebind_counted sleep_counted)
qed

lemma after_reply_counted:
  "after_reply (counted rt) (with_count k s) =
     (case after_reply rt s of (x, s') \<Rightarrow> (x, with_count k s'))"
proof -
  obtain to r' where t: "take_redirect (reply_of s) = (to, r')" by (cases "take_redirect (reply_of s)")
  obtain b l' w' where rb: "rebind rt to (interceptor s) (world s) = (b, l', w')"
    by (cases "rebind rt to (interceptor s) (world s)")
  show ?thesis
    by (cases b) (simp_all add: after_reply_def Let_def t rb rebind_counted sleep_counted)
qed

lemma turn_counted:
  "unary_turn (counted rt) c m q (with_count k s) =
     (case unary_turn rt c m q s of (x, s') \<Rightarrow> (x, with_count (Suc k) s'))"
proof -
  obtain r e w where i: "Invoke rt c m q (reply_of s) (li_currConn (interceptor s)) (world s) = (r, e, w)"
    by (cases "Invoke rt c m q (reply_of s) (li_currConn (interceptor s)) (world s)")
  have "Invoke (counted rt) c m q (reply_of s) (li_currConn (interceptor s)) (k, world s) = (r, e, (Suc k, w))"
    by (simp add: counted_def i)
  then show ?thesis
    by (cases e) (simp_all add: unary_turn_def Let_def i after_error_counted after_reply_counted)
qed

lemma loop_counted:
  "unary_loop (counted rt) c m q n (with_count k s) =
     (case unary_loop rt c m q n s of (err, s') \<Rightarrow>
        (err, with_count (fst (world (snd (unary_loop (counted rt) c m q n (with_count k s))))) s'))
   \<and> k + (if n = 0 then 0 else 1) \<le> fst (world (snd (unary_loop (counted rt) c m q n (with_count k s))))
   \<and> fst (world (snd (unary_loop (counted rt) c m q n (with_count k s)))) \<le> k + n"
proof (induction n arbitrary: k s)
  case (Suc n)
  obtain x s1 where t: "unary_turn rt c m q s = (x, s1)" by (cases "unary_turn rt c m q s")
  show ?case
    using Suc.IH [of "Suc k" s1]
    by (cases x) (auto simp: t turn_counted split: prod.splits)
qed simp

lemma Leader_Unary_counted:
  "Leader_Unary (counted rt) c m q r l (k, w) =
     (case unary_loop (counted rt) c m q 15
         (with_count k \<lparr>dead_peers = [], interceptor = l, reply_of = r, world = w\<rparr>) of
        (err, s) \<Rightarrow> (err, reply_of s, interceptor s, world s))"
  by (simp add: Leader_Unary_def maxAttempts_def with_count_def)

text \<open>A call invokes at least once and at most 15 times, and counting the invocations changes
  nothing else about it: with every server gone or every election stuck, the call still returns.\<close>

lemma at_most_15_invocations:
  "\<exists>k'. Leader_Unary (counted rt) c m q r l (k, w) =
      (case Leader_Unary rt c m q r l w of (err, r', l', w') \<Rightarrow> (err, r', l', (k', w')))
    \<and> k + 1 \<le> k' \<and> k' \<le> k + 15"
proof -
  let ?s = "\<lparr>dead_peers = [], interceptor = l, reply_of = r, world = w\<rparr>"
  obtain err s' where r: "unary_loop rt c m q 15 ?s = (err, s')" by (cases "unary_loop rt c m q 15 ?s")
  obtain err1 s1 where c: "unary_loop (counted rt) c m q 15 (with_count k ?s) = (err1, s1)"
    by (cases "unary_loop (counted rt) c m q 15 (with_count k ?s)")
  have "err1 = err" "s1 = with_count (fst (world s1)) s'" "k + 1 \<le> fst (world s1)" "fst (world s1) \<le> k + 15"
    using loop_counted [of rt c m q 15 k ?s] by (simp_all add: r c)
  moreover have "world s1 = (fst (world s1), world s')" "reply_of s1 = reply_of s'" "interceptor s1 = interceptor s'"
    by (subst calculation(2), simp)+
  ultimately have "Leader_Unary (counted rt) c m q r l (k, w) =
      (err, reply_of s', interceptor s', (fst (world s1), world s'))"
    by (simp add: Leader_Unary_counted c)
  moreover have "Leader_Unary rt c m q r l w = (err, reply_of s', interceptor s', world s')"
    by (simp add: Leader_Unary_def maxAttempts_def r)
  ultimately show ?thesis
    using \<open>k + 1 \<le> fst (world s1)\<close> \<open>fst (world s1) \<le> k + 15\<close> by auto
qed

section \<open>Which peer comes next\<close>

text \<open>Peers are tried in turn.  \<open>nextAlivePeer\<close> returns the first peer not marked dead, going round the
  list from the position after the last one tried, wherever that is; the empty string when all
  are marked; and it moves nothing but that position, which stays inside the list.\<close>

lemma next_peer_in_turn:
  "fst (nextAlivePeer dead l) =
     (case filter (\<lambda>a. \<not> is_dead dead a) (rotate (Suc (li_peerIdx l)) (li_peers l)) of [] \<Rightarrow> [] | a # _ \<Rightarrow> a)
   \<and> (\<exists>i. snd (nextAlivePeer dead l) = l\<lparr>li_peerIdx := i\<rparr> \<and> (wf_interceptor l \<longrightarrow> i < length (li_peers l)))"
  using nextAlivePeer_fst [of dead l] next_alive_frame [of "length (li_peers l)" dead l]
  by (simp only: nextAlivePeer_def)

lemma next_peer_in_turn_witness:
  "fst (nextAlivePeer [(''b'', True)]
      \<lparr>li_currConn = None, li_leaderAddr = ''b'', li_peers = [''a'', ''b'', ''c''], li_peerIdx = 2\<rparr>) = ''a''"
proof -
  let ?l = "\<lparr>li_currConn = None, li_leaderAddr = ''b'', li_peers = [''a'', ''b'', ''c''], li_peerIdx = 2\<rparr>"
  have "(case filter (\<lambda>a. \<not> is_dead [(''b'', True)] a) (rotate (Suc (li_peerIdx ?l)) (li_peers ?l)) of
      [] \<Rightarrow> [] | a # _ \<Rightarrow> a) = ''a''"
    by (simp add: is_dead_def eval_nat_numeral)
  then show ?thesis using next_peer_in_turn [of "[(''b'', True)]" ?l] by simp
qed

section \<open>Errors a server means\<close>

text \<open>C30: An error a server returns on purpose is retried and then lost.  When every invocation fails
  with an error that is no transport failure, the \<open>InvalidArgument\<close> for an empty counter name as
  much as \<open>Unavailable\<close> during an election, the call invokes exactly 15 times, always on the
  connection it started with, and returns the attempt-limit error in place of the server's.\<close>

theorem server_error_swallowed:
  assumes "\<And>r w. \<exists>r' e w'. Invoke rt c m q r (li_currConn l) w = (r', Some e, w') \<and> \<not> isTransportFailure (Some e)"
  shows "\<exists>r' w'. Leader_Unary (counted rt) c m q r l (k, w) =
    (Some (OtherError ''exceeded max attempts (15)''), r', l, (k + 15, w'))"
proof -
  have turn: "\<exists>s'. unary_turn rt c m q s = (Continue, s') \<and> interceptor s' = l" if l: "interceptor s = l" for s
  proof -
    obtain r' e w' where "Invoke rt c m q (reply_of s) (li_currConn l) (world s) = (r', Some e, w')"
        "\<not> isTransportFailure (Some e)"
      using assms by blast
    then show ?thesis using l by (simp add: unary_turn_def after_error_def)
  qed
  have loop: "\<exists>s'. unary_loop (counted rt) c m q n (with_count k s) =
      (Some (OtherError ''exceeded max attempts (15)''), with_count (k + n) s') \<and> interceptor s' = l"
    if "interceptor s = l" for n k s
    using that
  proof (induction n arbitrary: k s)
    case 0
    have "FormatInt (of_nat maxAttempts) = ''15''" by code_simp
    then show ?case using 0 by auto
  next
    case (Suc n)
    obtain s1 where "unary_turn rt c m q s = (Continue, s1)" "interceptor s1 = l"
      using turn [OF Suc.prems] by blast
    then show ?case using Suc.IH [of s1 "Suc k"] by (simp add: turn_counted)
  qed
  show ?thesis
    using loop [of "\<lparr>dead_peers = [], interceptor = l, reply_of = r, world = w\<rparr>" 15 k]
    by (auto simp: Leader_Unary_counted)
qed

definition refusing_runtime :: "unit runtime" where
  "refusing_runtime =
     \<lparr>Invoke = (\<lambda>c m q r conn w. (r, Some (GrpcStatus InvalidArgument ''counter_id must not be empty''), w)),
      NewClient = (\<lambda>a. Inr (ClientConn a)), CloseConn = (\<lambda>conn w. (None, w)), Sleep = (\<lambda>d w. w)\<rparr>"

lemma server_error_swallowed_witness:
  "\<exists>r' w'. Leader_Unary (counted refusing_runtime) Background ''IncrCounter'' (OtherReq []) (OtherReply [])
      \<lparr>li_currConn = Some (ClientConn ''a''), li_leaderAddr = ''a'', li_peers = [''a'', ''b''], li_peerIdx = 0\<rparr> (0, ()) =
    (Some (OtherError ''exceeded max attempts (15)''), r',
     \<lparr>li_currConn = Some (ClientConn ''a''), li_leaderAddr = ''a'', li_peers = [''a'', ''b''], li_peerIdx = 0\<rparr>, (0 + 15, w'))"
  by (rule server_error_swallowed) (simp add: refusing_runtime_def isTransportFailure_def)

end
