(* ===== verification/Request_Chain.thy ===== *)
theory Request_Chain
  imports Leader_Call
begin

text \<open>
  The other client interceptors, and the chains of interceptors the commands build.
  \<open>internal/client/requestid.go\<close> stamps an increment with the client's identifier and the next
  request number, \<open>internal/client/attempts.go\<close> counts the invocations that reach the wire in a
  tracker found through the context, \<open>cmd/client\<close> adds a logging interceptor.  The stubs are those
  of \<open>gen/counter/counter_grpc.pb.go\<close>.  The retry interceptor of go-grpc-middleware is a
  parameter, a map from invokers to invokers.
\<close>

section \<open>Request numbers\<close>

record RequestIDInterceptor =
  ri_clientID :: string
  ri_requestID :: int64

definition NewRequestIDInterceptor :: "string \<Rightarrow> RequestIDInterceptor" where
  "NewRequestIDInterceptor uuid = \<lparr>ri_clientID = uuid, ri_requestID = 0\<rparr>"

text \<open>The request is a message the caller keeps, so its new content is part of the result.\<close>

definition stamp :: "RequestIDInterceptor \<Rightarrow> request \<Rightarrow> RequestIDInterceptor \<times> request" where
  "stamp i req =
     (case req of
        IncrReq incrReq \<Rightarrow>
          if irq_ClientId incrReq = [] then
            let i' = i\<lparr>ri_requestID := ri_requestID i + 1\<rparr>
            in (i', IncrReq (incrReq\<lparr>irq_ClientId := ri_clientID i', irq_RequestId := ri_requestID i'\<rparr>))
          else (i, req)
      | _ \<Rightarrow> (i, req))"

definition RequestID_Unary :: "'w invoker \<Rightarrow> ctx \<Rightarrow> string \<Rightarrow> request \<Rightarrow> reply \<Rightarrow> client_conn option \<Rightarrow>
    RequestIDInterceptor \<Rightarrow> 'w \<Rightarrow> (reply \<times> go_error option \<times> 'w) \<times> RequestIDInterceptor \<times> request" where
  "RequestID_Unary invoker c method req r cc i w =
     (let (i', req') = stamp i req in (invoker c method req' r cc w, i', req'))"

section \<open>Attempt counting\<close>

record AttemptTracker =
  attempts :: int64

type_synonym trackers = "nat \<Rightarrow> AttemptTracker"

definition NewAttemptTracker :: AttemptTracker where
  "NewAttemptTracker = \<lparr>attempts = 0\<rparr>"

definition WithAttemptTracker :: "ctx \<Rightarrow> nat option \<Rightarrow> ctx" where
  "WithAttemptTracker c tracker = WithValue c AttemptTrackerKey (TrackerValue tracker)"

definition Count :: "trackers \<Rightarrow> nat option \<Rightarrow> int64" where
  "Count h t = (case t of None \<Rightarrow> 0 | Some p \<Rightarrow> attempts (h p))"

definition AttemptCountingInterceptor :: "'w invoker \<Rightarrow> (trackers \<times> 'w) invoker" where
  "AttemptCountingInterceptor invoker c method req r cc hw =
     (let (h, w) = hw;
          h' = (case ctx_Value c AttemptTrackerKey of
                  Some (TrackerValue (Some p)) \<Rightarrow> h(p := (h p)\<lparr>attempts := attempts (h p) + 1\<rparr>)
                | _ \<Rightarrow> h);
          (r', err, w') = invoker c method req r cc w
      in (r', err, (h', w')))"

section \<open>Stubs and chains\<close>

definition client_IncrCounter ::
  "(request \<Rightarrow> reply \<Rightarrow> 'w \<Rightarrow> reply \<times> go_error option \<times> 'w) \<Rightarrow> IncrRequest \<Rightarrow> 'w \<Rightarrow>
     (go_error + reply) \<times> 'w" where
  "client_IncrCounter cc_Invoke i w =
     (let out0 = IncrReply \<lparr>irs_NewValue = 0, irs_RedirectTo = []\<rparr>;
          (out1, err, w') = cc_Invoke (IncrReq i) out0 w
      in (case err of Some e \<Rightarrow> (Inl e, w') | None \<Rightarrow> (Inr out1, w')))"

definition client_GetCounter ::
  "(request \<Rightarrow> reply \<Rightarrow> 'w \<Rightarrow> reply \<times> go_error option \<times> 'w) \<Rightarrow> GetRequest \<Rightarrow> 'w \<Rightarrow>
     (go_error + reply) \<times> 'w" where
  "client_GetCounter cc_Invoke i w =
     (let out0 = GetReply \<lparr>grs_Value = 0, grs_RedirectTo = []\<rparr>;
          (out1, err, w') = cc_Invoke (GetReq i) out0 w
      in (case err of Some e \<Rightarrow> (Inl e, w') | None \<Rightarrow> (Inr out1, w')))"

text \<open>An interceptor's runtime over a larger world whose first part it leaves alone.\<close>

definition lift_runtime :: "(('h \<times> 'w) invoker) \<Rightarrow> 'w runtime \<Rightarrow> ('h \<times> 'w) runtime" where
  "lift_runtime invoker rt =
     \<lparr>Invoke = invoker, NewClient = NewClient rt,
      CloseConn = (\<lambda>conn (h, w). case CloseConn rt conn w of (e, w') \<Rightarrow> (e, (h, w'))),
      Sleep = (\<lambda>d (h, w). (h, Sleep rt d w))\<rparr>"

definition leader_invoker :: "'w runtime \<Rightarrow> (LeaderInterceptor \<times> 'w) invoker" where
  "leader_invoker rt c method req r cc lw =
     (case Leader_Unary rt c method req r (fst lw) (snd lw) of (err, r', l', w') \<Rightarrow> (r', err, (l', w')))"

text \<open>
  The chain of \<open>cmd/loadgen\<close>: request numbers, leader, retry, attempt counting, wire.  The client's
  state is the two interceptors; the call returns them with the result.
\<close>

definition loadgen_chain ::
  "((trackers \<times> 'w) invoker \<Rightarrow> (trackers \<times> 'w) invoker) \<Rightarrow> 'w runtime \<Rightarrow> ctx \<Rightarrow> string \<Rightarrow> request \<Rightarrow> reply \<Rightarrow>
     client_conn option \<Rightarrow> RequestIDInterceptor \<Rightarrow> LeaderInterceptor \<times> trackers \<times> 'w \<Rightarrow>
     (reply \<times> go_error option \<times> LeaderInterceptor \<times> trackers \<times> 'w) \<times> RequestIDInterceptor \<times> request" where
  "loadgen_chain retry rt c method req r cc i w =
     RequestID_Unary
       (leader_invoker (lift_runtime (retry (AttemptCountingInterceptor (Invoke rt))) rt))
       c method req r cc i w"

text \<open>The chain of \<open>cmd/client\<close>: logging, request numbers, leader, retry, wire; the log is a list.\<close>

definition loggingInterceptor ::
  "('w \<Rightarrow> int64) \<Rightarrow> 'w invoker \<Rightarrow> ((string \<times> int64 \<times> go_error option) list \<times> 'w) invoker" where
  "loggingInterceptor now invoker c method req r cc lw =
     (let (logged, w) = lw; start = now w; (r', err, w') = invoker c method req r cc w
      in (r', err, (logged @ [(method, now w' - start, err)], w')))"

section \<open>Stamping\<close>

definition stamped_request :: "RequestIDInterceptor \<Rightarrow> IncrRequest \<Rightarrow> IncrRequest" where
  "stamped_request i q =
     (if irq_ClientId q = [] then q\<lparr>irq_ClientId := ri_clientID i, irq_RequestId := ri_requestID i + 1\<rparr> else q)"

lemma stamp_IncrReq:
  "stamp i (IncrReq q) =
     (if irq_ClientId q = [] then i\<lparr>ri_requestID := ri_requestID i + 1\<rparr> else i, IncrReq (stamped_request i q))"
  by (simp add: stamp_def stamped_request_def)

fun stamp_all :: "RequestIDInterceptor \<Rightarrow> request list \<Rightarrow> RequestIDInterceptor \<times> request list" where
  "stamp_all i [] = (i, [])"
| "stamp_all i (q # qs) = (let (i1, q') = stamp i q; (i2, qs') = stamp_all i1 qs in (i2, q' # qs'))"

fun incr_ident :: "request \<Rightarrow> (string \<times> int64) list" where
  "incr_ident (IncrReq q) = [(irq_ClientId q, irq_RequestId q)]"
| "incr_ident _ = []"

definition unstamped :: "request \<Rightarrow> bool" where
  "unstamped q \<longleftrightarrow> (case q of IncrReq x \<Rightarrow> irq_ClientId x = [] | _ \<Rightarrow> True)"

lemma stamp_all_numbers:
  assumes "\<forall>q \<in> set qs. unstamped q"
  shows "concat (map incr_ident (snd (stamp_all i qs))) =
     map (\<lambda>n. (ri_clientID i, ri_requestID i + of_nat n))
       [1 ..< Suc (length (concat (map incr_ident qs)))]
   \<and> ri_clientID (fst (stamp_all i qs)) = ri_clientID i"
  using assms
proof (induction qs arbitrary: i)
  case (Cons q qs)
  show ?case
  proof (cases q)
    case (IncrReq x)
    let ?i = "i\<lparr>ri_requestID := ri_requestID i + 1\<rparr>" and ?n = "length (concat (map incr_ident qs))"
    have x: "irq_ClientId x = []" using Cons.prems IncrReq by (simp add: unstamped_def)
    have "map (\<lambda>n. (ri_clientID i, ri_requestID i + 1 + of_nat n)) [1 ..< Suc ?n] =
        map (\<lambda>n. (ri_clientID i, ri_requestID i + of_nat n)) [Suc 1 ..< Suc (Suc ?n)]"
      by (simp only: map_Suc_upt [symmetric, of 1] map_map o_def of_nat_Suc add.assoc)
    moreover have "[1 ..< Suc (Suc ?n)] = 1 # [Suc 1 ..< Suc (Suc ?n)]" by (rule upt_conv_Cons) simp
    ultimately show ?thesis
      using Cons.IH [of ?i] Cons.prems
      by (simp add: IncrReq stamp_IncrReq x stamped_request_def split_beta del: upt_Suc)
  qed (use Cons in \<open>simp_all add: stamp_def split_beta\<close>)
qed simp

text \<open>Request numbers never repeat.  Stamped by one interceptor, any sequence of fewer than \<open>2 ^ 64\<close>
  increments without an identifier of their own gets the interceptor's client identifier and
  pairwise different request numbers, whatever other requests come in between: no two logical
  operations of a client are ever mistaken for one another by a reply cache.\<close>

lemma stamps_distinct:
  assumes "\<forall>q \<in> set qs. unstamped q"
    and "length (concat (map incr_ident qs)) < 2 ^ 64"
  shows "distinct (concat (map incr_ident (snd (stamp_all i qs))))
    \<and> fst ` set (concat (map incr_ident (snd (stamp_all i qs)))) \<subseteq> {ri_clientID i}
    \<and> length (concat (map incr_ident (snd (stamp_all i qs)))) = length (concat (map incr_ident qs))"
proof -
  let ?n = "length (concat (map incr_ident qs))"
  have "inj_on (\<lambda>k. (ri_clientID i, ri_requestID i + of_nat k)) (set [1 ..< Suc ?n])"
  proof (rule inj_onI)
    fix a b assume ab: "a \<in> set [1 ..< Suc ?n]" "b \<in> set [1 ..< Suc ?n]"
      and "(ri_clientID i, ri_requestID i + of_nat a) = (ri_clientID i, ri_requestID i + of_nat b)"
    then have "(of_nat a :: int64) = of_nat b" by simp
    then have "a mod 2 ^ 64 = b mod 2 ^ 64" by (simp add: unat_of_nat flip: word_unat_eq_iff) (simp add: word_unat_eq_iff unat_of_nat)
    moreover have "a < 2 ^ 64" "b < 2 ^ 64" using ab assms(2) by auto
    ultimately show "a = b" by (simp only: mod_less)
  qed
  then show ?thesis
    by (auto simp: stamp_all_numbers [OF assms(1)] distinct_map simp del: upt_Suc)
qed

lemma stamps_distinct_witness:
  "distinct (concat (map incr_ident (snd (stamp_all (NewRequestIDInterceptor ''u'')
      [IncrReq \<lparr>irq_CounterId = ''x'', irq_ClientId = [], irq_RequestId = 0\<rparr>,
       IncrReq \<lparr>irq_CounterId = ''x'', irq_ClientId = [], irq_RequestId = 0\<rparr>]))))"
  by (rule stamps_distinct [THEN conjunct1]) (simp_all add: unstamped_def)

section \<open>Counting\<close>

lemma ctx_tracker [simp]: "ctx_Value (WithAttemptTracker c t) AttemptTrackerKey = Some (TrackerValue t)"
  by (simp add: WithAttemptTracker_def)

text \<open>The tracker counts what reaches the wire.  In a call under a tracker, without a retry
  interceptor in between, the tracker ends up larger by exactly the number of invocations of the
  wire, at least 1 and at most 15, and no other tracker changes.\<close>

lemma tracker_counts_invocations:
  assumes "Leader_Unary (lift_runtime (AttemptCountingInterceptor (Invoke (counted rt))) (counted rt))
      (WithAttemptTracker c (Some p)) m q r l (h, (k, w)) = (err, r', l', (h', (k', w')))"
  shows "Count h' (Some p) = Count h (Some p) + of_nat (k' - k) \<and> k < k' \<and> k' \<le> k + 15
    \<and> (\<forall>p'. p' \<noteq> p \<longrightarrow> h' p' = h p')"
proof -
  let ?rt = "lift_runtime (AttemptCountingInterceptor (Invoke (counted rt))) (counted rt)"
  let ?c = "WithAttemptTracker c (Some p)"
  have turn: "\<exists>w1. world s' = ((fst (world s))(p := fst (world s) p\<lparr>attempts := attempts (fst (world s) p) + 1\<rparr>),
      (Suc (fst (snd (world s))), w1))"
    if t: "unary_turn ?rt ?c m q s = (x, s')" for s x s'
  proof -
    obtain h0 k0 w0 where s: "world s = (h0, (k0, w0))" by (metis prod.exhaust)
    obtain r1 e1 w1 where i: "Invoke rt ?c m q (reply_of s) (li_currConn (interceptor s)) w0 = (r1, e1, w1)"
      by (cases "Invoke rt ?c m q (reply_of s) (li_currConn (interceptor s)) w0")
    have "Invoke ?rt ?c m q (reply_of s) (li_currConn (interceptor s)) (world s) =
        (r1, e1, (h0(p := h0 p\<lparr>attempts := attempts (h0 p) + 1\<rparr>), (Suc k0, w1)))"
      by (simp add: lift_runtime_def AttemptCountingInterceptor_def s counted_def i)
    from turn_world [OF t this] show ?thesis
      by (auto simp: s lift_runtime_def counted_def split: prod.splits)
  qed
  define Q where "Q err s \<longleftrightarrow> k \<le> fst (snd (world s))
      \<and> attempts (fst (world s) p) = attempts (h p) + of_nat (fst (snd (world s)) - k)
      \<and> (\<forall>p'. p' \<noteq> p \<longrightarrow> fst (world s) p' = h p')"
    for err :: "go_error option" and s :: "(trackers \<times> nat \<times> 'a) call_state"
  have step: "Q e' s'" if "Q e s" "unary_turn ?rt ?c m q s = (x, s')" for e e' s x s'
    using turn [OF that(2)] that(1) by (auto simp: Q_def Suc_diff_le)
  have "\<exists>s. Q err s \<and> reply_of s = r' \<and> interceptor s = l' \<and> world s = (h', (k', w'))"
  proof (rule Leader_Unary_rule [where P = "Q None" and Q = Q, OF _ _ _ _ assms])
    show "Q None \<lparr>dead_peers = [], interceptor = l, reply_of = r, world = (h, k, w)\<rparr>" by (simp add: Q_def)
    show "Q None s'" if "Q None s" "unary_turn ?rt ?c m q s = (Continue, s')" for s s'
      by (rule step [OF that])
    show "Q e s'" if "Q None s" "unary_turn ?rt ?c m q s = (Return e, s')" for s s' e
      by (rule step [OF that])
    show "Q (Some (OtherError ''exceeded max attempts (15)'')) s" if "Q None s" for s
      using that unfolding Q_def .
  qed
  moreover have "k < k' \<and> k' \<le> k + 15"
  proof -
    obtain s' where s': "unary_loop ?rt ?c m q 15
        \<lparr>dead_peers = [], interceptor = l, reply_of = r, world = (h, k, w)\<rparr> = (err, s')"
      "world s' = (h', (k', w'))"
      using assms by (auto simp: Leader_Unary_def maxAttempts_def split: prod.splits)
    have "fst (snd (world s')) = Suc (fst (snd (world s)))" if "unary_turn ?rt ?c m q s = (x, s')" for s x s'
      using turn [OF that] by auto
    from loop_ticks [where f = "\<lambda>w. fst (snd w)", OF this s'(1)] show ?thesis using s'(2) by simp
  qed
  ultimately show ?thesis by (auto simp: Q_def Count_def)
qed

lemma tracker_counts_invocations_witness:
  "let res = Leader_Unary (lift_runtime (AttemptCountingInterceptor (Invoke (counted refusing_runtime)))
        (counted refusing_runtime)) (WithAttemptTracker Background (Some 4)) ''IncrCounter'' (OtherReq []) (OtherReply [])
      \<lparr>li_currConn = Some (ClientConn ''a''), li_leaderAddr = ''a'', li_peers = [''a'', ''b''], li_peerIdx = 0\<rparr>
      ((\<lambda>p. NewAttemptTracker), (0, ()));
      h' = fst (snd (snd (snd res))); k' = fst (snd (snd (snd (snd res))))
   in Count h' (Some 4) = 0 + of_nat (k' - 0) \<and> k' \<le> 0 + 15"
proof -
  let ?res = "Leader_Unary (lift_runtime (AttemptCountingInterceptor (Invoke (counted refusing_runtime)))
        (counted refusing_runtime)) (WithAttemptTracker Background (Some 4)) ''IncrCounter'' (OtherReq []) (OtherReply [])
      \<lparr>li_currConn = Some (ClientConn ''a''), li_leaderAddr = ''a'', li_peers = [''a'', ''b''], li_peerIdx = 0\<rparr>
      ((\<lambda>p. NewAttemptTracker), (0, ()))"
  obtain err r' l' h' k' w' where res: "?res = (err, r', l', (h', (k', w')))" by (metis prod.exhaust)
  have "Count (\<lambda>p. NewAttemptTracker) (Some 4) = 0" by (simp add: Count_def NewAttemptTracker_def)
  then show ?thesis
    using tracker_counts_invocations [OF res] by (simp only: res Let_def fst_conv snd_conv simp_thms)
qed

end
