(* ===== verification/Client_Session.thy ===== *)
theory Client_Session
  imports Client_Group
begin

text \<open>
  The servers of \<open>internal/server\<close> as the group behind the client interceptors, and a session of
  increments of one client.  Every invocation has a fate, taken from a list that stands for the
  network: it is delivered, its request is lost, or it is executed and its reply is lost; an
  address that is not up answers nothing.  Leadership does not move during a session here;
  failovers are the subject of \<open>Exactly_Once\<close>.
\<close>

section \<open>Servers as a group\<close>

datatype fate = Delivered | RequestLost go_error | ReplyLost go_error

record Group =
  server_at :: "string \<Rightarrow> Server"
  fates :: "fate list"

text \<open>The server at an address handles a request; its \<open>Replicate\<close> calls reach the others that are up.\<close>

definition group_incr :: "string set \<Rightarrow> IncrRequest \<Rightarrow> string \<Rightarrow> Group \<Rightarrow> (go_error + reply) \<times> Group" where
  "group_incr up q a g =
     (case IncrCounter (server_at g a) q of
        (s, res, es) \<Rightarrow>
          (case res of Inl e \<Rightarrow> Inl e | Inr x \<Rightarrow> Inr (IncrReply x),
           g\<lparr>server_at := (\<lambda>b. if b = a then s else if b \<in> up then fold deliver_effect es (server_at g b)
             else server_at g b)\<rparr>))"

definition group_handle :: "string set \<Rightarrow> request \<Rightarrow> string \<Rightarrow> Group \<Rightarrow> (go_error + reply) \<times> Group" where
  "group_handle up q a g =
     (case q of
        IncrReq x \<Rightarrow> group_incr up x a g
      | GetReq x \<Rightarrow> (case GetCounter (server_at g a) x of Inl e \<Rightarrow> Inl e | Inr y \<Rightarrow> Inr (GetReply y), g)
      | OtherReq _ \<Rightarrow> (Inl (GrpcStatus (OtherCode ''Unimplemented'') ''unknown method''), g))"

definition refused :: go_error where
  "refused = GrpcStatus Unavailable ''connection error: desc = dial tcp: connection refused''"

definition group_invoke :: "string set \<Rightarrow> Group invoker" where
  "group_invoke up c method q r conn g =
     (case conn of
        None \<Rightarrow> (r, Some (OtherError ''no connection''), g)
      | Some cc \<Rightarrow>
          if conn_target cc \<notin> up then (r, Some refused, g)
          else
            let fate = (case fates g of [] \<Rightarrow> Delivered | f # _ \<Rightarrow> f); g1 = g\<lparr>fates := tl (fates g)\<rparr> in
            case fate of
              RequestLost e \<Rightarrow> (r, Some e, g1)
            | ReplyLost e \<Rightarrow> (r, Some e, snd (group_handle up q (conn_target cc) g1))
            | Delivered \<Rightarrow>
                (case group_handle up q (conn_target cc) g1 of
                   (Inl e, g2) \<Rightarrow> (r, Some e, g2)
                 | (Inr x, g2) \<Rightarrow> (x, None, g2)))"

definition group_runtime :: "string set \<Rightarrow> Group runtime" where
  "group_runtime up =
     \<lparr>Invoke = group_invoke up, NewClient = (\<lambda>a. Inr (ClientConn a)),
      CloseConn = (\<lambda>conn g. (None, g)), Sleep = (\<lambda>d g. g)\<rparr>"

lemma group_runtime_simps [simp]:
  "Invoke (group_runtime up) = group_invoke up" "NewClient (group_runtime up) a = Inr (ClientConn a)"
  "CloseConn (group_runtime up) conn g = (None, g)" "Sleep (group_runtime up) d g = g"
  by (simp_all add: group_runtime_def)

text \<open>A group that agrees on a leader which is up and serves.\<close>

definition settled :: "string set \<Rightarrow> string \<Rightarrow> Group \<Rightarrow> bool" where
  "settled up L g \<longleftrightarrow>
     L \<in> up \<and> L \<noteq> [] \<and> inViewChange (server_at g L) \<noteq> 1 \<and> cache_ok (cache (server_at g L)) \<and>
     (\<forall>a \<in> up. self (server_at g a) = a \<and> leaderAddr (server_at g a) = L)"

definition named_counter :: "request \<Rightarrow> bool" where
  "named_counter q \<longleftrightarrow>
     (case q of IncrReq x \<Rightarrow> irq_CounterId x \<noteq> [] | GetReq x \<Rightarrow> grq_CounterId x \<noteq> [] | OtherReq _ \<Rightarrow> False)"

text \<open>The caller's reply is the leader's, and the leader has handled the request once.\<close>

definition leader_reply :: "string \<Rightarrow> request \<Rightarrow> Group \<Rightarrow> reply \<Rightarrow> Group \<Rightarrow> bool" where
  "leader_reply L q g r g' \<longleftrightarrow>
     (case q of
        IncrReq x \<Rightarrow> (\<exists>y. r = IncrReply y \<and> fst (snd (IncrCounter (server_at g L) x)) = Inr y \<and>
          server_at g' L = fst (IncrCounter (server_at g L) x))
      | GetReq x \<Rightarrow> (\<exists>y. r = GetReply y \<and> GetCounter (server_at g L) x = Inr y \<and> g' = g)
      | OtherReq _ \<Rightarrow> False)"

lemma settled_leader: "settled up L g \<Longrightarrow> serving (server_at g L)"
  by (auto simp: settled_def serving_def)

lemma deliver_fold_frame [simp]:
  "self (fold deliver_effect es f) = self f \<and> leaderAddr (fold deliver_effect es f) = leaderAddr f"
proof (induction es arbitrary: f)
  case (Cons e es)
  then show ?case by (cases e) (simp_all add: server_frame)
qed simp

lemma group_incr_redirect:
  assumes "settled up L g" and "irq_CounterId q \<noteq> []" and "a \<in> up" and "a \<noteq> L"
  shows "group_incr up q a g = (Inr (IncrReply \<lparr>irs_NewValue = 0, irs_RedirectTo = L\<rparr>), g)"
proof -
  have "self (server_at g a) = a" "leaderAddr (server_at g a) = L" using assms by (auto simp: settled_def)
  then have "IncrCounter (server_at g a) q = (server_at g a, Inr \<lparr>irs_NewValue = 0, irs_RedirectTo = L\<rparr>, [])"
    using assms IncrCounter_redirect by simp
  moreover have "(\<lambda>b. if b = a then server_at g a else if b \<in> up then fold deliver_effect [] (server_at g b)
      else server_at g b) = server_at g"
    by auto
  ultimately show ?thesis by (simp only: group_incr_def prod.case sum.case) simp
qed

lemma group_incr_leader:
  assumes "settled up L g" and "irq_CounterId q \<noteq> []" and "group_incr up q L g = (res, g')"
  shows "settled up L g' \<and> fates g' = fates g \<and>
    (case cached_reply (server_at g L) q of
       Some x \<Rightarrow> res = Inr (IncrReply x) \<and> server_at g' L = server_at g L
     | None \<Rightarrow> res = Inr (IncrReply (incr_response (server_at g L) q)) \<and> server_at g' L = executed (server_at g L) q)"
proof (cases "cached_reply (server_at g L) q")
  case None
  have wf: "cache_ok (cache (executed (server_at g L) q))"
    using assms(1) by (auto simp: settled_def executed_cache cache_ok_set incr_response_def tracked_def)
  from None show ?thesis
    using assms settled_leader [OF assms(1)] wf
    by (auto simp: group_incr_def IncrCounter_fresh settled_def)
next
  case (Some x)
  then show ?thesis
    using assms settled_leader [OF assms(1)]
    by (auto simp: group_incr_def IncrCounter_cached settled_def)
qed

lemma cached_no_redirect:
  assumes "settled up L g" and "cached_reply (server_at g L) q = Some x"
  shows "irs_RedirectTo x = []"
  using assms cache_ok_get by (auto simp: cached_reply_def settled_def split: if_splits)

text \<open>The servers keep the contract of a group with a leader.\<close>

interpretation servers: leader_group "group_runtime up" up L "\<lambda>g. settled up L g \<and> fates g = []"
    named_counter "leader_reply L" for up :: "string set" and L :: string
proof unfold_locales
  fix g :: Group and a c m q r
  assume g: "settled up L g \<and> fates g = []"
  show "L \<in> up \<and> L \<noteq> []" using g by (simp add: settled_def)
  show "\<exists>r' e. Invoke (group_runtime up) c m q r (Some (ClientConn a)) g = (r', Some e, g) \<and> isTransportFailure (Some e)"
    if "a \<notin> up"
  proof -
    have "isTransportFailure (Some refused)" by code_simp
    then show ?thesis using that by (simp add: group_invoke_def)
  qed
  have fg: "g\<lparr>fates := []\<rparr> = g" using g by simp
  show "\<exists>r' r''. Invoke (group_runtime up) c m q r (Some (ClientConn a)) g = (r', None, g) \<and> take_redirect r' = (L, r'')"
    if "named_counter q" "a \<in> up" "a \<noteq> L"
  proof (cases q)
    case (IncrReq x)
    then show ?thesis
      using that g by (auto simp: group_invoke_def group_handle_def group_incr_redirect named_counter_def fg)
  next
    case (GetReq x)
    moreover have "GetCounter (server_at g a) x = Inr \<lparr>grs_Value = 0, grs_RedirectTo = L\<rparr>"
      using that g GetReq by (auto simp: GetCounter_def settled_def currentLeader_def named_counter_def)
    ultimately show ?thesis
      using that g by (auto simp: group_invoke_def group_handle_def fg)
  qed (use that in \<open>simp add: named_counter_def\<close>)
  show "\<exists>r' r'' w'. Invoke (group_runtime up) c m q r (Some (ClientConn L)) g = (r', None, w') \<and>
      take_redirect r' = ([], r'') \<and> leader_reply L q g r'' w'"
    if "named_counter q"
  proof (cases q)
    case (IncrReq x)
    then have x: "irq_CounterId x \<noteq> []" using that by (simp add: named_counter_def)
    have s: "settled up L g" "L \<in> up" "serving (server_at g L)" using g settled_leader by (auto simp: settled_def)
    obtain y where y: "fst (snd (IncrCounter (server_at g L) x)) = Inr y" "irs_RedirectTo y = []"
      using x s cached_no_redirect [OF s(1), of x]
      by (cases "cached_reply (server_at g L) x") (auto simp: IncrCounter_cached IncrCounter_fresh incr_response_def)
    then have "y\<lparr>irs_RedirectTo := []\<rparr> = y" by simp
    then show ?thesis
      using y s(2) g IncrReq
      by (auto simp: group_invoke_def group_handle_def group_incr_def fg leader_reply_def split: prod.splits)
  next
    case (GetReq x)
    then have "GetCounter (server_at g L) x =
        Inr \<lparr>grs_Value = map_zero (counters (server_at g L)) (grq_CounterId x), grs_RedirectTo = []\<rparr>"
      using that g by (auto simp: GetCounter_def settled_def currentLeader_def named_counter_def)
    then show ?thesis
      using g GetReq by (auto simp: group_invoke_def group_handle_def fg leader_reply_def settled_def)
  qed (use that in \<open>simp add: named_counter_def\<close>)
qed (simp_all)

text \<open>C7: The client finds the leader.  If the servers that are up agree on a serving leader and no
  message is lost, a call by an interceptor that knows at least one of them, and at most 13
  addresses that are down, reports success: the reply is the leader's, the leader has handled
  the request exactly once, and the interceptor is bound to it afterwards.\<close>

theorem client_finds_leader:
  assumes "settled up L g" and "fates g = []" and "named_counter q"
    and "li_currConn l = Some (ClientConn (li_leaderAddr l))"
    and "set (li_peers l) \<inter> up \<noteq> {}" and "[] \<notin> set (li_peers l)"
    and "card (insert (li_leaderAddr l) (set (li_peers l)) - up) \<le> 13"
  shows "\<exists>r' l' g'. Leader_Unary (group_runtime up) c m q r l g = (None, r', l', g')
    \<and> leader_reply L q g r' g' \<and> li_leaderAddr l' = L \<and> li_currConn l' = Some (ClientConn L)"
  using servers.call_finds_leader [of up L g q l c m r] assms by auto

definition group5 :: "fate list \<Rightarrow> Group" where
  "group5 fs = \<lparr>server_at = srv5, fates = fs\<rparr>"

definition client_of :: "string list \<Rightarrow> LeaderInterceptor" where
  "client_of ps = \<lparr>li_currConn = Some (ClientConn (hd ps)), li_leaderAddr = hd ps, li_peers = ps, li_peerIdx = 0\<rparr>"

lemma settled_group5: "settled {''s1'', ''s2'', ''s3''} ''s1'' (group5 fs)"
proof -
  have "inViewChange (server_at (group5 fs) ''s1'') \<noteq> 1 \<and> cache_ok (cache (server_at (group5 fs) ''s1''))"
    "\<forall>a \<in> set [''s1'', ''s2'', ''s3'']. self (srv5 a) = a \<and> leaderAddr (srv5 a) = ''s1''"
    by code_simp+
  then show ?thesis by (simp add: settled_def group5_def)
qed

lemma client_finds_leader_witness:
  "\<exists>r' l' g'. Leader_Unary (group_runtime {''s1'', ''s2'', ''s3''}) Background ''IncrCounter''
      (IncrReq (req_on ''x'' ''u'' 1)) (IncrReply \<lparr>irs_NewValue = 0, irs_RedirectTo = []\<rparr>)
      (client_of [''s4'', ''s5'', ''s2'']) (group5 []) = (None, r', l', g')
    \<and> leader_reply ''s1'' (IncrReq (req_on ''x'' ''u'' 1)) (group5 []) r' g'
    \<and> li_leaderAddr l' = ''s1'' \<and> li_currConn l' = Some (ClientConn ''s1'')"
  by (rule client_finds_leader)
    (simp_all add: settled_group5 [unfolded group5_def] client_of_def named_counter_def req_on_def group5_def
      insert_Diff_if)

section \<open>One call under losses\<close>

text \<open>What a call may have done to the group so far: nothing, or one execution at the leader.\<close>

definition at_most_once :: "string set \<Rightarrow> string \<Rightarrow> IncrRequest \<Rightarrow> Group \<Rightarrow> Group \<Rightarrow> bool" where
  "at_most_once up L q g0 g \<longleftrightarrow>
     settled up L g \<and> (server_at g L = server_at g0 L \<or> server_at g L = executed (server_at g0 L) q)"

definition fresh_request :: "Server \<Rightarrow> IncrRequest \<Rightarrow> bool" where
  "fresh_request s q \<longleftrightarrow> dedupEnabled s \<and> identified q \<and> cache_get (cache s) (irq_ClientId q) (irq_RequestId q) = None"

lemma fresh_cached: "fresh_request s q \<Longrightarrow> cached_reply s q = None"
  by (simp add: fresh_request_def cached_reply_def)

lemma executed_cached: "fresh_request s q \<Longrightarrow> cached_reply (executed s q) q = Some (incr_response s q)"
  by (simp add: fresh_request_def cached_reply_def tracked_def identified_def executed_cache rcache.get_set)

lemma fates_irrelevant [simp]: "settled up L (g\<lparr>fates := fs\<rparr>) = settled up L g"
  by (simp add: settled_def)

lemma handle_once:
  assumes "at_most_once up L q g0 g" and "fresh_request (server_at g0 L) q" and "a \<in> up"
    and "group_handle up (IncrReq q) a g = (res, g')"
  shows "at_most_once up L q g0 g' \<and>
    (if a = L then server_at g' L = executed (server_at g0 L) q \<and> res = Inr (IncrReply (incr_response (server_at g0 L) q))
     else res = Inr (IncrReply \<lparr>irs_NewValue = 0, irs_RedirectTo = L\<rparr>))"
proof -
  have k: "irq_CounterId q \<noteq> []" using assms(2) by (simp add: fresh_request_def identified_def)
  have s: "settled up L g" using assms(1) by (simp add: at_most_once_def)
  show ?thesis
  proof (cases "a = L")
    case True
    then have h: "group_incr up q L g = (res, g')" using assms(4) by (simp add: group_handle_def)
    consider "server_at g L = server_at g0 L" | "server_at g L = executed (server_at g0 L) q"
      using assms(1) by (auto simp: at_most_once_def)
    then show ?thesis
      by cases
        (use group_incr_leader [OF s k h] True fresh_cached [OF assms(2)] executed_cached [OF assms(2)]
          in \<open>simp_all add: at_most_once_def\<close>)
  next
    case False
    then show ?thesis
      using assms(1,4) group_incr_redirect [OF s k assms(3)] by (simp add: group_handle_def)
  qed
qed

lemma invoke_once:
  assumes "at_most_once up L q g0 g" and "fresh_request (server_at g0 L) q"
    and "group_invoke up c m (IncrReq q) r conn g = (r', e, g')"
  shows "at_most_once up L q g0 g' \<and>
    (e = None \<longrightarrow> fst (take_redirect r') = [] \<longrightarrow>
       server_at g' L = executed (server_at g0 L) q \<and>
       snd (take_redirect r') = IncrReply (incr_response (server_at g0 L) q))"
proof (cases "\<exists>cc. conn = Some cc \<and> conn_target cc \<in> up")
  case False
  then show ?thesis using assms(1,3) by (auto simp: group_invoke_def split: option.splits)
next
  case True
  then obtain cc where cc: "conn = Some cc" "conn_target cc \<in> up" by blast
  define g1 where "g1 = g\<lparr>fates := tl (fates g)\<rparr>"
  have g1: "at_most_once up L q g0 g1" using assms(1) by (simp add: at_most_once_def g1_def)
  obtain res g2 where h: "group_handle up (IncrReq q) (conn_target cc) g1 = (res, g2)"
    by (cases "group_handle up (IncrReq q) (conn_target cc) g1")
  note once = handle_once [OF g1 assms(2) cc(2) h]
  have L: "L \<noteq> []" using g1 by (simp add: at_most_once_def settled_def)
  have "incr_response (server_at g0 L) q\<lparr>irs_RedirectTo := []\<rparr> = incr_response (server_at g0 L) q"
    by (simp add: incr_response_def)
  then have ok: "fst (take_redirect x) = [] \<longrightarrow> server_at g2 L = executed (server_at g0 L) q \<and>
      snd (take_redirect x) = IncrReply (incr_response (server_at g0 L) q)" if "res = Inr x" for x
    using once that L by (auto split: if_splits)
  define f where "f = (case fates g of [] \<Rightarrow> Delivered | f # _ \<Rightarrow> f)"
  have "group_invoke up c m (IncrReq q) r conn g = (case f of RequestLost e \<Rightarrow> (r, Some e, g1)
      | ReplyLost e \<Rightarrow> (r, Some e, g2)
      | Delivered \<Rightarrow> (case res of Inl e \<Rightarrow> (r, Some e, g2) | Inr x \<Rightarrow> (x, None, g2)))"
    using cc(2) by (cases f; cases res) (simp_all add: group_invoke_def Let_def cc(1) h flip: f_def g1_def)
  then have inv: "(r', e, g') = (case f of RequestLost e \<Rightarrow> (r, Some e, g1) | ReplyLost e \<Rightarrow> (r, Some e, g2)
      | Delivered \<Rightarrow> (case res of Inl e \<Rightarrow> (r, Some e, g2) | Inr x \<Rightarrow> (x, None, g2)))"
    using assms(3) by simp
  show ?thesis
  proof (cases f)
    case Delivered
    then show ?thesis using inv once ok by (cases res) auto
  qed (use inv once g1 in auto)
qed

text \<open>A read changes no server, and what it returns without a redirect is the leader's value.\<close>

lemma invoke_read:
  assumes "settled up L g" and "group_invoke up c m (GetReq q) r conn g = (r', e, g')"
  shows "server_at g' = server_at g \<and>
    (e = None \<longrightarrow> fst (take_redirect r') = [] \<longrightarrow>
       snd (take_redirect r') =
         GetReply \<lparr>grs_Value = map_zero (counters (server_at g L)) (grq_CounterId q), grs_RedirectTo = []\<rparr>)"
proof (cases "\<exists>cc. conn = Some cc \<and> conn_target cc \<in> up")
  case False
  then show ?thesis using assms(2) by (auto simp: group_invoke_def split: option.splits)
next
  case True
  then obtain cc where cc: "conn = Some cc" "conn_target cc \<in> up" by blast
  define a where "a = conn_target cc"
  have a: "self (server_at g a) = a" "leaderAddr (server_at g a) = L" "L \<noteq> []" "inViewChange (server_at g L) \<noteq> 1"
    using assms(1) cc(2) by (simp_all add: settled_def a_def)
  have get: "case GetCounter (server_at g a) q of Inl e \<Rightarrow> True
      | Inr y \<Rightarrow> grs_RedirectTo y \<noteq> [] \<or>
          y = \<lparr>grs_Value = map_zero (counters (server_at g L)) (grq_CounterId q), grs_RedirectTo = []\<rparr>"
    using a by (auto simp: GetCounter_def currentLeader_def)
  define f where "f = (case fates g of [] \<Rightarrow> Delivered | f # _ \<Rightarrow> f)"
  have "(r', e, g') = (case f of RequestLost e \<Rightarrow> (r, Some e, g\<lparr>fates := tl (fates g)\<rparr>)
      | ReplyLost e \<Rightarrow> (r, Some e, g\<lparr>fates := tl (fates g)\<rparr>)
      | Delivered \<Rightarrow> (case GetCounter (server_at g a) q of Inl e \<Rightarrow> (r, Some e, g\<lparr>fates := tl (fates g)\<rparr>)
          | Inr y \<Rightarrow> (GetReply y, None, g\<lparr>fates := tl (fates g)\<rparr>)))"
    using assms(2) cc(2)
    by (cases f; cases "GetCounter (server_at g a) q")
      (simp_all add: group_invoke_def group_handle_def Let_def cc(1) flip: f_def a_def)
  then show ?thesis using get
    by (cases f; cases "GetCounter (server_at g a) q") auto
qed

section \<open>Any path to the servers\<close>

text \<open>
  What a client relies on in the interceptors below the leader interceptor and in the network: an
  invocation of a fresh increment leaves at most one execution behind, and exactly one when it
  reports success without a redirect; a read changes nothing.  The group is part of a larger world.
\<close>

definition once_safe :: "('v \<Rightarrow> Group) \<Rightarrow> string set \<Rightarrow> string \<Rightarrow> 'v invoker \<Rightarrow> bool" where
  "once_safe grp up L invoker \<longleftrightarrow> (\<forall>q g0 w c m r conn r' e w'.
     at_most_once up L q g0 (grp w) \<longrightarrow> fresh_request (server_at g0 L) q \<longrightarrow>
     invoker c m (IncrReq q) r conn w = (r', e, w') \<longrightarrow>
     at_most_once up L q g0 (grp w') \<and>
     (e = None \<longrightarrow> fst (take_redirect r') = [] \<longrightarrow>
       server_at (grp w') L = executed (server_at g0 L) q \<and>
       snd (take_redirect r') = IncrReply (incr_response (server_at g0 L) q)))"

definition read_safe :: "('v \<Rightarrow> Group) \<Rightarrow> string set \<Rightarrow> string \<Rightarrow> 'v invoker \<Rightarrow> bool" where
  "read_safe grp up L invoker \<longleftrightarrow> (\<forall>q w c m r conn r' e w'.
     settled up L (grp w) \<longrightarrow> invoker c m (GetReq q) r conn w = (r', e, w') \<longrightarrow>
     server_at (grp w') = server_at (grp w) \<and>
     (e = None \<longrightarrow> fst (take_redirect r') = [] \<longrightarrow>
       snd (take_redirect r') =
         GetReply \<lparr>grs_Value = map_zero (counters (server_at (grp w) L)) (grq_CounterId q), grs_RedirectTo = []\<rparr>))"

locale once_runtime =
  fixes rt :: "'v runtime" and grp :: "'v \<Rightarrow> Group" and up :: "string set" and L :: string
  assumes invocation_once: "once_safe grp up L (Invoke rt)"
    and invocation_reads: "read_safe grp up L (Invoke rt)"
    and close_group: "grp (snd (CloseConn rt conn w)) = grp w"
    and sleep_group: "grp (Sleep rt d w) = grp w"
begin

lemma turn_group:
  assumes "unary_turn rt c m q s = (x, s')"
    and "Invoke rt c m q (reply_of s) (li_currConn (interceptor s)) (world s) = (r, e, w)"
  shows "grp (world s') = grp w"
  using turn_world [OF assms] by (auto simp: close_group sleep_group)

lemma turn_once:
  assumes "at_most_once up L q g0 (grp (world s))" and "fresh_request (server_at g0 L) q"
    and "unary_turn rt c m (IncrReq q) s = (x, s')"
  shows "at_most_once up L q g0 (grp (world s')) \<and>
    (x = Return None \<longrightarrow> server_at (grp (world s')) L = executed (server_at g0 L) q \<and>
       reply_of s' = IncrReply (incr_response (server_at g0 L) q))"
proof -
  obtain r e w where i: "Invoke rt c m (IncrReq q) (reply_of s) (li_currConn (interceptor s)) (world s) = (r, e, w)"
    by (cases "Invoke rt c m (IncrReq q) (reply_of s) (li_currConn (interceptor s)) (world s)")
  have once: "at_most_once up L q g0 (grp w) \<and> (e = None \<longrightarrow> fst (take_redirect r) = [] \<longrightarrow>
       server_at (grp w) L = executed (server_at g0 L) q \<and>
       snd (take_redirect r) = IncrReply (incr_response (server_at g0 L) q))"
    using invocation_once assms(1,2) i unfolding once_safe_def by blast
  have w: "grp (world s') = grp w" using turn_group [OF assms(3) i] .
  from assms(3) i show ?thesis
    by (cases rule: unary_turn_cases) (use once w in \<open>auto split: option.splits\<close>)
qed

lemma call_once:
  assumes "settled up L (grp w)" and "fresh_request (server_at (grp w) L) q"
    and "Leader_Unary rt c m (IncrReq q) r l w = (err, r', l', w')"
  shows "at_most_once up L q (grp w) (grp w') \<and>
    (err = None \<longrightarrow> server_at (grp w') L = executed (server_at (grp w) L) q
      \<and> r' = IncrReply (incr_response (server_at (grp w) L) q))"
proof -
  define P where "P s \<longleftrightarrow> at_most_once up L q (grp w) (grp (world s))" for s :: "'v call_state"
  define Q where "Q err s \<longleftrightarrow> P s \<and>
      (err = None \<longrightarrow> server_at (grp (world s)) L = executed (server_at (grp w) L) q \<and>
        reply_of s = IncrReply (incr_response (server_at (grp w) L) q))"
    for err :: "go_error option" and s :: "'v call_state"
  have "\<exists>s. Q err s \<and> reply_of s = r' \<and> interceptor s = l' \<and> world s = w'"
  proof (rule Leader_Unary_rule [where P = P and Q = Q, OF _ _ _ _ assms(3)])
    show "P \<lparr>dead_peers = [], interceptor = l, reply_of = r, world = w\<rparr>"
      using assms(1) by (simp add: P_def at_most_once_def)
    show "P s'" if "P s" "unary_turn rt c m (IncrReq q) s = (Continue, s')" for s s'
      using turn_once [OF _ assms(2) that(2)] that(1) by (simp add: P_def)
    show "Q e s'" if "P s" "unary_turn rt c m (IncrReq q) s = (Return e, s')" for s s' e
      using turn_once [OF _ assms(2) that(2)] that(1) by (simp add: P_def Q_def)
  qed (simp add: Q_def)
  then show ?thesis by (auto simp: P_def Q_def)
qed

lemma call_reads:
  assumes "settled up L (grp w)" and "Leader_Unary rt c m (GetReq q) r l w = (err, r', l', w')"
  shows "server_at (grp w') = server_at (grp w) \<and>
    (err = None \<longrightarrow> r' =
       GetReply \<lparr>grs_Value = map_zero (counters (server_at (grp w) L)) (grq_CounterId q), grs_RedirectTo = []\<rparr>)"
proof -
  let ?v = "GetReply \<lparr>grs_Value = map_zero (counters (server_at (grp w) L)) (grq_CounterId q), grs_RedirectTo = []\<rparr>"
  define P where "P s \<longleftrightarrow> server_at (grp (world s)) = server_at (grp w)" for s :: "'v call_state"
  define Q where "Q err s \<longleftrightarrow> P s \<and> (err = None \<longrightarrow> reply_of s = ?v)"
    for err :: "go_error option" and s :: "'v call_state"
  have turn: "P s' \<and> (x = Return None \<longrightarrow> reply_of s' = ?v)"
    if P: "P s" and t: "unary_turn rt c m (GetReq q) s = (x, s')" for s x s'
  proof -
    obtain r e v where i: "Invoke rt c m (GetReq q) (reply_of s) (li_currConn (interceptor s)) (world s) = (r, e, v)"
      by (cases "Invoke rt c m (GetReq q) (reply_of s) (li_currConn (interceptor s)) (world s)")
    have "settled up L (grp (world s))" using P assms(1) by (simp add: P_def settled_def)
    then have read: "server_at (grp v) = server_at (grp (world s)) \<and>
        (e = None \<longrightarrow> fst (take_redirect r) = [] \<longrightarrow> snd (take_redirect r) = ?v)"
      using invocation_reads i P unfolding read_safe_def P_def by metis
    have g: "grp (world s') = grp v" using turn_group [OF t i] .
    from t i show ?thesis
      by (cases rule: unary_turn_cases) (use read g P in \<open>auto simp: P_def split: option.splits\<close>)
  qed
  have "\<exists>s. Q err s \<and> reply_of s = r' \<and> interceptor s = l' \<and> world s = w'"
  proof (rule Leader_Unary_rule [where P = P and Q = Q, OF _ _ _ _ assms(2)])
    show "P \<lparr>dead_peers = [], interceptor = l, reply_of = r, world = w\<rparr>" by (simp add: P_def)
    show "P s'" if "P s" "unary_turn rt c m (GetReq q) s = (Continue, s')" for s s'
      using turn [OF that] by simp
    show "Q e s'" if "P s" "unary_turn rt c m (GetReq q) s = (Return e, s')" for s s' e
      using turn [OF that] by (simp add: Q_def)
  qed (simp add: Q_def)
  then show ?thesis by (auto simp: P_def Q_def)
qed

end

text \<open>The network itself is such a path.\<close>

lemma group_invoke_safe: "once_safe (\<lambda>g. g) up L (group_invoke up)" "read_safe (\<lambda>g. g) up L (group_invoke up)"
  unfolding once_safe_def read_safe_def
  by ((intro allI impI, rule invoke_once, assumption+), (intro allI impI, rule invoke_read, assumption+))

interpretation network: once_runtime "group_runtime up" "\<lambda>g. g" up L for up :: "string set" and L :: string
  by unfold_locales (simp_all add: group_invoke_safe)

section \<open>The retry layer\<close>

text \<open>
  The retry interceptor of go-grpc-middleware, by what its documentation says of it: it invokes the
  interceptor below one or more times in a row, under contexts that keep the values of the caller's,
  goes on only after an error, and ends as its last invocation ends.
\<close>

inductive retried :: "'v invoker \<Rightarrow> ctx \<Rightarrow> string \<Rightarrow> request \<Rightarrow> client_conn option \<Rightarrow> reply \<Rightarrow> 'v \<Rightarrow>
    reply \<times> go_error option \<times> 'v \<Rightarrow> bool"
  for invoker :: "'v invoker" and c m q conn where
  last_attempt: "ctx_Value c' AttemptTrackerKey = ctx_Value c AttemptTrackerKey \<Longrightarrow>
    retried invoker c m q conn r w (invoker c' m q r conn w)"
| next_attempt: "ctx_Value c' AttemptTrackerKey = ctx_Value c AttemptTrackerKey \<Longrightarrow>
    invoker c' m q r conn w = (r1, Some e, w1) \<Longrightarrow> retried invoker c m q conn r1 w1 result \<Longrightarrow>
    retried invoker c m q conn r w result"

definition repeats :: "('v invoker \<Rightarrow> 'v invoker) \<Rightarrow> bool" where
  "repeats retry \<longleftrightarrow> (\<forall>invoker c m q r conn w. retried invoker c m q conn r w (retry invoker c m q r conn w))"

text \<open>The instance with a bounded number of retries after \<open>Unavailable\<close>.\<close>

fun retry_up_to :: "nat \<Rightarrow> 'v invoker \<Rightarrow> 'v invoker" where
  "retry_up_to 0 invoker c m q r conn w = invoker c m q r conn w"
| "retry_up_to (Suc n) invoker c m q r conn w =
     (case invoker c m q r conn w of
        (r1, Some (GrpcStatus Unavailable t), w1) \<Rightarrow> retry_up_to n invoker c m q r1 conn w1
      | result \<Rightarrow> result)"

lemma retry_up_to_retried: "retried invoker c m q conn r w (retry_up_to n invoker c m q r conn w)"
proof (induction n arbitrary: r w)
  case (Suc n)
  obtain r1 e1 w1 where i: "invoker c m q r conn w = (r1, e1, w1)" by (cases "invoker c m q r conn w")
  show ?case
  proof (cases "\<exists>t. e1 = Some (GrpcStatus Unavailable t)")
    case True
    then obtain t where e1: "e1 = Some (GrpcStatus Unavailable t)" by blast
    have "retried invoker c m q conn r w (retry_up_to n invoker c m q r1 conn w1)"
      by (rule retried.next_attempt [where c' = c and e = "GrpcStatus Unavailable t" and ?r1.0 = r1 and ?w1.0 = w1])
        (rule refl, rule i [unfolded e1], rule Suc.IH)
    then show ?thesis by (simp add: i e1)
  next
    case False
    then have "retry_up_to (Suc n) invoker c m q r conn w = invoker c m q r conn w"
      by (auto simp: i split: option.splits go_error.splits grpc_code.splits)
    then show ?thesis using retried.last_attempt [where c' = c and c = c] by simp
  qed
qed (simp add: last_attempt)

lemma repeats_retry_up_to: "repeats (retry_up_to n)"
  by (simp add: repeats_def retry_up_to_retried)

text \<open>Retrying, and counting attempts, keep what a client relies on.\<close>

lemma retried_once:
  assumes "retried invoker c m (IncrReq q) conn r w result" and "once_safe grp up L invoker"
    and "at_most_once up L q g0 (grp w)" and "fresh_request (server_at g0 L) q"
  shows "case result of (r', e, w') \<Rightarrow> at_most_once up L q g0 (grp w') \<and>
     (e = None \<longrightarrow> fst (take_redirect r') = [] \<longrightarrow>
       server_at (grp w') L = executed (server_at g0 L) q \<and>
       snd (take_redirect r') = IncrReply (incr_response (server_at g0 L) q))"
  using assms(1,3)
proof (induction rule: retried.induct)
  case (last_attempt c' r w)
  obtain r' e w' where i: "invoker c' m (IncrReq q) r conn w = (r', e, w')" by (cases "invoker c' m (IncrReq q) r conn w")
  then show ?case using assms(2) last_attempt.prems assms(4) unfolding once_safe_def by simp
next
  case (next_attempt c' r w r1 e w1 result)
  then have "at_most_once up L q g0 (grp w1)" using assms(2,4) unfolding once_safe_def by blast
  then show ?case by (rule next_attempt.IH)
qed

lemma retried_read:
  assumes "retried invoker c m (GetReq q) conn r w result" and "read_safe grp up L invoker" and "settled up L (grp w)"
  shows "case result of (r', e, w') \<Rightarrow> server_at (grp w') = server_at (grp w) \<and>
     (e = None \<longrightarrow> fst (take_redirect r') = [] \<longrightarrow>
       snd (take_redirect r') =
         GetReply \<lparr>grs_Value = map_zero (counters (server_at (grp w) L)) (grq_CounterId q), grs_RedirectTo = []\<rparr>)"
  using assms(1,3)
proof (induction rule: retried.induct)
  case (last_attempt c' r w)
  obtain r' e w' where i: "invoker c' m (GetReq q) r conn w = (r', e, w')" by (cases "invoker c' m (GetReq q) r conn w")
  then show ?case using assms(2) last_attempt.prems unfolding read_safe_def by simp
next
  case (next_attempt c' r w r1 e w1 result)
  then have g: "server_at (grp w1) = server_at (grp w)" using assms(2) unfolding read_safe_def by blast
  then have "settled up L (grp w1)" using next_attempt.prems by (simp add: settled_def)
  from next_attempt.IH [OF this] show ?case by (simp only: g)
qed

lemma retry_safe:
  assumes "repeats retry"
  shows "once_safe grp up L invoker \<Longrightarrow> once_safe grp up L (retry invoker)"
    and "read_safe grp up L invoker \<Longrightarrow> read_safe grp up L (retry invoker)"
proof -
  have r: "retried invoker c m q conn r w (retry invoker c m q r conn w)" for c m q r conn w
    using assms by (simp add: repeats_def)
  show "once_safe grp up L (retry invoker)" if safe: "once_safe grp up L invoker"
    unfolding once_safe_def
  proof (intro allI impI)
    fix q g0 w c m r' conn s e w'
    assume "at_most_once up L q g0 (grp w)" "fresh_request (server_at g0 L) q"
      and i: "retry invoker c m (IncrReq q) r' conn w = (s, e, w')"
    from retried_once [OF r [where c = c and m = m and conn = conn and r = r'] safe this(1,2)] show "at_most_once up L q g0 (grp w') \<and>
      (e = None \<longrightarrow> fst (take_redirect s) = [] \<longrightarrow>
        server_at (grp w') L = executed (server_at g0 L) q \<and>
        snd (take_redirect s) = IncrReply (incr_response (server_at g0 L) q))"
      unfolding i by simp
  qed
  show "read_safe grp up L (retry invoker)" if safe: "read_safe grp up L invoker"
    unfolding read_safe_def
  proof (intro allI impI)
    fix q w c m r' conn s e w'
    assume "settled up L (grp w)" and i: "retry invoker c m (GetReq q) r' conn w = (s, e, w')"
    from retried_read [OF r [where c = c and m = m and conn = conn and r = r' and q = "GetReq q"] safe this(1)] show "server_at (grp w') = server_at (grp w) \<and>
      (e = None \<longrightarrow> fst (take_redirect s) = [] \<longrightarrow> snd (take_redirect s) =
        GetReply \<lparr>grs_Value = map_zero (counters (server_at (grp w) L)) (grq_CounterId q), grs_RedirectTo = []\<rparr>)"
      unfolding i by simp
  qed
qed

lemma counting_safe:
  "once_safe grp up L invoker \<Longrightarrow> once_safe (\<lambda>hw. grp (snd hw)) up L (AttemptCountingInterceptor invoker)"
  "read_safe grp up L invoker \<Longrightarrow> read_safe (\<lambda>hw. grp (snd hw)) up L (AttemptCountingInterceptor invoker)"
  unfolding once_safe_def read_safe_def AttemptCountingInterceptor_def Let_def
  by (fastforce split: prod.splits)+

text \<open>The runtimes of the two commands: retrying, and, for the load generator, counting attempts.\<close>

definition client_runtime :: "('w invoker \<Rightarrow> 'w invoker) \<Rightarrow> 'w runtime \<Rightarrow> 'w runtime" where
  "client_runtime retry rt = rt\<lparr>Invoke := retry (Invoke rt)\<rparr>"

definition loadgen_runtime :: "((trackers \<times> 'w) invoker \<Rightarrow> (trackers \<times> 'w) invoker) \<Rightarrow> 'w runtime \<Rightarrow> (trackers \<times> 'w) runtime" where
  "loadgen_runtime retry rt = lift_runtime (retry (AttemptCountingInterceptor (Invoke rt))) rt"

lemma client_runtime_once: "repeats retry \<Longrightarrow> once_runtime (client_runtime retry (group_runtime up)) (\<lambda>g. g) up L"
  by unfold_locales (simp_all add: client_runtime_def retry_safe group_invoke_safe)

lemma loadgen_runtime_once: "repeats retry \<Longrightarrow> once_runtime (loadgen_runtime retry (group_runtime up)) snd up L"
  using counting_safe(1) [OF group_invoke_safe(1)] counting_safe(2) [OF group_invoke_safe(2)]
  by unfold_locales (auto simp: loadgen_runtime_def lift_runtime_def retry_safe split: prod.splits)

text \<open>C4: Exactly once, end to end.  While leadership does not move, with deduplication on and a new
  request number, a call retries through any sequence of lost requests and lost replies, in the
  leader interceptor and in the retry layer below it, from any state of the interceptor, and still
  its request is executed at most once; if the call reports success it was executed exactly once,
  the caller holds the value of that execution, and the reply is stored for later retries.\<close>

theorem call_counts_once:
  assumes "settled up L g" and "fresh_request (server_at g L) q" and "repeats retry"
    and "Leader_Unary (client_runtime retry (group_runtime up)) c m (IncrReq q) r l g = (err, r', l', g')"
  shows "server_at g' L \<in> {server_at g L, executed (server_at g L) q}
    \<and> (err = None \<longrightarrow>
        map_zero (counters (server_at g' L)) = (map_zero (counters (server_at g L)))
          (irq_CounterId q := map_zero (counters (server_at g L)) (irq_CounterId q) + 1)
        \<and> r' = IncrReply \<lparr>irs_NewValue = map_zero (counters (server_at g' L)) (irq_CounterId q), irs_RedirectTo = []\<rparr>
        \<and> cache_get (cache (server_at g' L)) (irq_ClientId q) (irq_RequestId q) \<noteq> None)"
proof -
  have "cache_get (cache (executed (server_at g L) q)) (irq_ClientId q) (irq_RequestId q) \<noteq> None"
    using assms(2) by (simp add: fresh_request_def executed_cache tracked_def identified_def rcache.get_set)
  then show ?thesis
    using once_runtime.call_once [OF client_runtime_once [OF assms(3)] assms(1,2,4)]
    by (auto simp: at_most_once_def fun_eq_iff map_zero_put incr_response_def)
qed

definition timeout_error :: go_error where
  "timeout_error = GrpcStatus (OtherCode ''DeadlineExceeded'') ''context deadline exceeded''"

lemma call_counts_once_witness:
  "\<exists>r' l' g'. Leader_Unary (client_runtime (retry_up_to 4) (group_runtime {''s1'', ''s2'', ''s3''})) Background ''IncrCounter''
      (IncrReq (req_on ''x'' ''u'' 1)) (IncrReply \<lparr>irs_NewValue = 0, irs_RedirectTo = []\<rparr>)
      (client_of [''s2'', ''s1'']) (group5 [Delivered, ReplyLost timeout_error, RequestLost timeout_error])
      = (None, r', l', g')
    \<and> map_zero (counters (server_at g' ''s1'')) ''x'' = 1"
proof -
  let ?g = "group5 [Delivered, ReplyLost timeout_error, RequestLost timeout_error]"
  let ?call = "Leader_Unary (client_runtime (retry_up_to 4) (group_runtime {''s1'', ''s2'', ''s3''})) Background ''IncrCounter''
      (IncrReq (req_on ''x'' ''u'' 1)) (IncrReply \<lparr>irs_NewValue = 0, irs_RedirectTo = []\<rparr>)
      (client_of [''s2'', ''s1'']) ?g"
  have "fst (Leader_Unary (client_runtime (retry_up_to 4) (group_runtime (set [''s1'', ''s2'', ''s3'']))) Background ''IncrCounter''
      (IncrReq (req_on ''x'' ''u'' 1)) (IncrReply \<lparr>irs_NewValue = 0, irs_RedirectTo = []\<rparr>)
      (client_of [''s2'', ''s1'']) ?g) = None"
    by code_simp
  then have "fst ?call = None" by (simp only: list.set)
  then obtain r' l' g' where call: "?call = (None, r', l', g')" by (metis prod.collapse)
  have fresh: "fresh_request (server_at ?g ''s1'') (req_on ''x'' ''u'' 1)" by code_simp
  have zero: "map_zero (counters (server_at ?g ''s1'')) ''x'' = 0" by code_simp
  have "map_zero (counters (server_at g' ''s1'')) ''x'' = 1"
    using call_counts_once [OF settled_group5 fresh repeats_retry_up_to call] by (simp add: zero req_on_def)
  then show ?thesis using call by blast
qed

definition group_off :: "fate list \<Rightarrow> Group" where
  "group_off fs =
     \<lparr>server_at = (\<lambda>a. New dial_all 1 a (filter (\<lambda>b. b \<noteq> a) [''s1'', ''s2'', ''s3'']) False 0), fates = fs\<rparr>"

text \<open>Without the reply cache a retry counts twice.  Three servers started with \<open>dedup\<close> off: the reply
  to a client's increment is lost, the interceptor retries, the call reports success with the
  value 2, and the counter is 2 after one logical operation.\<close>

lemma retry_without_cache_counts_twice:
  "(case Leader_Unary (group_runtime (set [''s1'', ''s2'', ''s3''])) Background ''IncrCounter''
      (IncrReq (req_on ''x'' ''u'' 1)) (IncrReply \<lparr>irs_NewValue = 0, irs_RedirectTo = []\<rparr>)
      (client_of [''s1'', ''s2'', ''s3'']) (group_off [ReplyLost timeout_error]) of
      (err, r', l', g') \<Rightarrow> err = None \<and> r' = IncrReply \<lparr>irs_NewValue = 2, irs_RedirectTo = []\<rparr>
        \<and> map_zero (counters (server_at g' ''s1'')) ''x'' = 2)"
  by code_simp

section \<open>A session\<close>

text \<open>
  The request interceptor in front of the leader interceptor, as the chains have it, and the
  increments one client makes one after the other, with fresh messages.
\<close>

definition requestid_invoker :: "'w invoker \<Rightarrow> (RequestIDInterceptor \<times> 'w) invoker" where
  "requestid_invoker invoker c method req r cc iw =
     (case RequestID_Unary invoker c method req r cc (fst iw) (snd iw) of
        ((r', err, w'), i', req') \<Rightarrow> (r', err, (i', w')))"

definition session_call :: "'w runtime \<Rightarrow> ctx \<Rightarrow> string \<Rightarrow> RequestIDInterceptor \<times> LeaderInterceptor \<times> 'w \<Rightarrow>
    (go_error + reply) \<times> RequestIDInterceptor \<times> LeaderInterceptor \<times> 'w" where
  "session_call rt c k =
     client_IncrCounter
       (\<lambda>req out. requestid_invoker (leader_invoker rt) c ''/counter.CounterService/IncrCounter'' req out None)
       \<lparr>irq_CounterId = k, irq_ClientId = [], irq_RequestId = 0\<rparr>"

fun session :: "'w runtime \<Rightarrow> ctx \<Rightarrow> string list \<Rightarrow> RequestIDInterceptor \<times> LeaderInterceptor \<times> 'w \<Rightarrow>
    (go_error + reply) list \<times> RequestIDInterceptor \<times> LeaderInterceptor \<times> 'w" where
  "session rt c [] st = ([], st)"
| "session rt c (k # ks) st =
     (let (res, st1) = session_call rt c k st; (rs, st2) = session rt c ks st1 in (res # rs, st2))"

definition succeeded :: "string list \<Rightarrow> (go_error + reply) list \<Rightarrow> string \<Rightarrow> nat" where
  "succeeded ks rs k = length (filter (\<lambda>(k', r). k' = k \<and> \<not> isl r) (zip ks rs))"

text \<open>The identifiers a session of \<open>n\<close> calls will use are new to the leader.\<close>

definition new_to :: "Server \<Rightarrow> RequestIDInterceptor \<Rightarrow> nat \<Rightarrow> bool" where
  "new_to s i n \<longleftrightarrow> dedupEnabled s \<and> ri_clientID i \<noteq> [] \<and>
     (\<forall>j \<in> {1..n}. cache_get (cache s) (ri_clientID i) (ri_requestID i + of_nat j) = None)"

lemma new_to_next:
  assumes "new_to s i (Suc n)" and "Suc n < 2 ^ 64"
    and "s' = s \<or> s' = executed s (stamped_request i \<lparr>irq_CounterId = k, irq_ClientId = [], irq_RequestId = 0\<rparr>)"
  shows "new_to s' (i\<lparr>ri_requestID := ri_requestID i + 1\<rparr>) n"
proof -
  let ?i = "i\<lparr>ri_requestID := ri_requestID i + 1\<rparr>"
  have old: "cache_get (cache s) (ri_clientID i) (ri_requestID ?i + of_nat j) = None" if "j \<in> {1..n}" for j
  proof -
    have "Suc j \<in> {1..Suc n}" using that by simp
    then have "cache_get (cache s) (ri_clientID i) (ri_requestID i + of_nat (Suc j)) = None"
      using assms(1) by (simp only: new_to_def)
    then show ?thesis by (simp add: add.assoc add.commute [of 1])
  qed
  have "ri_requestID ?i + of_nat j \<noteq> ri_requestID i + 1" if "j \<in> {1..n}" for j
  proof -
    have "(of_nat j :: int64) \<noteq> 0" using that assms(2) by (auto simp: word_unat_eq_iff unat_of_nat)
    then show ?thesis by simp
  qed
  then show ?thesis
    using assms(1,3) old
    by (auto simp: new_to_def executed_cache rcache.get_set stamped_request_def)
qed

context once_runtime
begin

lemma session_call_once:
  assumes "settled up L (grp w)" and "new_to (server_at (grp w) L) i (Suc n)" and "k \<noteq> []"
    and "session_call rt c k (i, l, w) = (res, (i', l', w'))"
  shows "settled up L (grp w') \<and> i' = i\<lparr>ri_requestID := ri_requestID i + 1\<rparr> \<and>
    (server_at (grp w') L = server_at (grp w) L \<and> isl res \<or>
     server_at (grp w') L = executed (server_at (grp w) L) (stamped_request i \<lparr>irq_CounterId = k, irq_ClientId = [], irq_RequestId = 0\<rparr>))"
proof -
  let ?q = "stamped_request i \<lparr>irq_CounterId = k, irq_ClientId = [], irq_RequestId = 0\<rparr>"
  have "cache_get (cache (server_at (grp w) L)) (ri_clientID i) (ri_requestID i + of_nat 1) = None"
    using assms(2) unfolding new_to_def by (metis atLeastAtMost_iff le_refl le_SucI Suc_le_eq zero_less_Suc One_nat_def)
  then have fresh: "fresh_request (server_at (grp w) L) ?q"
    using assms(2,3) by (simp add: fresh_request_def identified_def stamped_request_def new_to_def)
  obtain err r' where call: "Leader_Unary rt c ''/counter.CounterService/IncrCounter'' (IncrReq ?q)
      (IncrReply \<lparr>irs_NewValue = 0, irs_RedirectTo = []\<rparr>) l w = (err, r', l', w')"
      and res: "res = (case err of None \<Rightarrow> Inr r' | Some e \<Rightarrow> Inl e)"
      and i': "i' = i\<lparr>ri_requestID := ri_requestID i + 1\<rparr>"
    using assms(4)
    by (auto simp: session_call_def client_IncrCounter_def requestid_invoker_def RequestID_Unary_def leader_invoker_def
        stamp_IncrReq Let_def split: prod.splits option.splits)
  show ?thesis
    using call_once [OF assms(1) fresh call] res i' by (cases err) (auto simp: at_most_once_def)
qed

lemma session_grows:
  assumes "settled up L (grp w)" and "new_to (server_at (grp w) L) i (length ks)" and "length ks < 2 ^ 64"
    and "[] \<notin> set ks" and "session rt c ks (i, l, w) = (rs, (i', l', w'))"
  shows "\<exists>n. map_zero (counters (server_at (grp w') L)) k = map_zero (counters (server_at (grp w) L)) k + of_nat n
    \<and> succeeded ks rs k \<le> n \<and> n \<le> count_list ks k"
  using assms
proof (induction ks arbitrary: i l w rs)
  case Nil
  then show ?case by (simp add: succeeded_def)
next
  case (Cons x ks)
  let ?q = "stamped_request i \<lparr>irq_CounterId = x, irq_ClientId = [], irq_RequestId = 0\<rparr>"
  obtain res i1 l1 w1 where c1: "session_call rt c x (i, l, w) = (res, (i1, l1, w1))"
    by (metis prod.exhaust)
  obtain rs2 where c2: "session rt c ks (i1, l1, w1) = (rs2, (i', l', w'))" "rs = res # rs2"
    using Cons.prems(5) c1 by (auto split: prod.splits)
  have new: "new_to (server_at (grp w) L) i (Suc (length ks))" using Cons.prems(2) by simp
  have x: "x \<noteq> []" using Cons.prems(4) by auto
  note once = session_call_once [OF Cons.prems(1) new x c1]
  have new1: "new_to (server_at (grp w1) L) i1 (length ks)"
    using new_to_next [OF new, of "server_at (grp w1) L" x] once Cons.prems(3) by auto
  obtain n where n: "map_zero (counters (server_at (grp w') L)) k = map_zero (counters (server_at (grp w1) L)) k + of_nat n"
      "succeeded ks rs2 k \<le> n" "n \<le> count_list ks k"
    using Cons.IH [OF _ new1 _ _ c2(1)] once Cons.prems(3,4) by auto
  have s: "succeeded (x # ks) rs k = (if x = k \<and> \<not> isl res then 1 else 0) + succeeded ks rs2 k"
    by (simp add: succeeded_def c2(2))
  consider (lost) "server_at (grp w1) L = server_at (grp w) L" "isl res"
    | (executed) "server_at (grp w1) L = executed (server_at (grp w) L) ?q"
    using once by blast
  then show ?case
  proof cases
    case lost
    then show ?thesis using n s by (intro exI [of _ n]) auto
  next
    case executed
    then have "map_zero (counters (server_at (grp w1) L)) k =
        map_zero (counters (server_at (grp w) L)) k + of_nat (if x = k then 1 else 0)"
      by (simp add: map_zero_put incr_response_def stamped_request_def)
    then show ?thesis
      using n s by (intro exI [of _ "n + (if x = k then 1 else 0)"]) (auto simp: algebra_simps)
  qed
qed

end

text \<open>What a client may conclude from its session.  A client increments counters in some order, its
  request numbers new to the leader, deduplication on, leadership fixed; messages are lost in any
  pattern, and its interceptor is in any state.  Then every counter has grown by at least the
  number of calls on it that reported success, and by at most the number of calls made.\<close>

lemma session_bounds:
  assumes "settled up L g" and "new_to (server_at g L) i (length ks)" and "length ks < 2 ^ 64" and "[] \<notin> set ks"
    and "repeats retry"
    and "session (client_runtime retry (group_runtime up)) c ks (i, l, g) = (rs, (i', l', g'))"
  shows "\<exists>n. map_zero (counters (server_at g' L)) k = map_zero (counters (server_at g L)) k + of_nat n
    \<and> succeeded ks rs k \<le> n \<and> n \<le> count_list ks k"
  using once_runtime.session_grows [OF client_runtime_once [OF assms(5)]] assms by blast

lemma session_bounds_witness:
  "\<exists>n. map_zero (counters (server_at (snd (snd (snd (session (client_runtime (retry_up_to 4) (group_runtime {''s1'', ''s2'', ''s3''})) Background [''x'', ''x'']
      (NewRequestIDInterceptor ''u'', client_of [''s4'', ''s2''], group5 [Delivered, ReplyLost timeout_error]))))) ''s1'')) ''x''
    = of_nat n \<and> n \<le> 2"
proof -
  let ?run = "session (client_runtime (retry_up_to 4) (group_runtime {''s1'', ''s2'', ''s3''})) Background [''x'', ''x'']
      (NewRequestIDInterceptor ''u'', client_of [''s4'', ''s2''], group5 [Delivered, ReplyLost timeout_error])"
  obtain rs i' l' g' where run: "?run = (rs, (i', l', g'))" by (metis prod.exhaust)
  have new: "new_to (server_at (group5 [Delivered, ReplyLost timeout_error]) ''s1'') (NewRequestIDInterceptor ''u'')
      (length [''x'', ''x''])"
  proof -
    have "dedupEnabled (srv5 ''s1'') \<and> cache (srv5 ''s1'') = newReplyCache" by code_simp
    then show ?thesis by (simp add: new_to_def group5_def NewRequestIDInterceptor_def rcache.get_empty)
  qed
  have zero: "map_zero (counters (server_at (group5 [Delivered, ReplyLost timeout_error]) ''s1'')) ''x'' = 0" by code_simp
  have "\<exists>n. map_zero (counters (server_at g' ''s1'')) ''x'' =
      map_zero (counters (server_at (group5 [Delivered, ReplyLost timeout_error]) ''s1'')) ''x'' + of_nat n
    \<and> succeeded [''x'', ''x''] rs ''x'' \<le> n \<and> n \<le> count_list [''x'', ''x''] ''x''"
    by (rule session_bounds [OF settled_group5 new _ _ repeats_retry_up_to run]) simp_all
  then show ?thesis unfolding run zero by auto
qed

end
