(* ===== verification/Go_Text.thy ===== *)
theory Go_Text
  imports Go_Strings
begin

text \<open>
  The text functions of the standard library that the commands call on addresses: \<open>strings.Split\<close>
  at a comma, \<open>strings.TrimSpace\<close>, \<open>strings.ToLower\<close>, \<open>strings.Fields\<close>, \<open>strconv.Atoi\<close> and
  \<open>net.SplitHostPort\<close>.  A Go string is a list of bytes, so a space outside ASCII is the sequence
  of bytes of its UTF-8 encoding.
\<close>

section \<open>Splitting and trimming\<close>

fun Split :: "char \<Rightarrow> string \<Rightarrow> string list" where
  "Split sep [] = [[]]"
| "Split sep (c # cs) =
     (if c = sep then [] # Split sep cs
      else (case Split sep cs of [] \<Rightarrow> [[c]] | x # xs \<Rightarrow> (c # x) # xs))"

lemma Split_nonempty [simp]: "Split sep s \<noteq> []"
  by (cases s) (auto split: list.splits)

lemma Split_no_sep: "x \<in> set (Split sep s) \<Longrightarrow> sep \<notin> set x"
proof (induction s arbitrary: x)
  case (Cons c cs)
  then show ?case by (cases "Split sep cs") (auto split: if_splits)
qed simp

lemma Split_single: "sep \<notin> set s \<Longrightarrow> Split sep s = [s]"
  by (induction s) auto

lemma Split_append: "sep \<notin> set s \<Longrightarrow> Split sep (s @ sep # t) = s # Split sep t"
  by (induction s) auto

text \<open>The UTF-8 encodings of \<open>unicode.IsSpace\<close>'s characters.\<close>

definition go_spaces :: "string list" where
  "go_spaces =
    [[CHR 0x09], [CHR 0x0A], [CHR 0x0B], [CHR 0x0C], [CHR 0x0D], [CHR 0x20], [CHR 0xC2, CHR 0x85],
      [CHR 0xC2, CHR 0xA0], [CHR 0xE1, CHR 0x9A, CHR 0x80], [CHR 0xE2, CHR 0x80, CHR 0x80],
      [CHR 0xE2, CHR 0x80, CHR 0x81], [CHR 0xE2, CHR 0x80, CHR 0x82],
      [CHR 0xE2, CHR 0x80, CHR 0x83], [CHR 0xE2, CHR 0x80, CHR 0x84],
      [CHR 0xE2, CHR 0x80, CHR 0x85], [CHR 0xE2, CHR 0x80, CHR 0x86],
      [CHR 0xE2, CHR 0x80, CHR 0x87], [CHR 0xE2, CHR 0x80, CHR 0x88],
      [CHR 0xE2, CHR 0x80, CHR 0x89], [CHR 0xE2, CHR 0x80, CHR 0x8A],
      [CHR 0xE2, CHR 0x80, CHR 0xA8], [CHR 0xE2, CHR 0x80, CHR 0xA9],
      [CHR 0xE2, CHR 0x80, CHR 0xAF], [CHR 0xE2, CHR 0x81, CHR 0x9F], [CHR 0xE3, CHR 0x80, CHR 0x80]]"

text \<open>The length of the space at the front, 0 if there is none.\<close>

fun leading :: "string list \<Rightarrow> string \<Rightarrow> nat" where
  "leading [] s = 0"
| "leading (sp # sps) s = (if take (length sp) s = sp then length sp else leading sps s)"

lemma leading_le: "leading sps s \<le> length s"
  by (induction sps) (auto dest: arg_cong [where f = length])

function trim_front :: "string list \<Rightarrow> string \<Rightarrow> string" where
  "trim_front sps s = (if leading sps s = 0 then s else trim_front sps (drop (leading sps s) s))"
  by pat_completeness auto
termination
proof (relation "measure (\<lambda>(sps, s). length s)")
  fix sps s assume "leading sps s \<noteq> 0"
  then show "((sps, drop (leading sps s) s), (sps, s)) \<in> measure (\<lambda>(sps, s). length s)"
    using leading_le [of sps s] by simp
qed simp

declare trim_front.simps [simp del]

definition TrimSpace :: "string \<Rightarrow> string" where
  "TrimSpace s = rev (trim_front (map rev go_spaces) (rev (trim_front go_spaces s)))"

lemma trim_front_done: "leading sps (trim_front sps s) = 0"
proof (induction sps s rule: trim_front.induct)
  case (1 sps s)
  then show ?case by (cases "leading sps s = 0") (simp_all add: trim_front.simps [of sps s])
qed

lemma trim_front_suffix: "\<exists>u. s = u @ trim_front sps s"
proof (induction sps s rule: trim_front.induct)
  case (1 sps s)
  show ?case
  proof (cases "leading sps s = 0")
    case False
    then obtain u where "drop (leading sps s) s = u @ trim_front sps (drop (leading sps s) s)"
      using 1 by blast
    then have "s = (take (leading sps s) s @ u) @ trim_front sps s"
      using False by (metis append.assoc append_take_drop_id trim_front.simps)
    then show ?thesis by blast
  qed (simp add: trim_front.simps [of sps s])
qed

lemma trim_front_id: "leading sps s = 0 \<Longrightarrow> trim_front sps s = s"
  by (simp add: trim_front.simps)

lemma leading_0_iff: "[] \<notin> set sps \<Longrightarrow> leading sps s = 0 \<longleftrightarrow> (\<forall>sp \<in> set sps. take (length sp) s \<noteq> sp)"
  by (induction sps) auto

lemma TrimSpace_infix: "\<exists>u v. s = u @ TrimSpace s @ v"
proof -
  obtain u where u: "s = u @ trim_front go_spaces s" using trim_front_suffix by blast
  obtain v where "rev (trim_front go_spaces s) = v @ trim_front (map rev go_spaces) (rev (trim_front go_spaces s))"
    using trim_front_suffix by blast
  then have "trim_front go_spaces s = TrimSpace s @ rev v"
    by (metis TrimSpace_def rev_append rev_rev_ident)
  with u show ?thesis by metis
qed

text \<open>A text that neither starts nor ends with a space stays as it is, also behind one blank.\<close>

definition trimmed :: "string \<Rightarrow> bool" where
  "trimmed s \<longleftrightarrow> leading go_spaces s = 0 \<and> leading (map rev go_spaces) (rev s) = 0"

lemma TrimSpace_trimmed: "trimmed s \<Longrightarrow> TrimSpace s = s"
  by (simp add: TrimSpace_def trimmed_def trim_front_id)

lemma TrimSpace_blank: "TrimSpace (CHR '' '' # s) = TrimSpace s"
proof -
  have "leading go_spaces (CHR '' '' # s) = 1"
    by (simp add: go_spaces_def)
  then show ?thesis by (simp add: TrimSpace_def trim_front.simps [of go_spaces "CHR '' '' # s"])
qed

section \<open>Cases, fields and numbers\<close>

definition lower_char :: "char \<Rightarrow> char" where
  "lower_char c = (let n = (of_char c :: nat) in if 65 \<le> n \<and> n \<le> 90 then char_of (n + 32) else c)"

definition upper_char :: "char \<Rightarrow> char" where
  "upper_char c = (let n = (of_char c :: nat) in if 97 \<le> n \<and> n \<le> 122 then char_of (n - 32) else c)"

text \<open>
  \<open>strings.ToLower\<close> as far as a comparison with an ASCII text can see: two letters outside ASCII
  have an ASCII lower case, the Kelvin sign and the dotted capital I; all others go to letters
  outside ASCII, here themselves.  \<open>strings.ToUpper\<close> likewise changes the ASCII letters.
\<close>

fun ToLower :: "string \<Rightarrow> string" where
  "ToLower [] = []"
| "ToLower (c # cs) =
     (if take 3 (c # cs) = [CHR 0xE2, CHR 0x84, CHR 0xAA] then CHR ''k'' # ToLower (drop 2 cs)
      else if take 2 (c # cs) = [CHR 0xC4, CHR 0xB0] then CHR ''i'' # ToLower (drop 1 cs)
      else lower_char c # ToLower cs)"

definition ToUpper :: "string \<Rightarrow> string" where
  "ToUpper s = map upper_char s"

text \<open>\<open>strings.Fields\<close>, with the field being read.\<close>

fun fields_from :: "string \<Rightarrow> string \<Rightarrow> string list" where
  "fields_from cur [] = (if cur = [] then [] else [cur])"
| "fields_from cur (c # cs) =
     (case leading go_spaces (c # cs) of
        0 \<Rightarrow> fields_from (cur @ [c]) cs
      | Suc n \<Rightarrow> if cur = [] then fields_from [] (drop n cs) else cur # fields_from [] (drop n cs))"

definition Fields :: "string \<Rightarrow> string list" where
  "Fields s = fields_from [] s"

section \<open>Host and port\<close>

fun Index :: "string \<Rightarrow> char \<Rightarrow> int" where
  "Index [] c = -1"
| "Index (x # xs) c = (if x = c then 0 else let i = Index xs c in if i < 0 then -1 else i + 1)"

lemma Index_neg_iff: "Index xs c < 0 \<longleftrightarrow> c \<notin> set xs"
  by (induction xs) (auto simp: Let_def)

definition SplitHostPort :: "string \<Rightarrow> string + string \<times> string" where
  "SplitHostPort hp =
     (let i = LastIndex hp CHR '':'' in
      if i < 0 then Inl ''missing port in address''
      else
        let check = (\<lambda>host j k.
              if 0 \<le> Index (drop j hp) CHR ''['' then Inl ''unexpected '[' in address''
              else if 0 \<le> Index (drop k hp) CHR '']'' then Inl ''unexpected ']' in address''
              else Inr (host, drop (nat i + 1) hp))
        in if take 1 hp = ''['' then
             let close_at = Index hp CHR '']'' in
             if close_at < 0 then Inl ''missing ']' in address''
             else if close_at + 1 = int (length hp) then Inl ''missing port in address''
             else if close_at + 1 = i then check (take (nat close_at - 1) (drop 1 hp)) 1 (nat close_at + 1)
             else if hp ! nat (close_at + 1) = CHR '':'' then Inl ''too many colons in address''
             else Inl ''missing port in address''
           else
             let host = take (nat i) hp in
             if 0 \<le> Index host CHR '':'' then Inl ''too many colons in address'' else check host 0 0)"

lemma SplitHostPort_port:
  assumes "SplitHostPort hp = Inr (host, port)"
  shows "0 \<le> LastIndex hp CHR '':'' \<and> port = drop (nat (LastIndex hp CHR '':'') + 1) hp"
  using assms by (auto simp: SplitHostPort_def Let_def split: if_splits)

end
