(* ===== verification/Client_Command.thy ===== *)
theory Client_Command
  imports Client_Session Go_Text
begin

text \<open>
  \<open>main\<close> of \<open>cmd/client\<close>: the flags, the chain of interceptors, the increments it makes, counted or
  without end, and the final read it prints.  Connections, the retry layer and the clock are
  parameters.  The property follows the counter through the whole run.
\<close>

section \<open>The command\<close>

record client_flags =
  cf_servers :: string
  cf_counter :: string
  cf_increments :: int64
  cf_continuous :: bool
  cf_sleep :: int64

definition default_client_flags :: client_flags where
  "default_client_flags =
     \<lparr>cf_servers = ''localhost:50051,localhost:50052,localhost:50053,localhost:50054,localhost:50055'',
      cf_counter = ''foo'', cf_increments = 5, cf_continuous = False, cf_sleep = 500000000\<rparr>"

definition client_peers :: "string \<Rightarrow> string list" where
  "client_peers serversStr = Split CHR '','' serversStr"

definition client_setup :: "client_flags \<Rightarrow> (string \<Rightarrow> go_error + client_conn) \<Rightarrow> string + LeaderInterceptor" where
  "client_setup fl newClient =
     (let peers = client_peers (cf_servers fl) in
      case NewLeaderInterceptor newClient peers of
        Inl err \<Rightarrow> fatalf ''failed to initialize leader interceptor: '' err
      | Inr leaderInterceptor \<Rightarrow>
          (case newClient (hd peers) of Inl err \<Rightarrow> fatalf ''failed to connect: '' err | Inr conn \<Rightarrow> Inr leaderInterceptor))"

text \<open>The chain: logging, request numbers, leader, retry, wire.\<close>

type_synonym 'w client_state = "(string \<times> int64 \<times> go_error option) list \<times> RequestIDInterceptor \<times> LeaderInterceptor \<times> 'w"

definition client_chain :: "('w \<Rightarrow> int64) \<Rightarrow> ('w invoker \<Rightarrow> 'w invoker) \<Rightarrow> 'w runtime \<Rightarrow> 'w client_state invoker" where
  "client_chain now retry rt =
     loggingInterceptor (\<lambda>(i, l, w). now w) (requestid_invoker (leader_invoker (client_runtime retry rt)))"

definition doIncr :: "'s invoker \<Rightarrow> ctx \<Rightarrow> string \<Rightarrow> 's \<Rightarrow> bool \<times> 's" where
  "doIncr chain c counterID s =
     (case client_IncrCounter (\<lambda>req out. chain c ''/counter.CounterService/IncrCounter'' req out None)
             \<lparr>irq_CounterId = counterID, irq_ClientId = [], irq_RequestId = 0\<rparr> s of
        (Inl err, s') \<Rightarrow> (False, s')
      | (Inr resp, s') \<Rightarrow> (True, s'))"

fun client_loop :: "'s invoker \<Rightarrow> ctx \<Rightarrow> ('s \<Rightarrow> 's) \<Rightarrow> string \<Rightarrow> nat \<Rightarrow> 's \<Rightarrow> bool list \<times> 's" where
  "client_loop chain c sleep counterID 0 s = ([], s)"
| "client_loop chain c sleep counterID (Suc n) s =
     (let (ok, s1) = doIncr chain c counterID s; (oks, s2) = client_loop chain c sleep counterID n (sleep s1)
      in (ok # oks, s2))"

partial_function (option) client_forever ::
  "'s invoker \<Rightarrow> ctx \<Rightarrow> ('s \<Rightarrow> 's) \<Rightarrow> string \<Rightarrow> 's \<Rightarrow> (bool list \<times> 's) option" where
  "client_forever chain c sleep counterID s =
     client_forever chain c sleep counterID (sleep (snd (doIncr chain c counterID s)))"

text \<open>
  The whole of \<open>main\<close>: \<open>None\<close> when it never ends, the message it dies with, or what it prints at the
  end, with the outcomes of its increments.
\<close>

definition client_command :: "client_flags \<Rightarrow> ('w \<Rightarrow> int64) \<Rightarrow> ('w invoker \<Rightarrow> 'w invoker) \<Rightarrow> 'w runtime \<Rightarrow> ctx \<Rightarrow> string \<Rightarrow> 'w \<Rightarrow>
    (string + bool list \<times> reply \<times> 'w client_state) option" where
  "client_command fl now retry rt c uuid w =
     (case client_setup fl (NewClient rt) of Inl message \<Rightarrow> Some (Inl message) | Inr leaderInterceptor \<Rightarrow>
        let chain = client_chain now retry rt;
            sleep = (\<lambda>(logged, i, l, w). (logged, i, l, Sleep rt (cf_sleep fl) w));
            s0 = ([], NewRequestIDInterceptor uuid, leaderInterceptor, w)
        in case (if cf_continuous fl then client_forever chain c sleep (cf_counter fl) s0
                 else Some (client_loop chain c sleep (cf_counter fl) (nat (sint (cf_increments fl))) s0)) of
             None \<Rightarrow> None
           | Some (oks, s) \<Rightarrow>
               Some (case client_GetCounter (\<lambda>req out. chain c ''/counter.CounterService/GetCounter'' req out None)
                            \<lparr>grq_CounterId = cf_counter fl\<rparr> s of
                       (Inl err, s') \<Rightarrow> fatalf ''GetCounter: '' err
                     | (Inr got, s') \<Rightarrow> Inr (oks, got, s')))"

text \<open>The endless mode never comes to the final read; the counted mode always does.\<close>

lemma client_forever_None: "client_forever chain c sleep counterID s = None"
proof -
  have "client_forever chain c sleep counterID s = Some y \<longrightarrow> False" for y
  proof (rule client_forever.raw_induct [where P = "\<lambda>chain c sleep counterID s y. False", THEN impI])
  qed auto
  then show ?thesis by (cases "client_forever chain c sleep counterID s") auto
qed

lemma client_command_ends:
  "client_command fl now retry rt c uuid w = None \<longleftrightarrow> cf_continuous fl \<and> (\<exists>l. client_setup fl (NewClient rt) = Inr l)"
  by (auto simp: client_command_def client_forever_None Let_def split: sum.splits prod.splits option.splits)

section \<open>What the run does to the counter\<close>

lemma logged_calls:
  "client_IncrCounter (\<lambda>req out. loggingInterceptor now invoker c m req out None) q (logged, w) =
     (case client_IncrCounter (\<lambda>req out. invoker c m req out None) q w of
        (res, w') \<Rightarrow> (res, logged @ [(m, now w' - now w, case res of Inl e \<Rightarrow> Some e | Inr _ \<Rightarrow> None)], w'))"
  "client_GetCounter (\<lambda>req out. loggingInterceptor now invoker c m req out None) q' (logged, w) =
     (case client_GetCounter (\<lambda>req out. invoker c m req out None) q' w of
        (res, w') \<Rightarrow> (res, logged @ [(m, now w' - now w, case res of Inl e \<Rightarrow> Some e | Inr _ \<Rightarrow> None)], w'))"
  by (auto simp: client_IncrCounter_def client_GetCounter_def loggingInterceptor_def Let_def split: prod.splits option.splits)

lemma doIncr_session_call:
  assumes "session_call (client_runtime retry rt) c k st = (res, st')"
  shows "\<exists>logged'. doIncr (client_chain now retry rt) c k (logged, st) = (\<not> isl res, logged', st')"
proof -
  have "client_IncrCounter (\<lambda>req out. requestid_invoker (leader_invoker (client_runtime retry rt)) c
      ''/counter.CounterService/IncrCounter'' req out None) \<lparr>irq_CounterId = k, irq_ClientId = [], irq_RequestId = 0\<rparr> st = (res, st')"
    using assms by (simp add: session_call_def)
  then show ?thesis by (cases res) (simp_all add: doIncr_def client_chain_def logged_calls)
qed

lemma client_loop_counts:
  assumes "repeats retry" and "k \<noteq> []" and "n < 2 ^ 64"
    and "settled up L g" and "new_to (server_at g L) i n"
    and "client_loop (client_chain now retry (group_runtime up)) c (\<lambda>(logged, i, l, g). (logged, i, l, Sleep (group_runtime up) d g)) k n
      (logged, i, l, g) = (oks, (logged', i', l', g'))"
  shows "length oks = n \<and> settled up L g' \<and>
    (\<exists>m. map_zero (counters (server_at g' L)) k = map_zero (counters (server_at g L)) k + of_nat m
      \<and> length (filter (\<lambda>ok. ok) oks) \<le> m \<and> m \<le> n)"
  using assms(3-)
proof (induction n arbitrary: logged i l g oks)
  case (Suc n)
  let ?q = "stamped_request i \<lparr>irq_CounterId = k, irq_ClientId = [], irq_RequestId = 0\<rparr>"
  obtain res i1 l1 g1 where call: "session_call (client_runtime retry (group_runtime up)) c k (i, l, g) = (res, (i1, l1, g1))"
    by (metis prod.exhaust)
  obtain logged1 where turn: "doIncr (client_chain now retry (group_runtime up)) c k (logged, i, l, g) = (\<not> isl res, logged1, i1, l1, g1)"
    using doIncr_session_call [OF call] by blast
  obtain oks1 where rest: "client_loop (client_chain now retry (group_runtime up)) c (\<lambda>a. a) k n
      (logged1, i1, l1, g1) = (oks1, (logged', i', l', g'))" "oks = (\<not> isl res) # oks1"
    using Suc.prems(4) by (auto simp: turn Let_def split: prod.splits)
  note once = once_runtime.session_call_once [OF client_runtime_once [OF assms(1)] Suc.prems(2,3) assms(2) call]
  have new: "new_to (server_at g1 L) i1 n"
    using new_to_next [OF Suc.prems(3,1), of "server_at g1 L" k] once by auto
  have IH: "length oks1 = n \<and> settled up L g' \<and>
      (\<exists>m. map_zero (counters (server_at g' L)) k = map_zero (counters (server_at g1 L)) k + of_nat m
        \<and> length (filter (\<lambda>ok. ok) oks1) \<le> m \<and> m \<le> n)"
    using Suc.IH [of g1 i1 logged1 l1 oks1] Suc.prems(1) once new rest(1) by simp
  then obtain m where m: "map_zero (counters (server_at g' L)) k = map_zero (counters (server_at g1 L)) k + of_nat m"
      "length (filter (\<lambda>ok. ok) oks1) \<le> m" "m \<le> n" by blast
  have "map_zero (counters (executed (server_at g L) ?q)) k = map_zero (counters (server_at g L)) k + 1"
    by (simp add: map_zero_put incr_response_def stamped_request_def)
  then have "\<exists>d :: nat. map_zero (counters (server_at g1 L)) k = map_zero (counters (server_at g L)) k + of_nat d
      \<and> (if isl res then 0 else 1) \<le> d \<and> d \<le> 1"
    using once by (elim conjE disjE) (rule exI [of _ 0], simp, rule exI [of _ 1], simp)
  then obtain d :: nat where d: "map_zero (counters (server_at g1 L)) k = map_zero (counters (server_at g L)) k + of_nat d"
    "(if isl res then 0 else 1) \<le> d" "d \<le> 1" by blast
  have "map_zero (counters (server_at g' L)) k = map_zero (counters (server_at g L)) k + of_nat (d + m)"
    using m(1) d(1) by (simp add: add.assoc)
  moreover have "length (filter (\<lambda>ok. ok) oks) \<le> d + m" using m(2) d(2) by (cases "isl res") (simp_all add: rest(2))
  moreover have "d + m \<le> Suc n" using m(3) d(3) by simp
  moreover have "length oks = Suc n \<and> settled up L g'" using IH by (simp add: rest(2))
  ultimately show ?case by (intro conjI exI [of _ "d + m"]) simp_all
qed simp

lemma client_read_value:
  assumes "repeats retry" and "settled up L g"
    and "client_GetCounter (\<lambda>req out. client_chain now retry (group_runtime up) c ''/counter.CounterService/GetCounter'' req out None)
      \<lparr>grq_CounterId = k\<rparr> (logged, i, l, g) = (Inr got, s')"
  shows "got = GetReply \<lparr>grs_Value = map_zero (counters (server_at g L)) k, grs_RedirectTo = []\<rparr>"
proof -
  obtain err r' l' g' where call: "Leader_Unary (client_runtime retry (group_runtime up)) c
      ''/counter.CounterService/GetCounter'' (GetReq \<lparr>grq_CounterId = k\<rparr>) (GetReply \<lparr>grs_Value = 0, grs_RedirectTo = []\<rparr>)
      l g = (err, r', l', g')"
    by (rule prod_cases4)
  obtain st where "client_GetCounter (\<lambda>req out. requestid_invoker (leader_invoker (client_runtime retry (group_runtime up))) c
      ''/counter.CounterService/GetCounter'' req out None) \<lparr>grq_CounterId = k\<rparr> (i, l, g) = (Inr got, st)"
    using assms(3) by (auto simp: client_chain_def logged_calls split: prod.splits)
  then have "err = None \<and> r' = got" using call
    by (cases err) (auto simp: client_GetCounter_def requestid_invoker_def RequestID_Unary_def leader_invoker_def stamp_def Let_def)
  then show ?thesis using once_runtime.call_reads [OF client_runtime_once [OF assms(1)] assms(2) call] by simp
qed

lemma client_setup_group: "\<exists>l. client_setup fl (NewClient (group_runtime up)) = Inr l"
proof -
  have "client_peers (cf_servers fl) \<noteq> []" by (simp add: client_peers_def)
  then show ?thesis by (cases "client_peers (cf_servers fl)") (simp_all add: client_setup_def NewLeaderInterceptor_def)
qed

text \<open>C6: What the client command prints.  Deduplication on, leadership fixed, messages lost in any pattern,
  a retry layer of any persistence: the endless mode never ends once it is set up; the counted
  mode always ends, and when it prints a value, that value exceeds the counter at its start by at
  least its successful and at most all its increments, exactly by all when none failed.\<close>

theorem client_command_counts:
  assumes "repeats retry" and "cf_counter fl \<noteq> []" and "settled up L g"
    and "new_to (server_at g L) (NewRequestIDInterceptor uuid) (nat (sint (cf_increments fl)))"
  shows "case client_command fl now retry (group_runtime up) c uuid g of
      None \<Rightarrow> cf_continuous fl
    | Some (Inl message) \<Rightarrow> \<not> cf_continuous fl \<and> (\<exists>err. message = ''GetCounter: '' @ error_text err)
    | Some (Inr (oks, got, s')) \<Rightarrow> \<not> cf_continuous fl \<and> length oks = nat (sint (cf_increments fl)) \<and>
        (\<exists>n. got = GetReply \<lparr>grs_Value = map_zero (counters (server_at g L)) (cf_counter fl) + of_nat n, grs_RedirectTo = []\<rparr>
          \<and> length (filter (\<lambda>ok. ok) oks) \<le> n \<and> n \<le> length oks)"
proof (cases "cf_continuous fl")
  case True
  obtain l where "client_setup fl (NewClient (group_runtime up)) = Inr l" using client_setup_group by blast
  then show ?thesis using client_command_ends [of fl now retry "group_runtime up" c uuid g] True by simp
next
  case False
  obtain l where su: "client_setup fl (NewClient (group_runtime up)) = Inr l" using client_setup_group by blast
  let ?chain = "client_chain now retry (group_runtime up)"
  let ?k = "cf_counter fl"
  have small: "nat (sint (cf_increments fl)) < 2 ^ 64" using sint64_lt [of "cf_increments fl"] by simp
  obtain oks logged' i' l' g' where loop: "client_loop ?chain c (\<lambda>(logged, i, l, g). (logged, i, l, Sleep (group_runtime up) (cf_sleep fl) g)) ?k
      (nat (sint (cf_increments fl))) ([], NewRequestIDInterceptor uuid, l, g) = (oks, (logged', i', l', g'))"
    by (metis prod.exhaust)
  obtain res logged2 i2 l2 g2 where read: "client_GetCounter (\<lambda>req out. ?chain c ''/counter.CounterService/GetCounter'' req out None)
      \<lparr>grq_CounterId = ?k\<rparr> (logged', i', l', g') = (res, (logged2, i2, l2, g2))"
    by (metis prod.exhaust)
  note counts = client_loop_counts [OF assms(1,2) small assms(3,4) loop]
  have run: "client_command fl now retry (group_runtime up) c uuid g =
      Some (case res of Inl err \<Rightarrow> fatalf ''GetCounter: '' err | Inr got \<Rightarrow> Inr (oks, got, (logged2, i2, l2, g2)))"
    using False loop read by (simp add: client_command_def su Let_def split: sum.splits)
  show ?thesis
  proof (cases res)
    case (Inr got)
    have "got = GetReply \<lparr>grs_Value = map_zero (counters (server_at g' L)) ?k, grs_RedirectTo = []\<rparr>"
      using client_read_value [OF assms(1) _ read [unfolded Inr]] counts by blast
    then show ?thesis using run Inr False counts by auto
  qed (use run False in \<open>auto simp: fatalf_def\<close>)
qed

definition three_increments :: client_flags where
  "three_increments = default_client_flags\<lparr>cf_servers := ''s2,s1'', cf_increments := 3\<rparr>"

lemma client_command_counts_witness:
  "case client_command three_increments (\<lambda>g. 0) (retry_up_to 4) (group_runtime {''s1'', ''s2'', ''s3''}) Background ''u''
      (group5 [Delivered, ReplyLost timeout_error, RequestLost timeout_error]) of
      Some (Inr (oks, got, s')) \<Rightarrow> length oks = 3 \<and> (\<exists>n. got = GetReply \<lparr>grs_Value = of_nat n, grs_RedirectTo = []\<rparr> \<and> n \<le> 3)
    | _ \<Rightarrow> True"
proof -
  let ?g = "group5 [Delivered, ReplyLost timeout_error, RequestLost timeout_error]"
  have "dedupEnabled (srv5 ''s1'') \<and> cache (srv5 ''s1'') = newReplyCache" by code_simp
  then have new: "new_to (server_at ?g ''s1'') (NewRequestIDInterceptor ''u'') (nat (sint (cf_increments three_increments)))"
    by (simp add: new_to_def group5_def NewRequestIDInterceptor_def rcache.get_empty)
  have zero: "map_zero (counters (server_at ?g ''s1'')) k = 0" for k
  proof -
    have "counters (srv5 ''s1'') = []" by code_simp
    then show ?thesis by (simp add: group5_def map_zero_def)
  qed
  have k: "cf_counter three_increments \<noteq> []" "nat (sint (cf_increments three_increments)) = 3"
    by (simp_all add: three_increments_def default_client_flags_def)
  from client_command_counts [OF repeats_retry_up_to [where n = 4] k(1) settled_group5 new, where now = "\<lambda>g. 0" and c = Background]
  show ?thesis unfolding zero k(2) by (auto split: option.splits sum.splits prod.splits)
qed

end
