(* ===== verification/Fault_Injection.thy ===== *)
theory Fault_Injection
  imports Go_Text Leader_Interceptor
begin

text \<open>
  The fault injector of \<open>cmd/loadgen\<close> and its helpers: which server a run kills, how the process is
  found from an address, and that it happens once.  The operating system is a parameter: the
  clock, \<open>lsof\<close>, \<open>os.FindProcess\<close> and the signal call, over a world of any type.
\<close>

section \<open>Errors with quoted text\<close>

text \<open>The verb \<open>%q\<close> on ASCII text; bytes outside ASCII are kept.\<close>

definition hex_digit :: "nat \<Rightarrow> char" where
  "hex_digit n = (if n < 10 then char_of (48 + n) else char_of (87 + n))"

definition quote_char :: "char \<Rightarrow> string" where
  "quote_char c =
     (let n = (of_char c :: nat) in
      if n = 34 \<or> n = 92 then [CHR 0x5C, c]
      else case map_of [(7, CHR ''a''), (8, CHR ''b''), (12, CHR ''f''), (10, CHR ''n''), (13, CHR ''r''),
             (9, CHR ''t''), (11, CHR ''v'')] n of
             Some e \<Rightarrow> [CHR 0x5C, e]
           | None \<Rightarrow>
               if n < 32 \<or> n = 127 then [CHR 0x5C, CHR ''x'', hex_digit (n div 16), hex_digit (n mod 16)]
               else [c])"

definition Quote :: "string \<Rightarrow> string" where
  "Quote s = [CHR 0x22] @ concat (map quote_char s) @ [CHR 0x22]"

section \<open>Addresses\<close>

definition extractPort :: "string \<Rightarrow> go_error + string" where
  "extractPort addr =
     (case SplitHostPort addr of
        Inr (_, port) \<Rightarrow> Inr port
      | Inl _ \<Rightarrow>
          let idx = LastIndex addr CHR '':'' in
          if idx = -1 \<or> idx = int (length addr) - 1
          then Inl (OtherError (''address '' @ Quote addr @ '' does not contain a port''))
          else Inr (drop (nat (idx + 1)) addr))"

definition parsePeers :: "string \<Rightarrow> string list" where
  "parsePeers raw = fold (\<lambda>item peers. let peer = TrimSpace item in if peer \<noteq> [] then peers @ [peer] else peers)
     (Split CHR '','' raw) []"

datatype signal = SIGTERM | SIGKILL

definition parseSignal :: "string \<Rightarrow> go_error + signal" where
  "parseSignal name =
     (let s = ToLower name in
      if s = ''term'' \<or> s = ''sigterm'' then Inr SIGTERM
      else if s = ''kill'' \<or> s = ''sigkill'' then Inr SIGKILL
      else Inl (OtherError (''unsupported kill signal '' @ Quote name @ '' (use term or kill)'')))"

definition statusString :: "go_error option \<Rightarrow> string" where
  "statusString err =
     (case err of
        None \<Rightarrow> code_String OK
      | Some e \<Rightarrow> (case FromError e of Some (code, msg) \<Rightarrow> code_String code | None \<Rightarrow> ''ERROR''))"

section \<open>The injector\<close>

record killEvent =
  TriggeredAtNS :: int64
  Address :: string
  PID :: int64
  Err :: "go_error option"

record faultInjector =
  fi_peers :: "string list"
  fi_target :: string
  fi_explicitAddr :: string
  fi_signalName :: string
  fi_signalValue :: signal
  fi_once :: bool
  fi_result :: killEvent

text \<open>
  What the injector asks of the system: the clock, \<open>lsof -ti tcp:PORT -s tcp:LISTEN\<close> with its
  output, a handle on a process and the signal call.
\<close>

record 'w os =
  Now :: "'w \<Rightarrow> int64"
  Lsof :: "string \<Rightarrow> 'w \<Rightarrow> go_error + string"
  FindProcess :: "int64 \<Rightarrow> 'w \<Rightarrow> go_error + int64"
  Signal :: "int64 \<Rightarrow> signal \<Rightarrow> 'w \<Rightarrow> go_error option \<times> 'w"

definition newFaultInjector ::
  "string list \<Rightarrow> string \<Rightarrow> string \<Rightarrow> string \<Rightarrow> go_error + faultInjector" where
  "newFaultInjector ps target explicitAddr signalName =
     (case parseSignal signalName of
        Inl err \<Rightarrow> Inl err
      | Inr signalValue \<Rightarrow>
          Inr \<lparr>fi_peers = ps, fi_target = target, fi_explicitAddr = explicitAddr,
               fi_signalName = ToUpper signalName, fi_signalValue = signalValue, fi_once = False,
               fi_result = \<lparr>TriggeredAtNS = 0, Address = [], PID = 0, Err = None\<rparr>\<rparr>)"

definition resolveTarget :: "faultInjector \<Rightarrow> LeaderInterceptor \<Rightarrow> go_error + string" where
  "resolveTarget f l =
     (if fi_explicitAddr f \<noteq> [] then Inr (fi_explicitAddr f)
      else
        let leaderAddr = CurrentLeader l in
        if fi_target f = ''leader'' then
          if leaderAddr = [] then Inl (OtherError ''could not determine current leader'') else Inr leaderAddr
        else if fi_target f = ''follower'' then
          (case List.find (\<lambda>peer. peer \<noteq> leaderAddr) (fi_peers f) of
             Some peer \<Rightarrow> Inr peer
           | None \<Rightarrow> Inl (OtherError ''no follower available to kill''))
        else Inl (OtherError (''unsupported kill target '' @ Quote (fi_target f))))"

definition findListeningPID :: "'w os \<Rightarrow> string \<Rightarrow> 'w \<Rightarrow> go_error + int64" where
  "findListeningPID os addr w =
     (case extractPort addr of
        Inl err \<Rightarrow> Inl err
      | Inr port \<Rightarrow>
          (case Lsof os port w of
             Inl err \<Rightarrow> Inl (Errorf_w (''failed to locate process on '' @ addr @ '': '') err)
           | Inr out \<Rightarrow>
               (case Fields (TrimSpace out) of
                  [] \<Rightarrow> Inl (OtherError (''no listening process found on '' @ addr))
                | line # _ \<Rightarrow>
                    (case ParseInt line of
                       Inl e \<Rightarrow>
                         Inl (OtherError (''invalid pid '' @ Quote line @ '' for '' @ addr @ '': strconv.Atoi: parsing '' @
                           Quote line @ '': '' @ (case e of ErrSyntax \<Rightarrow> ''invalid syntax'' | ErrRange \<Rightarrow> ''value out of range'')))
                     | Inr pid \<Rightarrow> Inr pid))))"

text \<open>The body given to \<open>once.Do\<close>, and \<open>Trigger\<close> around it.\<close>

definition trigger_body ::
  "'w os \<Rightarrow> LeaderInterceptor \<Rightarrow> faultInjector \<Rightarrow> 'w \<Rightarrow> killEvent \<times> 'w" where
  "trigger_body os l f w =
     (let r0 = (fi_result f)\<lparr>TriggeredAtNS := Now os w\<rparr> in
      case resolveTarget f l of
        Inl err \<Rightarrow> (r0\<lparr>Err := Some err\<rparr>, w)
      | Inr addr \<Rightarrow>
          let r1 = r0\<lparr>Address := addr\<rparr> in
          case findListeningPID os addr w of
            Inl err \<Rightarrow> (r1\<lparr>Err := Some err\<rparr>, w)
          | Inr pid \<Rightarrow>
              let r2 = r1\<lparr>PID := pid\<rparr> in
              case FindProcess os pid w of
                Inl err \<Rightarrow> (r2\<lparr>Err := Some err\<rparr>, w)
              | Inr proc \<Rightarrow>
                  (case Signal os proc (fi_signalValue f) w of
                     (Some err, w') \<Rightarrow> (r2\<lparr>Err := Some err\<rparr>, w')
                   | (None, w') \<Rightarrow> (r2, w')))"

definition Trigger ::
  "'w os \<Rightarrow> LeaderInterceptor \<Rightarrow> faultInjector \<Rightarrow> 'w \<Rightarrow> killEvent \<times> faultInjector \<times> 'w" where
  "Trigger os l f w =
     (if fi_once f then (fi_result f, f, w)
      else (case trigger_body os l f w of
              (r, w') \<Rightarrow> (r, f\<lparr>fi_once := True, fi_result := r\<rparr>, w')))"

definition Result :: "faultInjector \<Rightarrow> killEvent" where
  "Result f = fi_result f"

section \<open>Ports\<close>

lemma LastIndex_last:
  "0 \<le> LastIndex s c \<Longrightarrow>
     s = take (nat (LastIndex s c)) s @ c # drop (nat (LastIndex s c) + 1) s \<and> c \<notin> set (drop (nat (LastIndex s c) + 1) s)"
proof (induction s)
  case (Cons x xs)
  show ?case
  proof (cases "0 \<le> LastIndex xs c")
    case True
    then have "nat (LastIndex xs c + 1) = Suc (nat (LastIndex xs c))" by simp
    then show ?thesis using Cons True by simp
  next
    case False
    then show ?thesis using Cons.prems LastIndex_neg_iff [of xs c] by (auto simp: Let_def split: if_splits)
  qed
qed simp

text \<open>The port is what follows the last colon.  Whatever the form of the address, when \<open>extractPort\<close>
  succeeds the port is the text behind the last colon, and it succeeds whenever there is such a
  text and it is not empty.\<close>

lemma port_after_last_colon:
  assumes "CHR '':'' \<notin> set port"
  shows "(port \<noteq> [] \<longrightarrow> extractPort (host @ CHR '':'' # port) = Inr port)
    \<and> (\<forall>p. extractPort (host @ CHR '':'' # port) = Inr p \<longrightarrow> p = port)"
proof -
  have idx: "LastIndex (host @ CHR '':'' # port) CHR '':'' = int (length host)"
    using assms by (rule LastIndex_mid)
  show ?thesis
  proof (cases "SplitHostPort (host @ CHR '':'' # port)")
    case (Inr hp)
    obtain h p where hp: "hp = (h, p)" by (cases hp)
    have "p = port"
      using SplitHostPort_port [OF Inr [unfolded hp]] by (simp add: idx nat_add_distrib)
    then show ?thesis by (simp add: extractPort_def Inr hp)
  next
    case (Inl e)
    then show ?thesis using idx by (auto simp: extractPort_def Let_def nat_add_distrib)
  qed
qed

lemma port_after_last_colon_witness:
  "extractPort (''::1'' @ CHR '':'' # ''50051'') = Inr ''50051''"
  using port_after_last_colon [of "''50051''" "''::1''"] by simp

text \<open>An address that ends in a colon has no port, but \<open>net.SplitHostPort\<close> accepts it, so the empty
  port gets through to \<open>lsof\<close>; the check behind it would have refused it.\<close>

lemma empty_port_accepted: "extractPort ''localhost:'' = Inr []"
  by code_simp

section \<open>Peers\<close>

lemma parsePeers_filter: "parsePeers raw = filter (\<lambda>p. p \<noteq> []) (map TrimSpace (Split CHR '','' raw))"
proof -
  have "fold (\<lambda>item peers. let peer = TrimSpace item in if peer \<noteq> [] then peers @ [peer] else peers) xs acc =
      acc @ filter (\<lambda>p. p \<noteq> []) (map TrimSpace xs)" for xs acc
    by (induction xs arbitrary: acc) (auto simp: Let_def)
  then show ?thesis by (simp add: parsePeers_def)
qed

text \<open>Names joined with a comma and an optional blank.\<close>

fun join_peers :: "string \<Rightarrow> string list \<Rightarrow> string" where
  "join_peers sep [] = []"
| "join_peers sep [p] = p"
| "join_peers sep (p # ps) = p @ sep @ join_peers sep ps"

definition peer_name :: "string \<Rightarrow> bool" where
  "peer_name p \<longleftrightarrow> p \<noteq> [] \<and> CHR '','' \<notin> set p \<and> trimmed p"

lemma split_join:
  assumes "\<forall>p \<in> set ps. CHR '','' \<notin> set p" and "ps \<noteq> []" and "CHR '','' \<notin> set sp"
  shows "Split CHR '','' (join_peers (CHR '','' # sp) ps) = hd ps # map (\<lambda>p. sp @ p) (tl ps)"
  using assms
proof (induction ps rule: induct_list012)
  case (3 p p' ps)
  have shift: "Split CHR '','' (sp @ s) = (sp @ hd (Split CHR '','' s)) # tl (Split CHR '','' s)" for s
    using \<open>CHR '','' \<notin> set sp\<close>
    by (induction sp) (auto simp: neq_Nil_conv dest: sym split: list.splits)
  show ?case
    using 3 shift [of "join_peers (CHR '','' # sp) (p' # ps)"] by (simp add: Split_append)
qed (simp_all add: Split_single)

text \<open>Server lists survive the flag.  A list of well-formed addresses written with commas, or with a
  comma and a blank, is read back by \<open>parsePeers\<close> as it was; and whatever the flag says, no
  address that \<open>parsePeers\<close> returns is empty or contains a comma.\<close>

lemma parsePeers_roundtrip:
  assumes "\<forall>p \<in> set ps. peer_name p"
  shows "parsePeers (join_peers '','' ps) = ps \<and> parsePeers (join_peers '', '' ps) = ps
    \<and> (\<forall>raw. \<forall>p \<in> set (parsePeers raw). p \<noteq> [] \<and> CHR '','' \<notin> set p)"
proof -
  have sep: "\<forall>p \<in> set ps. CHR '','' \<notin> set p" using assms by (auto simp: peer_name_def)
  have trim: "map TrimSpace ps = ps" "filter (\<lambda>p. p \<noteq> []) ps = ps"
    using assms by (auto simp: peer_name_def TrimSpace_trimmed map_idI filter_id_conv)
  have "TrimSpace [] = []" by code_simp
  then have empty: "parsePeers [] = []" by (simp add: parsePeers_filter)
  have "parsePeers (join_peers '','' ps) = ps"
    using split_join [OF sep, of "[]"] trim empty by (cases ps) (simp_all add: parsePeers_filter)
  moreover have "map TrimSpace (hd ps # map (\<lambda>p. '' '' @ p) (tl ps)) = map TrimSpace ps" if "ps \<noteq> []"
    using that by (cases ps) (simp_all add: TrimSpace_blank)
  then have "parsePeers (join_peers '', '' ps) = ps"
    using split_join [OF sep, of "'' ''"] trim empty by (cases "ps = []") (simp_all add: parsePeers_filter)
  moreover have "p \<noteq> [] \<and> CHR '','' \<notin> set p" if "p \<in> set (parsePeers raw)" for p raw
  proof -
    obtain item where "item \<in> set (Split CHR '','' raw)" "p = TrimSpace item" "p \<noteq> []"
      using \<open>p \<in> set (parsePeers raw)\<close> by (auto simp: parsePeers_filter)
    moreover obtain u v where "item = u @ TrimSpace item @ v" using TrimSpace_infix by blast
    ultimately show ?thesis using Split_no_sep [of item "CHR '',''" raw] by (metis Un_iff set_append)
  qed
  ultimately show ?thesis by blast
qed

lemma parsePeers_roundtrip_witness:
  "parsePeers ''localhost:50051, localhost:50052'' = [''localhost:50051'', ''localhost:50052'']"
proof -
  have "\<forall>p \<in> set [''localhost:50051'', ''localhost:50052'']. peer_name p" by code_simp
  from parsePeers_roundtrip [OF this] show ?thesis by simp
qed

end
