(* ===== verification/Load_Generator.thy ===== *)
theory Load_Generator
  imports Fault_Injection Request_Chain
begin

text \<open>
  The measuring run of \<open>cmd/loadgen\<close>: the check of the flags, the operations of the workers with
  their shared counters, the fault injected after a given number of completed operations, the rows
  sent to the CSV writer and the summary of the run.  Here a worker's turn is one step, so a run is
  a list of turns in the order in which they complete; \<open>Worker_Pool\<close> cuts the turns and lets them
  overlap.  The client call, the clock and the operating system are parameters, and so is the
  latency column, which \<open>Measurement\<close> gives.
\<close>

section \<open>Rows and results\<close>

record resultRow =
  OpID :: int64
  WorkerID :: int64
  Operation :: int64
  StartNS :: int64
  EndNS :: int64
  Status :: string
  AttemptCount :: int64
  LeaderBefore :: string
  LeaderAfter :: string
  ErrorText :: string

definition csv_header :: "string list" where
  "csv_header = [''op_id'', ''worker_id'', ''operation'', ''start_ns'', ''end_ns'', ''latency_ms'', ''status'',
     ''attempt_count'', ''leader_before'', ''leader_after'', ''error'']"

definition csv_record :: "(int64 \<Rightarrow> string) \<Rightarrow> resultRow \<Rightarrow> string list" where
  "csv_record latency_text row =
     [FormatInt (OpID row), FormatInt (WorkerID row), FormatInt (Operation row), FormatInt (StartNS row),
      FormatInt (EndNS row), latency_text (EndNS row - StartNS row), Status row, FormatInt (AttemptCount row),
      LeaderBefore row, LeaderAfter row, ErrorText row]"

record runMeta =
  Servers :: "string list"
  Counter :: string
  Workers :: int64
  IncrementsPerWorker :: int64
  ThinkTime :: string
  Timeout :: string
  OutputCSV :: string
  KillAfter :: int64
  KillTarget :: string
  KillSignal :: string
  KillAddress :: string
  StartedAtNS :: int64
  FinishedAtNS :: int64
  KillTriggeredAtNS :: int64
  KillResolvedAddr :: string
  KillPID :: int64
  KillError :: string
  SuccessCount :: int64
  FailureCount :: int64
  FinalCounterValue :: int64
  FinalCounterError :: string

section \<open>The run\<close>

text \<open>\<open>log.Fatal\<close> ends the program: an error with its message.\<close>

definition check_flags :: "int64 \<Rightarrow> int64 \<Rightarrow> string \<Rightarrow> string + string list" where
  "check_flags workers increments serversStr =
     (if workers \<le>s 0 then Inl ''workers must be > 0''
      else if increments \<le>s 0 then Inl ''increments must be > 0''
      else
        let peers = parsePeers serversStr in
        if length peers = 0 then Inl ''at least one server address is required'' else Inr peers)"

record load_run =
  started :: int64
  completed :: int64
  successCount :: int64
  failureCount :: int64
  killTriggered :: bool
  injector :: faultInjector
  rows :: "resultRow list"

definition start_run :: "faultInjector \<Rightarrow> load_run" where
  "start_run f = \<lparr>started = 0, completed = 0, successCount = 0, failureCount = 0, killTriggered = False,
     injector = f, rows = []\<rparr>"

text \<open>
  One increment by the client: its error, the number of attempts the tracker counted, and the
  interceptor and world it leaves.
\<close>

type_synonym 'w client_call =
  "LeaderInterceptor \<Rightarrow> 'w \<Rightarrow> go_error option \<times> int64 \<times> LeaderInterceptor \<times> 'w"

definition worker_turn :: "'w os \<Rightarrow> 'w client_call \<Rightarrow> int64 \<Rightarrow> int64 \<times> int64 \<Rightarrow>
    load_run \<times> LeaderInterceptor \<times> 'w \<Rightarrow> load_run \<times> LeaderInterceptor \<times> 'w" where
  "worker_turn os call killAfter turn st =
     (let (workerID, op) = turn; (s0, l0, w0) = st;
          opID = started s0 + 1;
          s1 = s0\<lparr>started := opID\<rparr>;
          start = Now os w0;
          leaderBefore = CurrentLeader l0;
          (err, attempts, l1, w1) = call l0 w0;
          stop = Now os w1;
          row = \<lparr>OpID = opID, WorkerID = workerID, Operation = op, StartNS = start, EndNS = stop,
                 Status = statusString err, AttemptCount = attempts, LeaderBefore = leaderBefore,
                 LeaderAfter = CurrentLeader l1,
                 ErrorText = (case err of Some e \<Rightarrow> error_text e | None \<Rightarrow> [])\<rparr>;
          s2 = (case err of Some e \<Rightarrow> s1\<lparr>failureCount := failureCount s1 + 1\<rparr>
                | None \<Rightarrow> s1\<lparr>successCount := successCount s1 + 1\<rparr>);
          s3 = s2\<lparr>rows := rows s2 @ [row]\<rparr>;
          completedNow = completed s3 + 1;
          s4 = s3\<lparr>completed := completedNow\<rparr>
      in if 0 <s killAfter \<and> completedNow = killAfter then
           (case Trigger os l1 (injector s4) w1 of
              (event, f, w2) \<Rightarrow> (s4\<lparr>killTriggered := True, injector := f\<rparr>, l1, w2))
         else (s4, l1, w1))"

fun run_turns :: "'w os \<Rightarrow> 'w client_call \<Rightarrow> int64 \<Rightarrow> (int64 \<times> int64) list \<Rightarrow>
    load_run \<times> LeaderInterceptor \<times> 'w \<Rightarrow> load_run \<times> LeaderInterceptor \<times> 'w" where
  "run_turns os call killAfter [] st = st"
| "run_turns os call killAfter (t # ts) st = run_turns os call killAfter ts (worker_turn os call killAfter t st)"

text \<open>The summary, from the meta record written before the run and the final \<open>GetCounter\<close>.\<close>

definition finish_meta :: "runMeta \<Rightarrow> int64 \<Rightarrow> load_run \<Rightarrow> go_error + GetResponse \<Rightarrow> runMeta" where
  "finish_meta meta now s final =
     (let m1 = meta\<lparr>FinishedAtNS := now, SuccessCount := successCount s, FailureCount := failureCount s\<rparr>;
          m2 = (if 0 <s KillAfter m1 \<and> killTriggered s then
                  (let event = Result (injector s);
                       m = m1\<lparr>KillTriggeredAtNS := TriggeredAtNS event, KillResolvedAddr := Address event,
                              KillPID := PID event\<rparr>
                   in case Err event of Some e \<Rightarrow> m\<lparr>KillError := error_text e\<rparr> | None \<Rightarrow> m)
                else m1)
      in case final of Inl e \<Rightarrow> m2\<lparr>FinalCounterError := error_text e\<rparr>
         | Inr r \<Rightarrow> m2\<lparr>FinalCounterValue := grs_Value r\<rparr>)"

section \<open>Accounting\<close>

lemma worker_turn_counts:
  assumes "worker_turn os call killAfter t (s, l, w) = (s', l', w')"
  shows "started s' = started s + 1 \<and> completed s' = completed s + 1 \<and>
    successCount s' + failureCount s' = successCount s + failureCount s + 1 \<and>
    (\<exists>row. rows s' = rows s @ [row] \<and> OpID row = started s' \<and> (WorkerID row, Operation row) = t)"
  using assms
  by (auto simp: worker_turn_def Let_def split: prod.splits option.splits if_splits)

lemma run_turns_snoc:
  "run_turns os call killAfter (ts @ [t]) st = worker_turn os call killAfter t (run_turns os call killAfter ts st)"
  by (induction ts arbitrary: st) auto

lemma run_turns_append:
  "run_turns os call killAfter (ts @ us) st = run_turns os call killAfter us (run_turns os call killAfter ts st)"
  by (induction ts arbitrary: st) auto

lemma run_counts:
  assumes "run_turns os call killAfter ts (s, l, w) = (s', l', w')"
  shows "started s' = started s + of_nat (length ts) \<and> completed s' = completed s + of_nat (length ts) \<and>
    successCount s' + failureCount s' = successCount s + failureCount s + of_nat (length ts) \<and>
    length (rows s') = length (rows s) + length ts"
  using assms
proof (induction ts arbitrary: s l w)
  case (Cons t ts)
  obtain s1 l1 w1 where t: "worker_turn os call killAfter t (s, l, w) = (s1, l1, w1)" by (metis prod.exhaust)
  then have "run_turns os call killAfter ts (s1, l1, w1) = (s', l', w')" using Cons.prems by simp
  from Cons.IH [OF this] worker_turn_counts [OF t] show ?case by auto
qed simp

lemma Trigger_result: "Trigger os l f w = (r, f', w') \<Longrightarrow> Trigger os l f w = (Result f', f', w')"
  by (auto simp: Trigger_def Result_def split: if_splits prod.splits)

text \<open>The injector before and after the completion that triggers it.\<close>

lemma worker_turn_injector:
  assumes "worker_turn os call killAfter t (s, l, w) = (s', l', w')"
  shows "if 0 <s killAfter \<and> completed s + 1 = killAfter
    then killTriggered s' \<and> (\<exists>w1. Trigger os l' (injector s) w1 = (Result (injector s'), injector s', w'))
    else killTriggered s' = killTriggered s \<and> injector s' = injector s"
  using assms
  by (auto simp: worker_turn_def Let_def split: prod.splits option.splits if_splits)
      (blast dest: Trigger_result)+

lemma run_injector_idle:
  assumes "run_turns os call killAfter ts (s, l, w) = (s', l', w')"
    and "\<forall>n \<in> {1..length ts}. \<not> (0 <s killAfter \<and> completed s + of_nat n = killAfter)"
  shows "killTriggered s' = killTriggered s \<and> injector s' = injector s"
  using assms
proof (induction ts arbitrary: s l w)
  case (Cons t ts)
  obtain s1 l1 w1 where t: "worker_turn os call killAfter t (s, l, w) = (s1, l1, w1)" by (metis prod.exhaust)
  have first: "\<not> (0 <s killAfter \<and> completed s + 1 = killAfter)"
    using Cons.prems(2) by (metis One_nat_def atLeastAtMost_iff le_refl length_Cons of_nat_1 Suc_le_mono le0)
  have c: "completed s1 = completed s + 1" using worker_turn_counts [OF t] by simp
  have "\<not> (0 <s killAfter \<and> completed s1 + of_nat n = killAfter)" if "n \<in> {1..length ts}" for n
  proof -
    have "Suc n \<in> {1..length (t # ts)}" using that by simp
    then have "\<not> (0 <s killAfter \<and> completed s + of_nat (Suc n) = killAfter)" using Cons.prems(2) by blast
    then show ?thesis by (simp add: c add.assoc)
  qed
  moreover have "run_turns os call killAfter ts (s1, l1, w1) = (s', l', w')" using Cons.prems(1) t by simp
  ultimately have "killTriggered s' = killTriggered s1 \<and> injector s' = injector s1" using Cons.IH by blast
  then show ?case using worker_turn_injector [OF t] first by auto
qed simp

lemma of_nat_eq_64: "a < 2 ^ 64 \<Longrightarrow> b < 2 ^ 64 \<Longrightarrow> (of_nat a :: int64) = of_nat b \<longleftrightarrow> a = b"
  by (simp add: word_unat_eq_iff unat_of_nat)

text \<open>The books balance.  However the turns of the workers interleave, after a run the numbers of
  started, of completed and of succeeded plus failed operations, and the number of rows, are all
  the number of turns.\<close>

lemma run_accounts:
  "case run_turns os call killAfter ts (start_run f, l, w) of
     (s, l', w') \<Rightarrow> started s = of_nat (length ts) \<and> completed s = of_nat (length ts)
       \<and> successCount s + failureCount s = of_nat (length ts) \<and> length (rows s) = length ts"
  using run_counts [of os call killAfter ts "start_run f" l w]
  by (cases "run_turns os call killAfter ts (start_run f, l, w)") (simp add: start_run_def)

text \<open>The fault is injected once, at the right operation.  With \<open>kill-after\<close> set to \<open>k\<close>, a run of at
  least \<open>k\<close> turns fires the injector right after the \<open>k\<close>-th completed operation, aimed at the leader
  the interceptor then follows, and never again: the event in the summary is that one.  A run of
  fewer turns, or with \<open>kill-after\<close> at most 0, never fires it.\<close>

lemma fault_injected_once:
  assumes "length ts < 2 ^ 63" and "\<not> fi_once f"
    and "run_turns os call killAfter ts (start_run f, l, w) = (s', l', w')"
  shows "if 0 < sint killAfter \<and> sint killAfter \<le> int (length ts)
    then killTriggered s' \<and>
      (\<exists>s1 l1 w1 w2. run_turns os call killAfter (take (nat (sint killAfter)) ts) (start_run f, l, w) = (s1, l1, w1)
        \<and> completed s1 = killAfter \<and> trigger_body os l1 f w2 = (Result (injector s'), w1))
    else \<not> killTriggered s' \<and> injector s' = f"
proof -
  have k: "killAfter = of_nat (nat (sint killAfter))" if "0 \<le> sint killAfter"
    using that by (simp add: of_nat_nat)
  show ?thesis
  proof (cases "0 < sint killAfter \<and> sint killAfter \<le> int (length ts)")
    case True
    define n where "n = nat (sint killAfter)"
    have n: "0 < n" "n \<le> length ts" "killAfter = of_nat n" using True k by (auto simp: n_def)
    define us where "us = take (n - 1) ts"
    define t where "t = ts ! (n - 1)"
    define vs where "vs = drop n ts"
    have take: "take n ts = us @ [t]"
      using n(1,2) unfolding us_def t_def by (metis Suc_diff_1 Suc_le_lessD take_Suc_conv_app_nth)
    then have ts: "ts = us @ [t] @ vs" unfolding vs_def by (metis append.assoc append_take_drop_id)
    have len: "length us = n - 1" using n(2) by (simp add: us_def)
    obtain s0 l0 w0 where r0: "run_turns os call killAfter us (start_run f, l, w) = (s0, l0, w0)" by (metis prod.exhaust)
    obtain s1 l1 w1 where r1: "worker_turn os call killAfter t (s0, l0, w0) = (s1, l1, w1)" by (metis prod.exhaust)
    have r1': "run_turns os call killAfter (take n ts) (start_run f, l, w) = (s1, l1, w1)"
      by (simp add: take run_turns_snoc r0 r1)
    have r2: "run_turns os call killAfter vs (s1, l1, w1) = (s', l', w')"
      using assms(3) by (simp add: ts run_turns_append r0 r1)
    have c0: "completed s0 = of_nat (n - 1)" and c1: "completed s1 = killAfter"
      using run_counts [OF r0] run_counts [OF r1'] n(2,3) by (simp_all add: start_run_def len)
    have "j \<noteq> n" if "j \<in> {1..length us}" for j using that len n(1) by auto
    then have "\<forall>j \<in> {1..length us}. \<not> (0 <s killAfter \<and> completed (start_run f) + of_nat j = killAfter)"
      using of_nat_eq_64 assms(1) n(2) len by (auto simp: n(3) start_run_def)
    from run_injector_idle [OF r0 this] have i0: "injector s0 = f" by (simp add: start_run_def)
    have "completed s0 + 1 = killAfter" using n(1) by (simp add: c0 n(3) of_nat_diff)
    moreover have "0 <s killAfter" using True by (simp add: int64_simps)
    ultimately have fire: "killTriggered s1" and
      "\<exists>w2. Trigger os l1 (injector s0) w2 = (Result (injector s1), injector s1, w1)"
      using worker_turn_injector [OF r1] by auto
    then obtain w2 where "Trigger os l1 f w2 = (Result (injector s1), injector s1, w1)" by (auto simp: i0)
    then have body: "trigger_body os l1 f w2 = (Result (injector s1), w1)"
      using assms(2) by (auto simp: Trigger_def Result_def split: prod.splits)
    have "of_nat n + of_nat j \<noteq> (of_nat n :: int64)" if "j \<in> {1..length vs}" for j
    proof -
      have "j < 2 ^ 64" "j \<noteq> 0" using that assms(1) by (auto simp: vs_def)
      then have "(of_nat j :: int64) \<noteq> 0" using of_nat_eq_64 [of j 0] by simp
      then show ?thesis by simp
    qed
    then have "\<forall>j \<in> {1..length vs}. \<not> (0 <s killAfter \<and> completed s1 + of_nat j = killAfter)"
      by (simp add: c1 n(3))
    from run_injector_idle [OF r2 this] have "killTriggered s'" "injector s' = injector s1" using fire by auto
    then show ?thesis using True r1' c1 body by (auto simp: n_def)
  next
    case False
    have "\<not> (0 <s killAfter \<and> completed (start_run f) + of_nat j = killAfter)" if "j \<in> {1..length ts}" for j
    proof
      assume "0 <s killAfter \<and> completed (start_run f) + of_nat j = killAfter"
      then have pos: "0 < sint killAfter" and "killAfter = of_nat j" by (simp_all add: int64_simps start_run_def)
      then have "(of_nat (nat (sint killAfter)) :: int64) = of_nat j" using k by simp
      moreover have "nat (sint killAfter) < 2 ^ 64" using sint64_lt [of killAfter] by (simp add: nat_less_iff pos)
      ultimately have "nat (sint killAfter) = j" using of_nat_eq_64 that assms(1) by auto
      then show False using False pos that by auto
    qed
    then show ?thesis
      using run_injector_idle [OF assms(3)] False by (auto simp: start_run_def)
  qed
qed

text \<open>A machine whose clock stands still and on which every port belongs to process 7.\<close>

definition still_os :: "signal list os" where
  "still_os = \<lparr>Now = (\<lambda>w. 1), Lsof = (\<lambda>port w. Inr (''7'' @ [CHR 0x0A])), FindProcess = (\<lambda>pid w. Inr pid),
     Signal = (\<lambda>pid sig w. (None, w @ [sig]))\<rparr>"

definition sample_injector :: faultInjector where
  "sample_injector = \<lparr>fi_peers = [''a:1'', ''b:2''], fi_target = ''leader'', fi_explicitAddr = [],
     fi_signalName = ''TERM'', fi_signalValue = SIGTERM, fi_once = False,
     fi_result = \<lparr>TriggeredAtNS = 0, Address = [], PID = 0, Err = None\<rparr>\<rparr>"

definition sample_client :: LeaderInterceptor where
  "sample_client = \<lparr>li_currConn = Some (ClientConn ''a:1''), li_leaderAddr = ''a:1'', li_peers = [''a:1'', ''b:2''],
     li_peerIdx = 0\<rparr>"

lemma fault_injected_once_witness:
  "\<exists>s' l' w'. run_turns still_os (\<lambda>l w. (None, 1, l, w)) 2 [(1, 1), (2, 1), (1, 2)]
      (start_run sample_injector, sample_client, []) = (s', l', w') \<and> killTriggered s' \<and> completed s' = 3"
proof -
  let ?run = "run_turns still_os (\<lambda>l w. (None, 1, l, w)) 2 [(1, 1), (2, 1), (1, 2)]
      (start_run sample_injector, sample_client, [])"
  obtain s' l' w' where run: "?run = (s', l', w')" by (rule prod_cases3 [of ?run])
  have "completed s' = 3" using run_counts [OF run] by (simp add: start_run_def)
  moreover have "0 < sint (2 :: int64) \<and> sint (2 :: int64) \<le> int (length [(1 :: int64, 1 :: int64), (2, 1), (1, 2)])"
    by simp
  then have "killTriggered s'"
    using fault_injected_once [OF _ _ run] by (simp add: sample_injector_def)
  ultimately show ?thesis using run by auto
qed

end
