(* ===== verification/Csv_Text.thy ===== *)
theory Csv_Text
  imports Go_Text
begin

text \<open>
  \<open>encoding/csv\<close> as the load generator and the analysis use it: \<open>(*csv.Writer).Write\<close> with its
  defaults, which quotes a field where it has to, and \<open>(*csv.Reader).ReadAll\<close> with its defaults,
  which reads line by line, skips empty lines, takes quoted fields across lines, refuses stray
  quotes and wants the same number of fields in every record.  What is read is what was written,
  but for one normalisation the reader makes: a carriage return before a line feed is dropped, also
  within quotes.
\<close>

section \<open>Writing\<close>

abbreviation QUOTE :: char where "QUOTE \<equiv> CHR 0x22"
abbreviation COMMA :: char where "COMMA \<equiv> CHR 0x2C"
abbreviation LF :: char where "LF \<equiv> CHR 0x0A"
abbreviation CR :: char where "CR \<equiv> CHR 0x0D"

definition fieldNeedsQuotes :: "string \<Rightarrow> bool" where
  "fieldNeedsQuotes field \<longleftrightarrow>
     (if field = [] then False
      else if field = [CHR 0x5C, CHR ''.''] then True
      else list_ex (\<lambda>c. c = LF \<or> c = CR \<or> c = QUOTE \<or> c = COMMA) field \<or> leading go_spaces field \<noteq> 0)"

fun quoted :: "string \<Rightarrow> string" where
  "quoted [] = []"
| "quoted (c # cs) = (if c = QUOTE then QUOTE # QUOTE # quoted cs else c # quoted cs)"

definition csv_field :: "string \<Rightarrow> string" where
  "csv_field field = (if fieldNeedsQuotes field then QUOTE # quoted field @ [QUOTE] else field)"

fun csv_line :: "string list \<Rightarrow> string" where
  "csv_line [] = [LF]"
| "csv_line [field] = csv_field field @ [LF]"
| "csv_line (field # fields) = csv_field field @ COMMA # csv_line fields"

definition csv_text :: "string list list \<Rightarrow> string" where
  "csv_text records = concat (map csv_line records)"

section \<open>Reading\<close>

datatype csv_error = ErrBareQuote | ErrQuote | ErrFieldCount

text \<open>\<open>readLine\<close>: up to a line feed and with it; a carriage return before it, or at the end of the file, goes.\<close>

fun raw_line :: "string \<Rightarrow> string \<times> string" where
  "raw_line [] = ([], [])"
| "raw_line (c # cs) = (if c = LF then ([c], cs) else (case raw_line cs of (l, rest) \<Rightarrow> (c # l, rest)))"

fun norm_line :: "string \<Rightarrow> string" where
  "norm_line [] = []"
| "norm_line [c] = (if c = CR then [] else [c])"
| "norm_line (c # d # cs) = (if c = CR \<and> d = LF \<and> cs = [] then [LF] else c # norm_line (d # cs))"

definition readLine :: "string \<Rightarrow> (string \<times> string) option" where
  "readLine s = (if s = [] then None else (case raw_line s of (l, rest) \<Rightarrow> Some (norm_line l, rest)))"

lemma raw_line_length: "raw_line s = (l, rest) \<Longrightarrow> length l + length rest = length s"
  by (induction s arbitrary: l rest) (auto split: if_splits prod.splits)

lemma raw_line_progress: "raw_line s = (l, rest) \<Longrightarrow> s \<noteq> [] \<Longrightarrow> length rest < length s"
  by (cases s) (auto dest: raw_line_length split: if_splits prod.splits)

lemma norm_line_length: "length (norm_line l) \<le> length l"
  by (induction l rule: norm_line.induct) auto

lemma readLine_length: "readLine s = Some (l, rest) \<Longrightarrow> length l + length rest \<le> length s \<and> length rest < length s"
proof -
  assume "readLine s = Some (l, rest)"
  then obtain l0 where r: "raw_line s = (l0, rest)" "l = norm_line l0" "s \<noteq> []"
    by (auto simp: readLine_def split: if_splits prod.splits)
  show ?thesis using raw_line_length [OF r(1)] raw_line_progress [OF r(1,3)] norm_line_length [of l0] r(2) by simp
qed

text \<open>
  The fields of a record, from the rest of the current line and the lines after it.  The first
  argument is what a quoted field has so far, or \<open>None\<close> at the start of a field.
\<close>

function csv_fields :: "string option \<Rightarrow> string \<Rightarrow> string \<Rightarrow> csv_error + string list \<times> string" where
  "csv_fields None line rest =
     (if line \<noteq> [] \<and> hd line = QUOTE then csv_fields (Some []) (tl line) rest
      else
        let field = takeWhile (\<lambda>c. c \<noteq> COMMA) line in
        if COMMA \<in> set line then
          (if QUOTE \<in> set field then Inl ErrBareQuote
           else (case csv_fields None (drop (Suc (length field)) line) rest of
                   Inl e \<Rightarrow> Inl e | Inr (fs, rest') \<Rightarrow> Inr (field # fs, rest')))
        else
          let field = (if line \<noteq> [] \<and> last line = LF then butlast line else line) in
          if QUOTE \<in> set field then Inl ErrBareQuote else Inr ([field], rest))"
| "csv_fields (Some acc) line rest =
     (case dropWhile (\<lambda>c. c \<noteq> QUOTE) line of
        q # after \<Rightarrow>
          let acc' = acc @ takeWhile (\<lambda>c. c \<noteq> QUOTE) line in
          (case after of
             [] \<Rightarrow> Inr ([acc'], rest)
           | c # after' \<Rightarrow>
               if c = QUOTE then csv_fields (Some (acc' @ [QUOTE])) after' rest
               else if c = COMMA then
                 (case csv_fields None after' rest of Inl e \<Rightarrow> Inl e | Inr (fs, rest') \<Rightarrow> Inr (acc' # fs, rest'))
               else if after = [LF] then Inr ([acc'], rest)
               else Inl ErrQuote)
      | [] \<Rightarrow>
          if line = [] then Inl ErrQuote
          else (case readLine rest of
                  None \<Rightarrow> Inl ErrQuote
                | Some (line', rest') \<Rightarrow> csv_fields (Some (acc @ line)) line' rest'))"
  by pat_completeness auto
termination
proof (relation "measure (\<lambda>(m, line, rest). length line + length rest)", goal_cases)
  case 1
  then show ?case by simp
next
  case (2 line rest)
  then show ?case by (cases line) auto
next
  case (3 line rest)
  then show ?case by (cases line) auto
next
  case (4 acc line rest x l r)
  have "length r < length rest" using readLine_length 4(3,4) by metis
  moreover have "length l + length r \<le> length rest" using readLine_length 4(3,4) by metis
  ultimately show ?case using 4(2) by (cases line) simp_all
next
  case (5 acc line rest q after x c after')
  have "length (dropWhile (\<lambda>c. c \<noteq> QUOTE) line) \<le> length line" by (rule length_dropWhile_le)
  then show ?case unfolding 5 by simp
next
  case (6 acc line rest q after x c after')
  have "length (dropWhile (\<lambda>c. c \<noteq> QUOTE) line) \<le> length line" by (rule length_dropWhile_le)
  then show ?case unfolding 6(1,3) by simp
qed

declare csv_fields.simps [simp del]

text \<open>A quoted field, by what comes next on the line: nothing to the end of it, or a quote and then what.\<close>

lemma csv_fields_quoted:
  "dropWhile (\<lambda>c. c \<noteq> QUOTE) line = [] \<Longrightarrow> csv_fields (Some acc) line rest =
     (if line = [] then Inl ErrQuote
      else (case readLine rest of None \<Rightarrow> Inl ErrQuote | Some (line', rest') \<Rightarrow> csv_fields (Some (acc @ line)) line' rest'))"
  "dropWhile (\<lambda>c. c \<noteq> QUOTE) line = [q] \<Longrightarrow>
     csv_fields (Some acc) line rest = Inr ([acc @ takeWhile (\<lambda>c. c \<noteq> QUOTE) line], rest)"
  "dropWhile (\<lambda>c. c \<noteq> QUOTE) line = q # c # after \<Longrightarrow> csv_fields (Some acc) line rest =
     (let acc' = acc @ takeWhile (\<lambda>c. c \<noteq> QUOTE) line in
      if c = QUOTE then csv_fields (Some (acc' @ [QUOTE])) after rest
      else if c = COMMA then
        (case csv_fields None after rest of Inl e \<Rightarrow> Inl e | Inr (fs, rest') \<Rightarrow> Inr (acc' # fs, rest'))
      else if c # after = [LF] then Inr ([acc'], rest)
      else Inl ErrQuote)"
  by (subst csv_fields.simps(2), simp only: list.case Let_def)+

lemma csv_fields_rest: "csv_fields m line rest = Inr (fs, rest') \<Longrightarrow> length rest' \<le> length rest"
proof (induction m line rest arbitrary: fs rest' rule: csv_fields.induct)
  case (1 line rest)
  from "1.prems" [unfolded csv_fields.simps(1) [of line rest]] "1.IH" show ?case
    by (auto simp: Let_def split: if_splits sum.splits)
next
  case (2 acc line rest)
  let ?d = "dropWhile (\<lambda>c. c \<noteq> QUOTE) line"
  consider "?d = []" | q where "?d = [q]" | q c after where "?d = q # c # after" by (metis list.exhaust)
  then show ?case
  proof cases
    case 1
    then obtain line' r where n: "readLine rest = Some (line', r)" "line \<noteq> []" and
      f: "csv_fields (Some (acc @ line)) line' r = Inr (fs, rest')"
      using "2.prems" by (auto simp: csv_fields_quoted(1) [OF 1] split: if_splits option.splits)
    have "length rest' \<le> length r" using "2.IH"(1) [OF 1 n(2,1) refl f] .
    then show ?thesis using readLine_length [OF n(1)] by simp
  next
    case 2
    then show ?thesis using "2.prems" by (simp add: csv_fields_quoted(2) [OF 2])
  next
    case (3 q c after)
    show ?thesis
      using "2.prems" "2.IH"(2) [OF 3 refl refl] "2.IH"(3) [OF 3 refl refl]
      by (auto simp: csv_fields_quoted(3) [OF 3] Let_def split: if_splits sum.splits)
  qed
qed

text \<open>\<open>ReadAll\<close>; the first record sets the number of fields.\<close>

function csv_records :: "nat option \<Rightarrow> string \<Rightarrow> csv_error + string list list" where
  "csv_records n s =
     (case readLine s of
        None \<Rightarrow> Inr []
      | Some (line, rest) \<Rightarrow>
          if line = [] \<or> line = [LF] then csv_records n rest
          else
            (case csv_fields None line rest of
               Inl e \<Rightarrow> Inl e
             | Inr (fs, rest') \<Rightarrow>
                 if (case n of None \<Rightarrow> False | Some k \<Rightarrow> length fs \<noteq> k) then Inl ErrFieldCount
                 else (case csv_records (Some (length fs)) rest' of Inl e \<Rightarrow> Inl e | Inr rs \<Rightarrow> Inr (fs # rs))))"
  by pat_completeness auto
termination
proof (relation "measure (\<lambda>(n, s). length s)")
  fix n :: "nat option" and s p line rest z fs rest'
  assume a: "readLine s = Some p" "(line, rest) = p" "csv_fields None line rest = Inr z" "(fs, rest') = z"
  then have "length rest < length s" "length rest' \<le> length rest"
    using readLine_length csv_fields_rest by (metis, metis)
  then show "((Some (length fs), rest'), n, s) \<in> measure (\<lambda>(n, s). length s)" by simp
qed (use readLine_length in auto)

declare csv_records.simps [simp del]

definition ReadAll :: "string \<Rightarrow> csv_error + string list list" where
  "ReadAll s = csv_records None s"

section \<open>Reading what was written\<close>

text \<open>What the reader makes of a text: every line feed loses a carriage return before it.\<close>

fun crlf :: "string \<Rightarrow> string" where
  "crlf [] = []"
| "crlf [c] = [c]"
| "crlf (c # d # cs) = (if c = CR \<and> d = LF then LF # crlf cs else c # crlf (d # cs))"

lemma crlf_id: "CR \<notin> set s \<Longrightarrow> crlf s = s"
  by (induction s rule: crlf.induct) auto

text \<open>The current line and what follows it.\<close>

definition this_line :: "string \<Rightarrow> string" where
  "this_line s = norm_line (fst (raw_line s))"

definition later :: "string \<Rightarrow> string" where
  "later s = snd (raw_line s)"

lemma readLine_nonempty: "s \<noteq> [] \<Longrightarrow> readLine s = Some (this_line s, later s)"
  by (simp add: readLine_def this_line_def later_def split: prod.split)

lemma line_LF [simp]: "this_line (LF # s) = [LF]" "later (LF # s) = s"
  by (simp_all add: this_line_def later_def)

lemma line_CRLF: "this_line (CR # LF # s) = [LF]" "later (CR # LF # s) = s"
  by (simp_all add: this_line_def later_def)

lemma later_Cons: "c \<noteq> LF \<Longrightarrow> later (c # s) = later s"
  by (simp add: later_def split: prod.split)

lemma line_Cons:
  assumes "c \<noteq> LF" and "c \<noteq> CR"
  shows "this_line (c # s) = c # this_line s"
proof -
  obtain l r where l: "raw_line s = (l, r)" by (cases "raw_line s")
  show ?thesis using assms by (cases l) (simp_all add: this_line_def l)
qed

lemma line_CR:
  assumes "d \<noteq> LF"
  shows "this_line (CR # d # s) = CR # this_line (d # s)"
  using assms by (simp add: this_line_def split: prod.split)

lemma norm_line_Nil: "norm_line l = [] \<Longrightarrow> l = [] \<or> l = [CR]"
  by (cases l rule: norm_line.cases) (auto split: if_splits)

lemma this_line_nonempty: "c # s \<noteq> [CR] \<Longrightarrow> this_line (c # s) \<noteq> []"
proof
  assume a: "c # s \<noteq> [CR]" "this_line (c # s) = []"
  from norm_line_Nil [OF a(2) [unfolded this_line_def]] have "fst (raw_line (c # s)) = [CR]"
    by (auto split: prod.splits if_splits)
  then have "c = CR" "fst (raw_line s) = []" by (auto split: prod.splits if_splits)
  then show False using a(1) by (cases s) (auto split: prod.splits if_splits)
qed

text \<open>Within quotes: the reader takes up the text of the field, line feeds and doubled quotes included.\<close>

lemma quoted_step:
  assumes "c \<noteq> QUOTE" and "line \<noteq> []"
  shows "csv_fields (Some acc) (c # line) rest = csv_fields (Some (acc @ [c])) line rest"
proof -
  let ?d = "dropWhile (\<lambda>c. c \<noteq> QUOTE) line"
  have d: "dropWhile (\<lambda>c. c \<noteq> QUOTE) (c # line) = ?d" using assms(1) by simp
  consider "?d = []" | q where "?d = [q]" | q x after where "?d = q # x # after" by (metis list.exhaust)
  then show ?thesis
  proof cases
    case 1
    then show ?thesis using assms csv_fields_quoted(1) [OF 1] csv_fields_quoted(1) [OF d [unfolded 1]]
      by (simp split: option.split)
  next
    case 2
    then show ?thesis using assms csv_fields_quoted(2) [OF 2] csv_fields_quoted(2) [OF d [unfolded 2]] by simp
  next
    case 3
    then show ?thesis using assms csv_fields_quoted(3) [OF 3] csv_fields_quoted(3) [OF d [unfolded 3]]
      by (simp add: Let_def split: sum.split prod.split)
  qed
qed

lemma quoted_newline: "s \<noteq> [] \<Longrightarrow> csv_fields (Some acc) [LF] s = csv_fields (Some (acc @ [LF])) (this_line s) (later s)"
  using csv_fields_quoted(1) [of "[LF]" acc s] by (simp add: readLine_nonempty)

lemma quoted_quote: "csv_fields (Some acc) (QUOTE # QUOTE # line) rest = csv_fields (Some (acc @ [QUOTE])) line rest"
  using csv_fields_quoted(3) [of "QUOTE # QUOTE # line" QUOTE QUOTE line acc rest] by simp

lemma quoted_field:
  "csv_fields (Some acc) (this_line (quoted f @ QUOTE # s)) (later (quoted f @ QUOTE # s)) =
     csv_fields (Some (acc @ crlf f)) (QUOTE # this_line s) (later s)"
proof (induction f arbitrary: acc rule: crlf.induct)
  case 1
  show ?case by (simp add: line_Cons later_Cons)
next
  case (2 c)
  consider "c = QUOTE" | "c = LF" | "c = CR" | "c \<noteq> QUOTE" "c \<noteq> LF" "c \<noteq> CR" by blast
  then show ?case
  proof cases
    case 1
    then show ?thesis by (simp add: line_Cons later_Cons quoted_quote)
  next
    case 2
    then show ?thesis by (simp add: quoted_newline line_Cons later_Cons)
  next
    case 3
    then show ?thesis by (simp add: line_CR line_Cons later_Cons quoted_step)
  next
    case 4
    then show ?thesis by (simp add: line_Cons later_Cons quoted_step)
  qed
next
  case (3 c d cs)
  let ?s = "quoted (d # cs) @ QUOTE # s"
  obtain x u where s: "?s = x # u" "u \<noteq> []" by (cases "d = QUOTE") simp_all
  then have line: "this_line ?s \<noteq> []" using this_line_nonempty [of x u] by simp
  show ?case
  proof (cases "c = CR \<and> d = LF")
    case True
    obtain y v where r: "quoted cs @ QUOTE # s = y # v" by (cases "quoted cs @ QUOTE # s") simp_all
    have "csv_fields (Some acc) (this_line (quoted (c # d # cs) @ QUOTE # s)) (later (quoted (c # d # cs) @ QUOTE # s))
        = csv_fields (Some acc) [LF] (quoted cs @ QUOTE # s)"
      using True by (simp add: line_CRLF)
    also have "\<dots> = csv_fields (Some (acc @ [LF])) (this_line (quoted cs @ QUOTE # s)) (later (quoted cs @ QUOTE # s))"
      by (rule quoted_newline) simp
    finally show ?thesis using "3.IH"(1) [OF True, of "acc @ [LF]"] True by simp
  next
    case False
    note IH = "3.IH"(2) [OF False]
    consider "c = QUOTE" | "c = LF" | "c = CR" | "c \<noteq> QUOTE" "c \<noteq> LF" "c \<noteq> CR" by blast
    then have "csv_fields (Some acc) (this_line (quoted (c # d # cs) @ QUOTE # s)) (later (quoted (c # d # cs) @ QUOTE # s))
        = csv_fields (Some (acc @ [c])) (this_line ?s) (later ?s)"
    proof cases
      case 1
      then show ?thesis by (simp add: line_Cons later_Cons quoted_quote)
    next
      case 2
      then show ?thesis using quoted_newline [of ?s acc] s(1) by simp
    next
      case 3
      have x: "x \<noteq> LF" using s(1) False 3 by (auto split: if_splits)
      have "this_line (CR # ?s) = CR # this_line ?s" unfolding s(1) using x by (rule line_CR)
      then show ?thesis using 3 quoted_step [of CR "this_line ?s" acc] line by (simp add: later_Cons)
    next
      case 4
      then show ?thesis using line quoted_step [of c "this_line ?s" acc] by (simp add: line_Cons later_Cons)
    qed
    moreover have "acc @ crlf (c # d # cs) = (acc @ [c]) @ crlf (d # cs)" using False by auto
    ultimately show ?thesis using IH [of "acc @ [c]"] by simp
  qed
qed

text \<open>A field, quoted or not, with what follows it.\<close>

lemma plain_field:
  assumes "\<not> fieldNeedsQuotes f"
  shows "LF \<notin> set f \<and> CR \<notin> set f \<and> QUOTE \<notin> set f \<and> COMMA \<notin> set f"
  using assms by (cases f) (auto simp: fieldNeedsQuotes_def list_ex_iff split: if_splits)

lemma plain_line: "LF \<notin> set f \<and> CR \<notin> set f \<Longrightarrow> this_line (f @ s) = f @ this_line s \<and> later (f @ s) = later s"
  by (induction f) (auto simp: line_Cons later_Cons)

lemma quoted_start: "csv_fields None (QUOTE # line) rest = csv_fields (Some []) line rest"
  by (subst csv_fields.simps(1)) simp

lemma field_comma:
  "csv_fields None (this_line (csv_field f @ COMMA # s)) (later (csv_field f @ COMMA # s)) =
     (case csv_fields None (this_line s) (later s) of Inl e \<Rightarrow> Inl e | Inr (fs, rest) \<Rightarrow> Inr (crlf f # fs, rest))"
proof (cases "fieldNeedsQuotes f")
  case True
  have "csv_fields (Some (crlf f)) (QUOTE # COMMA # this_line s) (later s) =
      (case csv_fields None (this_line s) (later s) of Inl e \<Rightarrow> Inl e | Inr (fs, rest) \<Rightarrow> Inr (crlf f # fs, rest))"
    using csv_fields_quoted(3) [of "QUOTE # COMMA # this_line s" QUOTE COMMA "this_line s" "crlf f" "later s"] by simp
  then show ?thesis
    using quoted_field [of "[]" f "COMMA # s"] True
    by (simp add: csv_field_def line_Cons later_Cons quoted_start)
next
  case False
  note f = plain_field [OF False]
  have "takeWhile (\<lambda>c. c \<noteq> COMMA) (f @ COMMA # this_line s) = f" using f by (subst takeWhile_append2) auto
  moreover have "f @ COMMA # this_line s \<noteq> [] \<and> hd (f @ COMMA # this_line s) \<noteq> QUOTE" using f by (cases f) auto
  ultimately have "csv_fields None (f @ COMMA # this_line s) (later s) =
      (case csv_fields None (this_line s) (later s) of Inl e \<Rightarrow> Inl e | Inr (fs, rest) \<Rightarrow> Inr (f # fs, rest))"
    using f by (subst csv_fields.simps(1)) (simp add: Let_def)
  moreover have id: "crlf f = f" using f by (simp add: crlf_id)
  ultimately show ?thesis
    unfolding id using False f plain_line [of f "COMMA # s"] by (simp add: csv_field_def line_Cons later_Cons)
qed

lemma field_end:
  "csv_fields None (this_line (csv_field f @ LF # s)) (later (csv_field f @ LF # s)) = Inr ([crlf f], s)"
proof (cases "fieldNeedsQuotes f")
  case True
  have "csv_fields (Some (crlf f)) [QUOTE, LF] s = Inr ([crlf f], s)"
    using csv_fields_quoted(3) [of "[QUOTE, LF]" QUOTE LF "[]" "crlf f" s] by simp
  then show ?thesis
    using quoted_field [of "[]" f "LF # s"] True by (simp add: csv_field_def line_Cons later_Cons quoted_start)
next
  case False
  note f = plain_field [OF False]
  have "hd (f @ [LF]) \<noteq> QUOTE" using f by (cases f) auto
  then have "csv_fields None (f @ [LF]) s = Inr ([f], s)"
    using f by (subst csv_fields.simps(1)) (simp add: Let_def)
  then show ?thesis using False f crlf_id [of f] plain_line [of f "LF # s"] by (simp add: csv_field_def)
qed

lemma record_read:
  "fields \<noteq> [] \<Longrightarrow> csv_fields None (this_line (csv_line fields @ s)) (later (csv_line fields @ s)) = Inr (map crlf fields, s)"
  by (induction fields rule: csv_line.induct) (simp_all add: field_end field_comma)

text \<open>The reader gets back every field of every record the writer wrote.\<close>

lemma field_start: "\<exists>c t. csv_field f @ d # s = c # t \<and> c \<noteq> CR \<and> (c = LF \<longrightarrow> d = LF)" if "d \<noteq> CR"
proof (cases "fieldNeedsQuotes f \<or> f = []")
  case False
  then show ?thesis using plain_field [of f] by (cases f) (auto simp: csv_field_def)
qed (use that in \<open>auto simp: csv_field_def fieldNeedsQuotes_def\<close>)

lemma csv_records_line:
  assumes "2 \<le> length fields" and "\<forall>k. n = Some k \<longrightarrow> length fields = k"
  shows "csv_records n (csv_line fields @ s) =
    (case csv_records (Some (length fields)) s of Inl e \<Rightarrow> Inl e | Inr rs \<Rightarrow> Inr (map crlf fields # rs))"
proof -
  obtain f g fs where fields: "fields = f # g # fs" using assms(1) by (cases fields; cases "tl fields") auto
  obtain c t where c: "csv_line fields @ s = c # t" "c \<noteq> CR" "c \<noteq> LF"
    using field_start [of COMMA f "csv_line (g # fs) @ s"] by (auto simp: fields)
  have "this_line (csv_line fields @ s) = c # this_line t" unfolding c(1) using c(2,3) by (simp add: line_Cons)
  then have "this_line (csv_line fields @ s) \<noteq> [] \<and> this_line (csv_line fields @ s) \<noteq> [LF]" using c(3) by simp
  then show ?thesis
    using assms(2) record_read [of fields s] fields readLine_nonempty [of "csv_line fields @ s"] c(1)
    by (subst csv_records.simps) (auto split: option.splits sum.splits)
qed

lemma csv_records_text:
  "2 \<le> k \<Longrightarrow> \<forall>r \<in> set rs. length r = k \<Longrightarrow> \<forall>m. n = Some m \<longrightarrow> m = k \<Longrightarrow>
     csv_records n (csv_text rs) = Inr (map (map crlf) rs)"
proof (induction rs arbitrary: n)
  case Nil
  show ?case by (subst csv_records.simps) (simp add: csv_text_def readLine_def)
next
  case (Cons r rs)
  have "csv_records (Some k) (csv_text rs) = Inr (map (map crlf) rs)" using Cons by simp
  then show ?case using Cons.prems csv_records_line [of r n "csv_text rs"] by (auto simp: csv_text_def)
qed

lemma ReadAll_csv_text:
  "2 \<le> k \<Longrightarrow> \<forall>r \<in> set rs. length r = k \<Longrightarrow> ReadAll (csv_text rs) = Inr (map (map crlf) rs)"
  using csv_records_text [of k rs None] by (simp add: ReadAll_def)

end
