(* ===== verification/Analysis.thy ===== *)
theory Analysis
  imports Load_Generator Csv_Text
begin

text \<open>
  \<open>scripts/analyze.go\<close>: how the samples of a run are read back from the CSV rows the load generator
  wrote, how the failover time is found in them, and the names of the files the two share.  The
  text of the file goes through \<open>(*csv.Reader).ReadAll\<close>.  Floating point numbers are a parameter type with
  \<open>strconv.ParseFloat\<close>, and \<open>sort.Slice\<close>, which need not be stable, is a parameter that the
  properties know to sort.
\<close>

section \<open>Reading samples\<close>

record 'f sample =
  sm_StartNS :: int64
  sm_EndNS :: int64
  sm_LatencyMS :: 'f
  sm_Status :: string
  sm_AttemptCount :: int64

text \<open>\<open>row[i]\<close>, and \<open>index[field]\<close>, which is 0 for a missing field.\<close>

definition cell :: "string list \<Rightarrow> nat \<Rightarrow> panic + string" where
  "cell row i = (if i < length row then Inr (row ! i) else Inl IndexOutOfRange)"

definition header_index :: "string list \<Rightarrow> (string, nat) gomap" where
  "header_index header = fold (\<lambda>(i, field). AList.update field i) (enumerate 0 header) []"

definition column :: "(string, nat) gomap \<Rightarrow> string \<Rightarrow> nat" where
  "column index field = (case map_of index field of Some i \<Rightarrow> i | None \<Rightarrow> 0)"

definition ParseInt_go :: "string \<Rightarrow> go_error + int64" where
  "ParseInt_go s =
     (case ParseInt s of
        Inr i \<Rightarrow> Inr i
      | Inl e \<Rightarrow> Inl (OtherError (''strconv.ParseInt: parsing '' @ Quote s @ '': '' @
          (case e of ErrSyntax \<Rightarrow> ''invalid syntax'' | ErrRange \<Rightarrow> ''value out of range''))))"

text \<open>One row: a panic, an error, or a sample; and the loop over the rows.\<close>

definition parse_row ::
  "(string \<Rightarrow> go_error + 'f) \<Rightarrow> (string, nat) gomap \<Rightarrow> string list \<Rightarrow> panic + go_error + 'f sample" where
  "parse_row ParseFloat index row =
     (case cell row (column index ''start_ns'') of Inl p \<Rightarrow> Inl p | Inr c1 \<Rightarrow>
      case ParseInt_go c1 of Inl e \<Rightarrow> Inr (Inl e) | Inr startNS \<Rightarrow>
      case cell row (column index ''end_ns'') of Inl p \<Rightarrow> Inl p | Inr c2 \<Rightarrow>
      case ParseInt_go c2 of Inl e \<Rightarrow> Inr (Inl e) | Inr endNS \<Rightarrow>
      case cell row (column index ''latency_ms'') of Inl p \<Rightarrow> Inl p | Inr c3 \<Rightarrow>
      case ParseFloat c3 of Inl e \<Rightarrow> Inr (Inl e) | Inr latencyMS \<Rightarrow>
      case cell row (column index ''attempt_count'') of Inl p \<Rightarrow> Inl p | Inr c4 \<Rightarrow>
      case ParseInt_go c4 of Inl e \<Rightarrow> Inr (Inl e) | Inr attemptCount \<Rightarrow>
      case cell row (column index ''status'') of Inl p \<Rightarrow> Inl p | Inr status \<Rightarrow>
        Inr (Inr \<lparr>sm_StartNS = startNS, sm_EndNS = endNS, sm_LatencyMS = latencyMS, sm_Status = status,
                 sm_AttemptCount = attemptCount\<rparr>))"

fun parse_rows ::
  "(string \<Rightarrow> go_error + 'f) \<Rightarrow> (string, nat) gomap \<Rightarrow> string list list \<Rightarrow> panic + go_error + 'f sample list" where
  "parse_rows ParseFloat index [] = Inr (Inr [])"
| "parse_rows ParseFloat index (row # rest) =
     (case parse_row ParseFloat index row of
        Inl p \<Rightarrow> Inl p
      | Inr (Inl e) \<Rightarrow> Inr (Inl e)
      | Inr (Inr s) \<Rightarrow>
          (case parse_rows ParseFloat index rest of
             Inl p \<Rightarrow> Inl p
           | Inr (Inl e) \<Rightarrow> Inr (Inl e)
           | Inr (Inr ss) \<Rightarrow> Inr (Inr (s # ss))))"

text \<open>The rest of \<open>readSamples\<close>, from what \<open>ReadAll\<close> returns: the header, the rows, the order.\<close>

definition parse_samples :: "(string \<Rightarrow> go_error + 'f) \<Rightarrow> ('f sample list \<Rightarrow> 'f sample list) \<Rightarrow>
    go_error + string list list \<Rightarrow> panic + go_error + 'f sample list" where
  "parse_samples ParseFloat sort_slice read =
     (case read of
        Inl err \<Rightarrow> Inr (Inl err)
      | Inr all \<Rightarrow>
          if length all < 2 then Inr (Inr [])
          else
            (case parse_rows ParseFloat (header_index (hd all)) (tl all) of
               Inl p \<Rightarrow> Inl p
             | Inr (Inl e) \<Rightarrow> Inr (Inl e)
             | Inr (Inr out) \<Rightarrow> Inr (Inr (sort_slice out))))"

text \<open>
  \<open>readSamples\<close> on a file that cannot be opened, or has a text.  How an error of the reader is worded,
  with the line and the column of the text, is a parameter.
\<close>

definition read_csv :: "(string \<Rightarrow> csv_error \<Rightarrow> go_error) \<Rightarrow> go_error + string \<Rightarrow> go_error + string list list" where
  "read_csv wording file =
     (case file of
        Inl err \<Rightarrow> Inl err
      | Inr text \<Rightarrow> (case ReadAll text of Inl e \<Rightarrow> Inl (wording text e) | Inr all \<Rightarrow> Inr all))"

definition readSamples :: "(string \<Rightarrow> csv_error \<Rightarrow> go_error) \<Rightarrow> (string \<Rightarrow> go_error + 'f) \<Rightarrow>
    ('f sample list \<Rightarrow> 'f sample list) \<Rightarrow> go_error + string \<Rightarrow> panic + go_error + 'f sample list" where
  "readSamples wording ParseFloat sort_slice file = parse_samples ParseFloat sort_slice (read_csv wording file)"

section \<open>Failover\<close>

fun firstSuccessfulCompletionAfter :: "'f sample list \<Rightarrow> int64 \<Rightarrow> int64" where
  "firstSuccessfulCompletionAfter [] killNS = 0"
| "firstSuccessfulCompletionAfter (s # ss) killNS =
     (if killNS \<le>s sm_EndNS s \<and> sm_Status s = ''OK'' then sm_EndNS s
      else firstSuccessfulCompletionAfter ss killNS)"

text \<open>The latencies and counts \<open>main\<close> reports, before it sorts the latencies.\<close>

definition tally :: "'f sample list \<Rightarrow> 'f list \<times> nat" where
  "tally samples = fold (\<lambda>s (lats, errs). if sm_Status s = ''OK'' then (lats @ [sm_LatencyMS s], errs)
     else (lats, errs + 1)) samples ([], 0)"

section \<open>File names\<close>

text \<open>\<open>filepath.Ext\<close> and \<open>strings.TrimSuffix\<close>, and the names derived from the CSV's.\<close>

definition Ext :: "string \<Rightarrow> string" where
  "Ext path =
     (let r = rev path; t = takeWhile (\<lambda>c. c \<noteq> CHR ''.'' \<and> c \<noteq> CHR ''/'') r in
      case drop (length t) r of
        c # _ \<Rightarrow> if c = CHR ''.'' then c # rev t else []
      | [] \<Rightarrow> [])"

definition TrimSuffix :: "string \<Rightarrow> string \<Rightarrow> string" where
  "TrimSuffix s suffix =
     (if length suffix \<le> length s \<and> drop (length s - length suffix) s = suffix
      then take (length s - length suffix) s else s)"

definition loadgen_meta_path :: "string \<Rightarrow> string" where
  "loadgen_meta_path out = TrimSuffix out (Ext out) @ ''.meta.json''"

definition default_paths :: "string \<Rightarrow> string \<Rightarrow> string \<Rightarrow> string \<Rightarrow> string \<times> string \<times> string" where
  "default_paths input metaPath cdfOut timelineOut =
     (let base = TrimSuffix input (Ext input) in
      (if metaPath = [] then base @ ''.meta.json'' else metaPath,
       if cdfOut = [] then base @ ''.cdf.svg'' else cdfOut,
       if timelineOut = [] then base @ ''.timeline.svg'' else timelineOut))"

section \<open>From the generator to the analysis\<close>

text \<open>A row as it comes back from the file: its texts lose the carriage returns before line feeds.\<close>

definition as_read :: "resultRow \<Rightarrow> resultRow" where
  "as_read r = r\<lparr>Status := crlf (Status r), LeaderBefore := crlf (LeaderBefore r), LeaderAfter := crlf (LeaderAfter r),
     ErrorText := crlf (ErrorText r)\<rparr>"

lemma as_read_fields [simp]:
  "StartNS (as_read r) = StartNS r" "EndNS (as_read r) = EndNS r" "AttemptCount (as_read r) = AttemptCount r"
  by (simp_all add: as_read_def)

lemma crlf_keeps: "LF \<in> set s \<Longrightarrow> LF \<in> set (crlf s)"
  by (induction s rule: crlf.induct) auto

lemma crlf_eq: "LF \<notin> set t \<Longrightarrow> crlf s = t \<longleftrightarrow> s = t"
proof -
  have "LF \<notin> set s \<Longrightarrow> crlf s = s" by (induction s rule: crlf.induct) auto
  then show "LF \<notin> set t \<Longrightarrow> crlf s = t \<longleftrightarrow> s = t" using crlf_keeps [of s] by metis
qed

lemma as_read_OK [simp]: "Status (as_read r) = ''OK'' \<longleftrightarrow> Status r = ''OK''"
  by (simp add: as_read_def crlf_eq)

lemma dec_digits_no_CR: "CR \<notin> set (dec_digits n)"
proof
  assume "CR \<in> set (dec_digits n)"
  then obtain d where "d < 10" "CR = digit_char d" using dec_digits_chars by blast
  then have "digit_val CR = Some d" by (simp add: digit_val_char)
  then show False by (simp add: digit_val_def of_char_def)
qed

lemma crlf_FormatInt [simp]: "crlf (FormatInt i) = FormatInt i"
  by (rule crlf_id) (simp add: FormatInt_def Let_def dec_digits_no_CR)

lemma csv_record_read: "(\<And>d. CR \<notin> set (lat d)) \<Longrightarrow> map crlf (csv_record lat r) = csv_record lat (as_read r)"
  by (simp add: csv_record_def crlf_id) (simp add: as_read_def)

lemma read_csv_written:
  assumes "\<And>d. CR \<notin> set (lat d)"
  shows "read_csv wording (Inr (csv_text (csv_header # map (csv_record lat) rs))) = Inr (csv_header # map (csv_record lat) (map as_read rs))"
proof -
  have "\<forall>r \<in> set (csv_header # map (csv_record lat) rs). length r = 11" by (auto simp: csv_header_def csv_record_def)
  from ReadAll_csv_text [OF _ this]
  have "ReadAll (csv_text (csv_header # map (csv_record lat) rs)) = Inr (map crlf csv_header # map (map crlf) (map (csv_record lat) rs))"
    by simp
  moreover have "map crlf csv_header = csv_header" by code_simp
  moreover have "map (map crlf) (map (csv_record lat) rs) = map (csv_record lat) (map as_read rs)"
    using csv_record_read [of lat] assms by simp
  ultimately show ?thesis by (simp add: read_csv_def)
qed

definition sample_of :: "(int64 \<Rightarrow> 'f) \<Rightarrow> resultRow \<Rightarrow> 'f sample" where
  "sample_of latency row = \<lparr>sm_StartNS = StartNS row, sm_EndNS = EndNS row,
     sm_LatencyMS = latency (EndNS row - StartNS row), sm_Status = Status row, sm_AttemptCount = AttemptCount row\<rparr>"

lemma ParseInt_go_FormatInt [simp]: "ParseInt_go (FormatInt i) = Inr i"
  by (simp add: ParseInt_go_def ParseInt_FormatInt)

lemma header_columns:
  "column (header_index csv_header) ''start_ns'' = 3" "column (header_index csv_header) ''end_ns'' = 4"
  "column (header_index csv_header) ''latency_ms'' = 5" "column (header_index csv_header) ''status'' = 6"
  "column (header_index csv_header) ''attempt_count'' = 7"
  by code_simp+

lemma record_cells:
  "cell (csv_record lat row) 3 = Inr (FormatInt (StartNS row))"
  "cell (csv_record lat row) 4 = Inr (FormatInt (EndNS row))"
  "cell (csv_record lat row) 5 = Inr (lat (EndNS row - StartNS row))"
  "cell (csv_record lat row) 6 = Inr (Status row)"
  "cell (csv_record lat row) 7 = Inr (FormatInt (AttemptCount row))"
  by (simp_all add: cell_def csv_record_def)

lemma parse_row_record:
  assumes "\<And>d. ParseFloat (lat d) = Inr (latency d)"
  shows "parse_row ParseFloat (header_index csv_header) (csv_record lat row) = Inr (Inr (sample_of latency row))"
  by (simp add: parse_row_def header_columns record_cells assms sample_of_def)

lemma parse_rows_records:
  assumes "\<And>d. ParseFloat (lat d) = Inr (latency d)"
  shows "parse_rows ParseFloat (header_index csv_header) (map (csv_record lat) rs) = Inr (Inr (map (sample_of latency) rs))"
  by (induction rs) (simp_all add: parse_row_record [of ParseFloat lat latency, OF assms])

text \<open>The analysis reads what the generator wrote.  From the header and the records of any rows,
  whose latency texts \<open>strconv.ParseFloat\<close> reads, \<open>parse_samples\<close> gets without error or panic exactly
  one sample per row, with the row's times, status and attempts, in the order \<open>sort.Slice\<close> gives
  them.\<close>

lemma csv_roundtrip:
  assumes "\<And>d. ParseFloat (lat d) = Inr (latency d)" and "\<And>xs. mset (srt xs) = mset xs" and "rs \<noteq> []"
  shows "\<exists>out. parse_samples ParseFloat srt (Inr (csv_header # map (csv_record lat) rs)) = Inr (Inr out)
    \<and> out = srt (map (sample_of latency) rs) \<and> mset out = image_mset (sample_of latency) (mset rs)"
  using assms(3) by (cases rs) (simp_all add: parse_samples_def parse_row_record [of ParseFloat lat latency, OF assms(1)]
      parse_rows_records [of ParseFloat lat latency, OF assms(1)] assms(2))

lemma csv_roundtrip_witness:
  "\<exists>out. parse_samples (\<lambda>t. Inr (length t)) (sort_key (\<lambda>s. sint (sm_EndNS s)))
      (Inr (csv_header # map (csv_record (\<lambda>d. ''1.000''))
        [\<lparr>OpID = 1, WorkerID = 1, Operation = 1, StartNS = 5, EndNS = 1000005, Status = ''OK'', AttemptCount = 1,
          LeaderBefore = ''a'', LeaderAfter = ''a'', ErrorText = []\<rparr>])) = Inr (Inr out) \<and> size (mset out) = 1"
proof -
  let ?rs = "[\<lparr>OpID = 1, WorkerID = 1, Operation = 1, StartNS = 5, EndNS = 1000005, Status = ''OK'',
      AttemptCount = 1, LeaderBefore = ''a'', LeaderAfter = ''a'', ErrorText = []\<rparr>]"
  have "\<exists>out. parse_samples (\<lambda>t. Inr (length t)) (sort_key (\<lambda>s. sint (sm_EndNS s)))
        (Inr (csv_header # map (csv_record (\<lambda>d. ''1.000'')) ?rs)) = Inr (Inr out)
      \<and> out = sort_key (\<lambda>s. sint (sm_EndNS s)) (map (sample_of (\<lambda>d. length ''1.000'')) ?rs)
      \<and> mset out = image_mset (sample_of (\<lambda>d. length ''1.000'')) (mset ?rs)"
    by (rule csv_roundtrip) simp_all
  then obtain out where "parse_samples (\<lambda>t. Inr (length t)) (sort_key (\<lambda>s. sint (sm_EndNS s)))
        (Inr (csv_header # map (csv_record (\<lambda>d. ''1.000'')) ?rs)) = Inr (Inr out)"
      "mset out = image_mset (sample_of (\<lambda>d. length ''1.000'')) (mset ?rs)" by blast
  then show ?thesis by (intro exI [of _ out]) simp
qed

text \<open>The failover ends at the first success.  On samples sorted by their end,
  \<open>firstSuccessfulCompletionAfter\<close> finds the least end of a successful operation not before the
  kill, whatever the order of samples with equal ends; it is 0 when there is none.\<close>

lemma first_success_is_earliest:
  assumes "sorted (map (\<lambda>s. sint (sm_EndNS s)) ss)"
  shows "(let ends = {sint (sm_EndNS s) | s. s \<in> set ss \<and> sm_Status s = ''OK'' \<and> sint killNS \<le> sint (sm_EndNS s)}
    in if ends = {} then firstSuccessfulCompletionAfter ss killNS = 0
       else sint (firstSuccessfulCompletionAfter ss killNS) = Min ends)"
  using assms
proof (induction ss)
  case (Cons s ss)
  let ?E = "\<lambda>xs. {sint (sm_EndNS s) | s. s \<in> set xs \<and> sm_Status s = ''OK'' \<and> sint killNS \<le> sint (sm_EndNS s)}"
  have fin: "finite (?E xs)" for xs by (rule finite_subset [of _ "(\<lambda>s. sint (sm_EndNS s)) ` set xs"]) auto
  show ?case
  proof (cases "killNS \<le>s sm_EndNS s \<and> sm_Status s = ''OK''")
    case True
    then have mem: "sint (sm_EndNS s) \<in> ?E (s # ss)" by (auto simp: int64_simps)
    moreover have "\<forall>e \<in> ?E (s # ss). sint (sm_EndNS s) \<le> e" using Cons.prems by auto
    ultimately have "Min (?E (s # ss)) = sint (sm_EndNS s)" using fin [of "s # ss"] by (intro Min_eqI) auto
    then show ?thesis using True mem by (simp only: Let_def firstSuccessfulCompletionAfter.simps simp_thms if_True) auto
  next
    case False
    then have "?E (s # ss) = ?E ss" by (auto simp: int64_simps)
    moreover have "firstSuccessfulCompletionAfter (s # ss) killNS = firstSuccessfulCompletionAfter ss killNS"
      using False by (simp only: firstSuccessfulCompletionAfter.simps if_False)
    moreover have "sorted (map (\<lambda>s. sint (sm_EndNS s)) ss)" using Cons.prems by simp
    ultimately show ?thesis using Cons.IH by (simp only:)
  qed
qed simp

lemma first_success_is_earliest_witness:
  "sint (firstSuccessfulCompletionAfter [\<lparr>sm_StartNS = 0, sm_EndNS = 5, sm_LatencyMS = (), sm_Status = ''OK'', sm_AttemptCount = 1\<rparr>] 3) = 5"
  using first_success_is_earliest [of "[\<lparr>sm_StartNS = 0, sm_EndNS = 5, sm_LatencyMS = (), sm_Status = ''OK'', sm_AttemptCount = 1\<rparr>]" 3]
  by simp

lemma paths_agree: "fst (default_paths csv [] cdf timeline) = loadgen_meta_path csv"
  by (simp add: default_paths_def loadgen_meta_path_def Let_def)

end
