(* ===== verification/Commands.thy ===== *)
theory Commands
  imports Analysis Exactly_Once
begin

text \<open>
  How \<open>cmd/server\<close> builds its server from its flags and lets it pull the state of the group, and
  that the flags of a group agree.  The rest of the command is in \<open>Server_Command\<close>.
\<close>

section \<open>The server command\<close>

definition server_peers :: "string \<Rightarrow> string list" where
  "server_peers peersFlag =
     (if peersFlag \<noteq> [] then
        fold (\<lambda>p peerList. let addr = TrimSpace p in if addr \<noteq> [] then peerList @ [addr] else peerList)
          (Split CHR '','' peersFlag) []
      else [])"

definition self_address :: "int64 \<Rightarrow> string" where
  "self_address port = ''localhost:'' @ FormatInt port"

definition start_server_cmd ::
  "(string \<Rightarrow> go_error + client_conn) \<Rightarrow> (client_conn \<Rightarrow> TransferReq \<Rightarrow> go_error + TransferResp) \<Rightarrow>
   int \<Rightarrow> int64 \<Rightarrow> string \<Rightarrow> bool \<Rightarrow> int64 \<Rightarrow> panic + Server" where
  "start_server_cmd newClient callTransferState i port peersFlag dedup delay =
     (let srv = New newClient i (self_address port) (server_peers peersFlag) dedup delay
      in PullState newClient callTransferState srv)"

section \<open>A configuration names one group\<close>

lemma server_peers_parse: "server_peers raw = parsePeers raw"
proof (cases "raw = []")
  case True
  have "TrimSpace [] = []" by code_simp
  then show ?thesis using True by (simp add: server_peers_def parsePeers_def)
next
  case False
  then show ?thesis by (simp add: server_peers_def parsePeers_def)
qed

lemma leading_0I: "c \<notin> set (map hd sps) \<Longrightarrow> [] \<notin> set sps \<Longrightarrow> leading sps (c # s) = 0"
proof (induction sps)
  case (Cons sp sps)
  then obtain b bs where "sp = b # bs" by (cases sp) auto
  then show ?case using Cons by auto
qed simp

lemma digit_not_space:
  assumes "d < 10"
  shows "digit_char d \<notin> set (map hd (map rev go_spaces))"
proof -
  have "d = 0 \<or> d = 1 \<or> d = 2 \<or> d = 3 \<or> d = 4 \<or> d = 5 \<or> d = 6 \<or> d = 7 \<or> d = 8 \<or> d = 9"
    using assms by arith
  moreover have "list_all (\<lambda>d. digit_char d \<notin> set (map hd (map rev go_spaces))) [0, 1, 2, 3, 4, 5, 6, 7, 8, 9]"
    by code_simp
  ultimately show ?thesis by auto
qed

lemma last_dec_digits: "\<exists>d < 10. last (dec_digits n) = digit_char d"
  using dec_digits_chars [of "last (dec_digits n)" n] dec_digits_nonempty [of n] by simp

lemma self_address_name: "peer_name (self_address p)"
proof -
  have ne: "FormatInt p \<noteq> []" by (simp add: FormatInt_def Let_def dec_digits_nonempty)
  have "\<exists>d < 10. last (FormatInt p) = digit_char d"
    using last_dec_digits dec_digits_nonempty by (simp add: FormatInt_def Let_def)
  then obtain d where d: "d < 10" "last (FormatInt p) = digit_char d" by blast
  have "self_address p \<noteq> []" by (simp add: self_address_def)
  moreover have "CHR '','' \<notin> set (self_address p)"
  proof -
    have "CHR '','' \<noteq> digit_char d" if "d < 10" for d
    proof
      assume "CHR '','' = digit_char d"
      then have "digit_val CHR '','' = Some d" using digit_val_char [OF that] by simp
      then show False by (simp add: digit_val_def of_char_def)
    qed
    then have "CHR '','' \<notin> set (dec_digits n)" for n using dec_digits_chars [of _ n] by blast
    then show ?thesis by (simp add: self_address_def FormatInt_def Let_def)
  qed
  moreover have "trimmed (self_address p)"
  proof -
    have e: "[] \<notin> set go_spaces" "[] \<notin> set (map rev go_spaces)" by code_simp+
    have "CHR ''l'' \<notin> set (map hd go_spaces)" by code_simp
    then have "leading go_spaces (self_address p) = 0"
      using e(1) by (simp add: self_address_def leading_0I)
    moreover have "rev (self_address p) = last (FormatInt p) # rev (''localhost:'' @ butlast (FormatInt p))"
      using ne by (simp add: self_address_def)
    then have "leading (map rev go_spaces) (rev (self_address p)) = 0"
      using leading_0I [OF digit_not_space [OF d(1)] e(2)] d(2) by simp
    ultimately show ?thesis by (simp add: trimmed_def)
  qed
  ultimately show ?thesis by (simp add: peer_name_def)
qed

text \<open>The flags of a group agree.  Start one server per port, each with its own port and, in its
  \<open>peers\<close> flag, the addresses of the others in any order, separated by commas: whatever the other
  options, every server holds the same list of servers, starts under the same leader, and gives
  every view the same leader as the others.\<close>

lemma configuration_agrees:
  assumes "mset (p # ps) = mset (q # qs)"
  shows "let sp = New nc i (self_address p) (server_peers (join_peers '','' (map self_address ps))) dedup delay;
      sq = New nc' j (self_address q) (server_peers (join_peers '','' (map self_address qs))) dedup' delay'
    in allServers sp = allServers sq \<and> currentLeader sp = currentLeader sq
      \<and> (\<forall>v. leaderOf (allServers sp) v = leaderOf (allServers sq) v)"
proof -
  have flags: "server_peers (join_peers '','' (map self_address xs)) = map self_address xs" for xs
    using parsePeers_roundtrip [of "map self_address xs"] self_address_name by (simp add: server_peers_parse)
  have "mset (map self_address (p # ps)) = mset (map self_address (q # qs))"
    using assms by (simp only: mset_map)
  then have "mset (self_address p # map self_address ps) = mset (self_address q # map self_address qs)" by simp
  from same_membership_same_leaders [OF this] mset_sort_eq [OF this] show ?thesis
    unfolding flags Let_def currentLeader_def by (simp only: New_def Let_def Server.simps simp_thms)
qed

lemma configuration_agrees_witness:
  "allServers (New dial_all 1 (self_address 50051) (server_peers (join_peers '','' (map self_address [50053, 50052]))) True 0) =
   allServers (New dial_all 2 (self_address 50052) (server_peers (join_peers '','' (map self_address [50051, 50053]))) True 0)"
proof -
  have "mset [50051, 50053, 50052 :: int64] = mset [50052, 50051, 50053]" by (simp add: add_mset_commute)
  from configuration_agrees [OF this, of dial_all 1 True 0 dial_all 2 True 0] show ?thesis by (simp only: Let_def)
qed

end
