(* ===== verification/Server_Command.thy ===== *)
theory Server_Command
  imports Commands Election
begin

text \<open>
  \<open>main\<close> of \<open>cmd/server\<close>: the flags, the listener, the server it builds and lets pull the state of
  the group, and its life until the signal that stops it.  While it serves, the server meets one
  event after another: an RPC, answered by its handler, a turn of the heartbeat, or an error of
  \<open>grpcServer.Serve\<close>, which ends the process.  The listener, the connections and the pulled
  snapshots are parameters.
\<close>

section \<open>The life of a server\<close>

record server_flags =
  sf_id :: int
  sf_port :: int64
  sf_peers :: string
  sf_dedup :: bool
  sf_replyDelay :: int64

definition default_server_flags :: server_flags where
  "default_server_flags = \<lparr>sf_id = 1, sf_port = 50051, sf_peers = [], sf_dedup = True, sf_replyDelay = 0\<rparr>"

datatype server_event =
    IncrCall IncrRequest
  | GetCall GetRequest
  | PingCall PingRequest
  | ReplicateCall ReplicateMsg
  | ViewChangeCall ViewChangeMsg
  | TransferCall TransferReq
  | HeartbeatTick "client_conn \<Rightarrow> bool"
  | ServeError go_error

datatype server_answer =
    IncrAnswer "go_error + IncrResponse"
  | GetAnswer "go_error + GetResponse"
  | PingAnswer PingResponse
  | ReplicateAnswer ReplicateAck
  | ViewChangeAnswer ViewChangeAck
  | TransferAnswer TransferResp

text \<open>How a process ends before its signal: \<open>log.Fatalf\<close>, or a panic nobody recovers from.\<close>

datatype server_stop = Fatal string | Panicked panic

fun serve_event :: "server_event \<Rightarrow> int \<times> Server \<Rightarrow> server_stop + (int \<times> Server) \<times> server_answer list \<times> effect list" where
  "serve_event (IncrCall req) (k, s) = (case IncrCounter s req of (s', r, es) \<Rightarrow> Inr ((k, s'), [IncrAnswer r], es))"
| "serve_event (GetCall req) (k, s) = Inr ((k, s), [GetAnswer (GetCounter s req)], [])"
| "serve_event (PingCall req) (k, s) = Inr ((k, s), [PingAnswer (Ping s req)], [])"
| "serve_event (ReplicateCall msg) (k, s) = (case Replicate s msg of (s', ack) \<Rightarrow> Inr ((k, s'), [ReplicateAnswer ack], []))"
| "serve_event (ViewChangeCall msg) (k, s) =
     (case ViewChange s msg of Inl p \<Rightarrow> Inl (Panicked p) | Inr (s', ack) \<Rightarrow> Inr ((k, s'), [ViewChangeAnswer ack], []))"
| "serve_event (TransferCall req) (k, s) = Inr ((k, s), [TransferAnswer (TransferState s req)], [])"
| "serve_event (HeartbeatTick ping_ok) (k, s) =
     (case heartbeat_turn ping_ok (k, s) of Inl p \<Rightarrow> Inl (Panicked p) | Inr (ks, es) \<Rightarrow> Inr (ks, [], es))"
| "serve_event (ServeError err) (k, s) = Inl (Fatal (''failed to serve: '' @ error_text err))"

fun serve :: "server_event list \<Rightarrow> int \<times> Server \<Rightarrow> server_stop + (int \<times> Server) \<times> server_answer list \<times> effect list" where
  "serve [] ks = Inr (ks, [], [])"
| "serve (e # rest) ks =
     (case serve_event e ks of
        Inl x \<Rightarrow> Inl x
      | Inr (ks', ans, es) \<Rightarrow>
          (case serve rest ks' of Inl x \<Rightarrow> Inl x | Inr (ks'', ans', es') \<Rightarrow> Inr (ks'', ans @ ans', es @ es')))"

definition server_main ::
  "server_flags \<Rightarrow> (string \<Rightarrow> go_error option) \<Rightarrow> (string \<Rightarrow> go_error + client_conn) \<Rightarrow>
   (client_conn \<Rightarrow> TransferReq \<Rightarrow> go_error + TransferResp) \<Rightarrow> server_event list \<Rightarrow>
   server_stop + (int \<times> Server) \<times> server_answer list \<times> effect list" where
  "server_main fl listen newClient callTransferState es =
     (case listen (CHR '':'' # FormatInt (sf_port fl)) of
        Some err \<Rightarrow> Inl (Fatal (''failed to listen: '' @ error_text err))
      | None \<Rightarrow>
          (case start_server_cmd newClient callTransferState (sf_id fl) (sf_port fl) (sf_peers fl) (sf_dedup fl) (sf_replyDelay fl) of
             Inl p \<Rightarrow> Inl (Panicked p)
           | Inr srv \<Rightarrow> serve es (0, srv)))"

section \<open>Types of messages\<close>

text \<open>
  What a server may expect of its peers and promises them in turn: a replicated reply and a reply
  of a snapshot carry no redirect, and view numbers are at most \<open>V\<close>.
\<close>

fun event_typed :: "int \<Rightarrow> server_event \<Rightarrow> bool" where
  "event_typed V (ReplicateCall m) \<longleftrightarrow> msg_ok m"
| "event_typed V (ViewChangeCall m) \<longleftrightarrow> sint (vcm_ViewNumber m) \<le> V"
| "event_typed V _ \<longleftrightarrow> True"

definition snapshot_typed :: "int \<Rightarrow> TransferResp \<Rightarrow> bool" where
  "snapshot_typed V r \<longleftrightarrow> resp_ok r \<and> sint (trs_ViewNumber r) \<le> V"

fun effect_typed :: "int \<Rightarrow> effect \<Rightarrow> bool" where
  "effect_typed V (CallReplicate c m) \<longleftrightarrow> msg_ok m"
| "effect_typed V (CallViewChange c m) \<longleftrightarrow> 0 \<le> sint (vcm_ViewNumber m) \<and> sint (vcm_ViewNumber m) \<le> V"
| "effect_typed V (SleepFor d) \<longleftrightarrow> 0 < sint d"

fun answer_typed :: "int \<Rightarrow> string list \<Rightarrow> server_answer \<Rightarrow> bool" where
  "answer_typed V all (IncrAnswer (Inr x)) \<longleftrightarrow> irs_RedirectTo x \<in> insert [] (set all)"
| "answer_typed V all (GetAnswer (Inr x)) \<longleftrightarrow> grs_RedirectTo x \<in> insert [] (set all)"
| "answer_typed V all (PingAnswer r) \<longleftrightarrow> prs_Ok r \<and> 0 \<le> sint (prs_ViewNumber r) \<and> sint (prs_ViewNumber r) \<le> V"
| "answer_typed V all (ViewChangeAnswer a) \<longleftrightarrow> 0 \<le> sint (vca_ViewNumber a) \<and> sint (vca_ViewNumber a) \<le> V"
| "answer_typed V all (TransferAnswer r) \<longleftrightarrow> snapshot_typed V r"
| "answer_typed V all _ \<longleftrightarrow> True"

definition server_typed :: "int \<Rightarrow> string list \<Rightarrow> int \<times> Server \<Rightarrow> bool" where
  "server_typed V all ks \<longleftrightarrow>
     wf_server (snd ks) \<and> allServers (snd ks) = all \<and> sint (viewNumber (snd ks)) \<le> V \<and> 0 \<le> fst ks \<and> fst ks < 3"

fun ticks :: "server_event list \<Rightarrow> nat" where
  "ticks [] = 0"
| "ticks (HeartbeatTick p # es) = Suc (ticks es)"
| "ticks (_ # es) = ticks es"

lemma answer_typed_mono: "answer_typed V all a \<Longrightarrow> V \<le> W \<Longrightarrow> answer_typed W all a"
  by (cases "(V, all, a)" rule: answer_typed.cases) (auto simp: snapshot_typed_def)

lemma effect_typed_mono: "effect_typed V e \<Longrightarrow> V \<le> W \<Longrightarrow> effect_typed W e"
  by (cases "(V, e)" rule: effect_typed.cases) auto

lemma event_typed_mono: "event_typed V e \<Longrightarrow> V \<le> W \<Longrightarrow> event_typed W e"
  by (cases "(V, e)" rule: event_typed.cases) auto

lemma lists_typed_mono:
  "list_all (answer_typed V all) as \<Longrightarrow> V \<le> W \<Longrightarrow> list_all (answer_typed W all) as"
  "list_all (effect_typed V) es \<Longrightarrow> V \<le> W \<Longrightarrow> list_all (effect_typed W) es"
  "list_all (event_typed V) xs \<Longrightarrow> V \<le> W \<Longrightarrow> list_all (event_typed W) xs"
  by (auto simp: list_all_iff intro: answer_typed_mono effect_typed_mono event_typed_mono)

text \<open>A handler that goes on does so with a typed server, answers and messages.\<close>

definition goes_on :: "int \<Rightarrow> string list \<Rightarrow> server_stop + (int \<times> Server) \<times> server_answer list \<times> effect list \<Rightarrow> bool" where
  "goes_on V all r \<longleftrightarrow>
     (\<exists>ks as es. r = Inr (ks, as, es) \<and> server_typed V all ks \<and> list_all (answer_typed V all) as \<and> list_all (effect_typed V) es)"

lemma goes_onI:
  "r = Inr (ks, as, es) \<Longrightarrow> server_typed V all ks \<Longrightarrow> list_all (answer_typed V all) as \<Longrightarrow> list_all (effect_typed V) es \<Longrightarrow> goes_on V all r"
  by (auto simp: goes_on_def)

lemma leader_member: "wf_server s \<Longrightarrow> leaderAddr s \<in> set (allServers s)"
  by (auto simp: wf_server_def intro: leaderOf_mem)

lemma replicateToAll_typed: "msg_ok m \<Longrightarrow> list_all (effect_typed V) (replicateToAll s m)"
  by (auto simp: replicateToAll_def list_all_iff List.map_filter_def)

lemma broadcast_typed:
  "0 \<le> sint v \<Longrightarrow> sint v \<le> V \<Longrightarrow> list_all (effect_typed V) (broadcastViewChange s v)"
  by (auto simp: broadcastViewChange_def list_all_iff List.map_filter_def)

lemma cached_reply_redirect: "wf_server s \<Longrightarrow> cached_reply s q = Some y \<Longrightarrow> irs_RedirectTo y = []"
  by (auto simp: cached_reply_def wf_server_def dest: cache_ok_get split: if_splits)

lemma IncrCounter_typed:
  assumes "server_typed V all (k, s)"
  shows "goes_on V all (serve_event (IncrCall q) (k, s))"
proof -
  have wf: "wf_server s" "allServers s = all" using assms by (simp_all add: server_typed_def)
  consider "irq_CounterId q = []" | "irq_CounterId q \<noteq> []" "leaderAddr s \<noteq> self s"
    | "irq_CounterId q \<noteq> []" "leaderAddr s = self s" "inViewChange s = 1"
    | x where "irq_CounterId q \<noteq> []" "serving s" "cached_reply s q = Some x"
    | "irq_CounterId q \<noteq> []" "serving s" "cached_reply s q = None"
    by (auto simp: serving_def)
  then show ?thesis
  proof cases
    case 5
    have "server_typed V all (k, executed s q)" using assms executed_wf [OF wf(1)] by (simp add: server_typed_def)
    then show ?thesis using 5 replicateToAll_typed [OF incr_msg_ok]
      by (auto intro!: goes_onI simp: IncrCounter_fresh incr_response_def int64_less)
  qed (use assms leader_member [OF wf(1)] wf(2) cached_reply_redirect [OF wf(1)] in
      \<open>auto intro!: goes_onI simp: IncrCounter_invalid IncrCounter_redirect IncrCounter_unavailable IncrCounter_cached\<close>)
qed

lemma GetCounter_typed:
  assumes "server_typed V all (k, s)"
  shows "goes_on V all (serve_event (GetCall q) (k, s))"
proof -
  have "leaderAddr s \<in> set all" using assms leader_member by (auto simp: server_typed_def)
  then show ?thesis using assms by (intro goes_onI) (auto simp: GetCounter_def currentLeader_def)
qed

lemma ViewChange_typed:
  assumes "server_typed V all (k, s)" and "sint (vcm_ViewNumber m) \<le> V"
  shows "goes_on V all (serve_event (ViewChangeCall m) (k, s))"
proof (cases "sint (vcm_ViewNumber m) < sint (viewNumber s)")
  case True
  then show ?thesis using assms by (intro goes_onI) (auto simp: ViewChange_stale server_typed_def wf_server_def)
next
  case False
  have wf: "wf_server s" using assms by (simp add: server_typed_def)
  then have v: "0 \<le> sint (vcm_ViewNumber m)" using False by (simp add: wf_server_def)
  let ?c = "(voted s m)\<lparr>viewNumber := vcm_ViewNumber m, leaderAddr := leader_at (allServers s) (vcm_ViewNumber m), inViewChange := 0\<rparr>"
  have "wf_server ?c" using committed_wf [OF voted_wf [OF wf] v] by simp
  then have "server_typed V all (k, ?c)" "server_typed V all (k, voted s m)"
    using assms voted_wf [OF wf] by (simp_all add: server_typed_def)
  then show ?thesis using False wf v assms(2)
    by (cases "vote_count (voted s m) (vcm_ViewNumber m) = majority s")
       (auto intro!: goes_onI simp: ViewChange_eq Let_def)
qed

lemma heartbeat_typed:
  assumes "server_typed V all (k, s)" and "V < 2 ^ 63 - 1"
  shows "goes_on (V + 1) all (serve_event (HeartbeatTick p) (k, s))"
proof -
  have wf: "wf_server s" "sint (viewNumber s) < 2 ^ 63 - 1" using assms by (auto simp: server_typed_def)
  have v: "sint (viewNumber s + 1) = sint (viewNumber s) + 1" "0 \<le> sint (viewNumber s)"
    using wf by (simp_all add: sint64_inc wf_server_def)
  have init: "\<exists>s' es. initiateViewChange s = Inr (s', es) \<and> server_typed (V + 1) all (0, s') \<and> list_all (effect_typed (V + 1)) es"
    using assms v suspected_wf [OF wf] flag_wf [OF suspected_wf [OF wf]] broadcast_typed [of "viewNumber s + 1" "V + 1"]
    by (auto simp: initiate_eq [OF wf] Let_def server_typed_def)
  have same: "server_typed (V + 1) all (j, s)" if "0 \<le> j" "j < 3" for j using assms(1) that by (simp add: server_typed_def)
  show ?thesis
  proof (cases "currentLeader s = self s")
    case True
    then show ?thesis using same [of 0] by (intro goes_onI) (auto simp: heartbeat_turn_def)
  next
    case False
    let ?j = "if pingLeader p s (currentLeader s) then 0 else k + 1"
    show ?thesis
    proof (cases "maxMissedPings \<le> ?j")
      case True
      then show ?thesis using init False by (auto intro!: goes_onI simp: heartbeat_turn_def Let_def)
    next
      case j: False
      have "0 \<le> ?j" "?j < 3" using assms(1) j by (auto simp: server_typed_def maxMissedPings_def)
      from same [OF this] show ?thesis using False j
        by (intro goes_onI) (auto simp: heartbeat_turn_def Let_def)
    qed
  qed
qed

lemma serve_event_typed:
  assumes "server_typed V all ks" and "event_typed V e" and "V + int (ticks [e]) < 2 ^ 63" and "\<And>err. e \<noteq> ServeError err"
  shows "goes_on (V + int (ticks [e])) all (serve_event e ks)"
proof -
  obtain k s where ks: "ks = (k, s)" by fastforce
  have wf: "wf_server s" using assms(1) by (simp add: server_typed_def ks)
  have vn: "0 \<le> sint (viewNumber s)" "sint (viewNumber s) \<le> V"
    using assms(1) by (simp_all add: server_typed_def ks wf_server_def)
  show ?thesis
  proof (cases e)
    case (IncrCall q)
    then show ?thesis using IncrCounter_typed [of V all k s q] assms(1) by (simp add: ks)
  next
    case (GetCall q)
    then show ?thesis using GetCounter_typed [of V all k s q] assms(1) by (simp add: ks)
  next
    case (PingCall q)
    then show ?thesis using assms(1) vn by (auto intro!: goes_onI simp: ks Ping_def)
  next
    case (ReplicateCall m)
    have "server_typed V all (k, fst (Replicate s m))"
      using assms(1,2) ReplicateCall Replicate_wf [OF wf] by (simp add: server_typed_def server_frame ks)
    then show ?thesis using ReplicateCall by (auto intro!: goes_onI simp: ks split: prod.split)
  next
    case (ViewChangeCall m)
    then show ?thesis using ViewChange_typed [of V all k s m] assms(1,2) by (simp add: ks)
  next
    case (TransferCall q)
    then show ?thesis using assms(1) TransferState_ok [OF wf] vn
      by (auto intro!: goes_onI simp: ks snapshot_typed_def TransferState_def resp_ok_def)
  next
    case (HeartbeatTick p)
    then show ?thesis using heartbeat_typed [of V all k s p] assms(1,3) by (simp add: ks add.commute)
  next
    case (ServeError err)
    then show ?thesis using assms(4) by blast
  qed
qed

lemma ticks_Cons: "ticks (e # es) = ticks [e] + ticks es"
  by (cases e) simp_all

lemma serve_typed:
  assumes "server_typed V all ks" and "list_all (event_typed V) es" and "V + int (ticks es) < 2 ^ 63"
  shows "goes_on (V + int (ticks es)) all (serve es ks) \<or> (\<exists>err m. ServeError err \<in> set es \<and> serve es ks = Inl (Fatal m))"
  using assms
proof (induction es arbitrary: V ks)
  case Nil
  then show ?case by (auto intro!: goes_onI)
next
  case (Cons e es)
  let ?W = "V + int (ticks [e])"
  have t: "V + int (ticks (e # es)) = ?W + int (ticks es)" using ticks_Cons [of e es] by linarith
  show ?case
  proof (cases "\<exists>err. e = ServeError err")
    case True
    then show ?thesis by (cases ks) auto
  next
    case False
    then have "goes_on ?W all (serve_event e ks)"
      using Cons.prems t by (intro serve_event_typed) auto
    then obtain ks' as xs where s: "serve_event e ks = Inr (ks', as, xs)" "server_typed ?W all ks'"
        "list_all (answer_typed ?W all) as" "list_all (effect_typed ?W) xs"
      by (auto simp: goes_on_def)
    have "list_all (event_typed ?W) es" using Cons.prems(2) lists_typed_mono(3) [of V es ?W] by simp
    from Cons.IH [OF s(2) this] Cons.prems(3) t
    consider "goes_on (?W + int (ticks es)) all (serve es ks')"
      | err m where "ServeError err \<in> set es" "serve es ks' = Inl (Fatal m)" by auto
    then show ?thesis
    proof cases
      case 1
      then obtain ks'' as' xs' where r: "serve es ks' = Inr (ks'', as', xs')" "server_typed (?W + int (ticks es)) all ks''"
          "list_all (answer_typed (?W + int (ticks es)) all) as'" "list_all (effect_typed (?W + int (ticks es))) xs'"
        by (auto simp: goes_on_def)
      have "list_all (answer_typed (?W + int (ticks es)) all) (as @ as')" "list_all (effect_typed (?W + int (ticks es))) (xs @ xs')"
        using r lists_typed_mono(1) [OF s(3), of "?W + int (ticks es)"] lists_typed_mono(2) [OF s(4), of "?W + int (ticks es)"] by simp_all
      moreover have "serve (e # es) ks = Inr (ks'', as @ as', xs @ xs')" by (simp add: s(1) r(1))
      ultimately show ?thesis unfolding t using goes_onI r(2) by blast
    next
      case 2
      then show ?thesis using s(1) by auto
    qed
  qed
qed

section \<open>From start to stop\<close>

lemma pull_from_typed:
  assumes "\<forall>c q r. call c q = Inr r \<longrightarrow> snapshot_typed V r"
  shows "server_typed V all (0, s) \<Longrightarrow> \<exists>s'. pull_from newClient call s ps = Inr s' \<and> server_typed V all (0, s')"
proof (induction ps arbitrary: s)
  case (Cons p ps)
  show ?case
  proof (cases "\<exists>c r. newClient p = Inr c \<and> call c \<lparr>trq_RequesterId = self s\<rparr> = Inr r")
    case True
    then obtain c r where r: "newClient p = Inr c" "call c \<lparr>trq_RequesterId = self s\<rparr> = Inr r" by blast
    have wf: "wf_server s" "resp_ok r" using Cons.prems assms r(2) by (simp_all add: server_typed_def snapshot_typed_def)
    obtain s' where s': "applyTransferResp s r = Inr s'" "wf_server s'" "allServers s' = allServers s"
      using applyTransferResp_wf [OF wf] by blast
    then have "server_typed V all (0, s')"
      using Cons.prems assms r(2) applyTransferResp_fields(3) [OF s'(1)]
      by (auto simp: server_typed_def snapshot_typed_def)
    then show ?thesis using r s'(1) by (simp add: tryPullFrom_def)
  next
    case False
    then have "tryPullFrom newClient call s p = Inr (s, False)"
      by (auto simp: tryPullFrom_def split: sum.splits)
    then show ?thesis using Cons.IH [OF Cons.prems] by simp
  qed
qed simp

text \<open>C16: A server process is well typed from start to stop.  Whatever its flags, if the snapshots it may
  pull and the messages it receives carry no redirect in a reply and no view number above \<open>V\<close>,
  and the bound leaves room for its heartbeat turns below the largest int64, then the process
  never panics; it ends early only when the port cannot be listened on or \<open>Serve\<close> fails; and
  otherwise it ends as a well-formed server over the addresses of its flags.  Its answers and the
  messages it sends meet the conditions it relies on itself, the bound raised by one per
  heartbeat turn, and every redirect names a server of the group.\<close>

theorem server_process_typed:
  assumes "\<forall>c q r. call c q = Inr r \<longrightarrow> snapshot_typed V r" and "0 \<le> V"
    and "list_all (event_typed V) es" and "V + int (ticks es) < 2 ^ 63"
  shows "case server_main fl listen newClient call es of
      Inl (Panicked p) \<Rightarrow> False
    | Inl (Fatal m) \<Rightarrow> listen (CHR '':'' # FormatInt (sf_port fl)) \<noteq> None \<or> (\<exists>err. ServeError err \<in> set es)
    | Inr (ks, as, xs) \<Rightarrow>
        (let W = V + int (ticks es); all = sort (self_address (sf_port fl) # server_peers (sf_peers fl))
         in server_typed W all ks \<and> list_all (answer_typed W all) as \<and> list_all (effect_typed W) xs)"
proof -
  define srv where "srv = New newClient (sf_id fl) (self_address (sf_port fl)) (server_peers (sf_peers fl)) (sf_dedup fl) (sf_replyDelay fl)"
  let ?all = "sort (self_address (sf_port fl) # server_peers (sf_peers fl))"
  have "server_typed V ?all (0, srv)"
    using assms(2) wf_New by (simp add: server_typed_def srv_def New_def Let_def)
  then have "\<exists>srv'. PullState newClient call srv = Inr srv' \<and> server_typed V ?all (0, srv')"
    using pull_from_typed [where call = call and newClient = newClient and V = V, OF assms(1)] by (simp add: PullState_def)
  then obtain srv' where srv': "PullState newClient call srv = Inr srv'" "server_typed V ?all (0, srv')" by blast
  show ?thesis
  proof (cases "listen (CHR '':'' # FormatInt (sf_port fl))")
    case None
    have start: "server_main fl listen newClient call es = serve es (0, srv')"
      using srv'(1) None by (simp add: server_main_def start_server_cmd_def srv_def)
    from serve_typed [OF srv'(2) assms(3,4)] show ?thesis
      by (auto simp: start goes_on_def Let_def)
  qed (simp add: server_main_def)
qed

definition quiet_call :: "client_conn \<Rightarrow> TransferReq \<Rightarrow> go_error + TransferResp" where
  "quiet_call c q = Inr \<lparr>trs_Counters = [(''x'', 4)], trs_Cache = [], trs_ViewNumber = 1\<rparr>"

definition short_life :: "server_event list" where
  "short_life = [GetCall \<lparr>grq_CounterId = ''x''\<rparr>, HeartbeatTick (\<lambda>c. False), HeartbeatTick (\<lambda>c. False),
     HeartbeatTick (\<lambda>c. False), ViewChangeCall (vote_msg 2 ''localhost:50053'')]"

lemma server_process_typed_witness:
  "\<exists>k s as xs. server_main (default_server_flags\<lparr>sf_peers := ''localhost:50052, localhost:50053''\<rparr>) (\<lambda>a. None) dial_all quiet_call short_life
      = Inr ((k, s), as, xs) \<and> wf_server s \<and> list_all (effect_typed 5) xs"
proof -
  let ?fl = "default_server_flags\<lparr>sf_peers := ''localhost:50052, localhost:50053''\<rparr>"
  let ?r = "server_main ?fl (\<lambda>a. None) dial_all quiet_call short_life"
  have call: "\<forall>c q r. quiet_call c q = Inr r \<longrightarrow> snapshot_typed 2 r"
    by (auto simp: quiet_call_def snapshot_typed_def resp_ok_def)
  have life: "list_all (event_typed 2) short_life" "2 + int (ticks short_life) < 2 ^ 63" "2 + int (ticks short_life) = 5"
      "\<forall>err. ServeError err \<notin> set short_life"
    by (simp_all add: short_life_def vote_msg_def)
  from server_process_typed [where call = quiet_call and V = 2 and fl = ?fl and listen = "\<lambda>a. None" and newClient = dial_all, OF call _ life(1,2)]
  show ?thesis using life(4) unfolding life(3)
    by (auto simp: Let_def server_typed_def split: sum.splits server_stop.splits)
qed

end
