(* ===== verification/Go_Float.thy ===== *)
theory Go_Float
  imports Complex_Main "HOL-Library.Log_Nat"
begin

text \<open>
  Go's \<open>float64\<close>: IEEE 754 double precision with rounding to nearest, ties to even, subnormal
  numbers and overflow, over exact rationals.  A value is NaN, an infinity or a finite number; the
  sign of zero is not kept, as no code modelled here can observe it.  The contract of rounding
  (the result is representable and no representable number is closer) is the locale \<open>rounding\<close>,
  from which monotonicity and exactness follow; \<open>round53\<close> keeps it.  A fused multiply-add, which Go
  permits on some processors, is not modelled: every operation rounds, as on amd64.
\<close>

section \<open>The contract of rounding\<close>

locale rounding =
  fixes rnd :: "rat \<Rightarrow> rat" and representable :: "rat \<Rightarrow> bool"
  assumes rnd_representable: "representable (rnd x)"
    and rnd_nearest: "representable y \<Longrightarrow> \<bar>rnd x - x\<bar> \<le> \<bar>y - x\<bar>"
begin

lemma rnd_exact: "representable x \<Longrightarrow> rnd x = x"
  using rnd_nearest [of x x] by simp

lemma rnd_mono:
  assumes "x \<le> y"
  shows "rnd x \<le> rnd y"
proof (rule ccontr)
  assume "\<not> rnd x \<le> rnd y"
  then have lt: "rnd y < rnd x" by simp
  have "\<bar>rnd x - x\<bar> \<le> \<bar>rnd y - x\<bar>" "\<bar>rnd y - y\<bar> \<le> \<bar>rnd x - y\<bar>"
    by (simp_all add: rnd_nearest rnd_representable)
  then have "rnd y + rnd x \<le> 2 * x" "2 * y \<le> rnd y + rnd x" using lt by linarith+
  then have "x = y" using assms by linarith
  then show False using lt by simp
qed

lemma rnd_ge: "representable a \<Longrightarrow> a \<le> x \<Longrightarrow> a \<le> rnd x"
  using rnd_mono [of a x] by (simp add: rnd_exact)

lemma rnd_le: "representable a \<Longrightarrow> x \<le> a \<Longrightarrow> rnd x \<le> a"
  using rnd_mono [of x a] by (simp add: rnd_exact)

text \<open>A number that is closer to another representable one is not rounded to this one.\<close>

lemma rnd_neq: "representable y \<Longrightarrow> \<bar>y - x\<bar> < \<bar>d - x\<bar> \<Longrightarrow> rnd x \<noteq> d"
  using rnd_nearest [of y x] by auto

text \<open>Nothing representable lies strictly between a number and its rounding.\<close>

lemma rnd_between: "representable r \<Longrightarrow> x \<le> r \<Longrightarrow> r \<le> rnd x \<Longrightarrow> r = rnd x"
  using rnd_nearest [of r x] by linarith

end

section \<open>Powers of two\<close>

definition p2 :: "int \<Rightarrow> rat" where
  "p2 k = 2 powi k"

lemma p2_pos [simp]: "0 < p2 k"
  by (simp add: p2_def)

lemma p2_nonneg [simp]: "0 \<le> p2 k"
  by (simp add: p2_def)

lemma p2_neq_0 [simp]: "p2 k \<noteq> 0"
  by (simp add: p2_def)

lemma p2_0 [simp]: "p2 0 = 1"
  by (simp add: p2_def)

lemma p2_1 [simp]: "p2 1 = 2"
  by (simp add: p2_def)

lemma p2_add: "p2 (a + b) = p2 a * p2 b"
  by (simp add: p2_def power_int_add)

lemma p2_less: "a < b \<Longrightarrow> p2 a < p2 b"
  by (simp add: p2_def power_int_strict_increasing)

lemma p2_le_iff: "p2 a \<le> p2 b \<longleftrightarrow> a \<le> b"
  by (metis linorder_not_le order.strict_iff_order p2_less linorder_cases order_refl)

lemma p2_less_iff: "p2 a < p2 b \<longleftrightarrow> a < b"
  by (meson linorder_not_le p2_le_iff)

lemma p2_int: "0 \<le> k \<Longrightarrow> p2 k = of_int (2 ^ nat k)"
  by (simp add: p2_def power_int_nonneg_exp)

lemma p2_split: "k \<le> j \<Longrightarrow> p2 j = of_int (2 ^ nat (j - k)) * p2 k"
  using p2_add [of "j - k" k] p2_int [of "j - k"] by simp

lemma p2_plus_53: "p2 (k + 53) = of_int (2 ^ 53) * p2 k"
  using p2_split [of k "k + 53"] by simp

section \<open>Representable numbers\<close>

text \<open>\<open>m * 2 ^ k\<close> with a significand of 53 bits; the exponent is bounded below (overflow is separate).\<close>

definition binary64 :: "rat \<Rightarrow> bool" where
  "binary64 x \<longleftrightarrow> (\<exists>m k. x = of_int m * p2 k \<and> \<bar>m\<bar> < 2 ^ 53 \<and> -1074 \<le> k)"

lemma binary64I: "x = of_int m * p2 k \<Longrightarrow> \<bar>m\<bar> < 2 ^ 53 \<Longrightarrow> -1074 \<le> k \<Longrightarrow> binary64 x"
  unfolding binary64_def by blast

lemma binary64_uminus: "binary64 (- x) \<longleftrightarrow> binary64 x"
proof -
  have "binary64 (- x)" if x: "binary64 x" for x
  proof -
    obtain m k where "x = of_int m * p2 k" "\<bar>m\<bar> < 2 ^ 53" "-1074 \<le> k" using x unfolding binary64_def by blast
    then show ?thesis by (intro binary64I [of _ "- m" k]) simp_all
  qed
  from this [of x] this [of "- x"] show ?thesis by auto
qed

text \<open>A representable number is a multiple of every unit that is not too coarse for it.\<close>

lemma binary64_multiple:
  assumes "binary64 x" and "p2 (j + 52) \<le> \<bar>x\<bar> \<or> j = -1074"
  shows "\<exists>m. x = of_int m * p2 j"
proof -
  obtain m k where x: "x = of_int m * p2 k" "\<bar>m\<bar> < 2 ^ 53" "-1074 \<le> k"
    using assms(1) unfolding binary64_def by blast
  have "j \<le> k"
  proof (cases "j = -1074")
    case False
    then have "p2 (j + 52) \<le> \<bar>of_int m\<bar> * p2 k" using assms(2) by (simp add: x(1) abs_mult)
    also have "\<dots> < 2 ^ 53 * p2 k"
    proof -
      have "\<bar>of_int m\<bar> < (2 ^ 53 :: rat)" using x(2) by (metis of_int_abs of_int_less_iff of_int_numeral of_int_power)
      then show ?thesis by (simp only: mult_less_cancel_right_pos p2_pos)
    qed
    also have "\<dots> = p2 (k + 53)" by (simp add: p2_plus_53)
    finally show ?thesis by (simp add: p2_less_iff)
  qed (use x(3) in simp)
  then have "x = of_int (m * 2 ^ nat (k - j)) * p2 j" using p2_split [of j k] by (simp add: x(1))
  then show ?thesis by blast
qed

lemma binary64_of_int: "\<bar>i\<bar> \<le> 2 ^ 53 \<Longrightarrow> binary64 (of_int i)"
proof (cases "\<bar>i\<bar> = 2 ^ 53")
  case True
  then have "i = 2 ^ 53 \<or> i = - (2 ^ 53)" by linarith
  then show ?thesis
    by (elim disjE) (rule binary64I [of _ 1 53] binary64I [of _ "-1" 53]; simp add: p2_int)+
qed (auto intro: binary64I [of _ i 0])

lemma binary64_p2: "-1074 \<le> k \<Longrightarrow> binary64 (p2 k)"
  by (rule binary64I [of _ 1 k]) simp_all

section \<open>Rounding to nearest, ties to even\<close>

definition round_half_even :: "rat \<Rightarrow> int" where
  "round_half_even x =
     (let f = \<lfloor>x\<rfloor>; d = x - of_int f in
      if d < 1 / 2 then f else if 1 / 2 < d then f + 1 else if even f then f else f + 1)"

lemma round_half_even_close: "\<bar>of_int (round_half_even x) - x\<bar> \<le> 1 / 2"
proof -
  have "of_int \<lfloor>x\<rfloor> \<le> x" "x < of_int \<lfloor>x\<rfloor> + 1" by linarith+
  then show ?thesis by (auto simp: round_half_even_def Let_def)
qed

lemma round_half_even_nearest: "\<bar>of_int (round_half_even x) - x\<bar> \<le> \<bar>of_int i - x\<bar>"
proof -
  have f: "of_int \<lfloor>x\<rfloor> \<le> x" "x < of_int \<lfloor>x\<rfloor> + 1" by linarith+
  consider "i \<le> \<lfloor>x\<rfloor>" | "\<lfloor>x\<rfloor> + 1 \<le> i" by linarith
  then have "x - of_int \<lfloor>x\<rfloor> \<le> \<bar>of_int i - x\<bar> \<or> of_int (\<lfloor>x\<rfloor> + 1) - x \<le> \<bar>of_int i - x\<bar>"
  proof cases
    case 1
    then have "(of_int i :: rat) \<le> of_int \<lfloor>x\<rfloor>" by simp
    then show ?thesis using f by linarith
  next
    case 2
    then have "(of_int (\<lfloor>x\<rfloor> + 1) :: rat) \<le> of_int i" by (simp only: of_int_le_iff)
    then show ?thesis using f by linarith
  qed
  then show ?thesis using f by (auto simp: round_half_even_def Let_def)
qed

text \<open>The exponent of a nonzero number, from the lengths of numerator and denominator.\<close>

definition exponent2 :: "rat \<Rightarrow> int" where
  "exponent2 x =
     (let (p, q) = quotient_of \<bar>x\<bar>; e = bitlen p - bitlen q in if p2 e \<le> \<bar>x\<bar> then e else e - 1)"

lemma exponent2_bounds:
  assumes "x \<noteq> 0"
  shows "p2 (exponent2 x) \<le> \<bar>x\<bar> \<and> \<bar>x\<bar> < p2 (exponent2 x + 1)"
proof -
  obtain p q where pq: "quotient_of \<bar>x\<bar> = (p, q)" by (cases "quotient_of \<bar>x\<bar>")
  have q: "0 < q" using quotient_of_denom_pos [OF pq] .
  have x: "\<bar>x\<bar> = of_int p / of_int q" using quotient_of_div [OF pq] .
  have p: "0 < p"
  proof -
    have "0 < of_int p / (of_int q :: rat)" using assms x by (metis zero_less_abs_iff)
    then show ?thesis using q by (simp add: zero_less_divide_iff)
  qed
  have b: "p2 (bitlen n - 1) \<le> of_int n \<and> of_int n < p2 (bitlen n)" if "0 < n" for n
  proof -
    have l: "1 \<le> bitlen n" using that bitlen_nonneg [of n] bitlen_eq_zero_iff [of n] by linarith
    have "2 ^ nat (bitlen n - 1) \<le> n" "n < 2 ^ nat (bitlen n)" using bitlen_bounds [OF that] by auto
    then have "(of_int (2 ^ nat (bitlen n - 1)) :: rat) \<le> of_int n" "(of_int n :: rat) < of_int (2 ^ nat (bitlen n))"
      by (simp_all only: of_int_le_iff of_int_less_iff)
    then show ?thesis using l p2_int [of "bitlen n - 1"] p2_int [of "bitlen n"] by simp
  qed
  let ?e = "bitlen p - bitlen q"
  have "p2 (?e - 1) * of_int q < p2 (?e - 1) * p2 (bitlen q)"
    using b [OF q] by (simp only: mult_less_cancel_left_pos p2_pos)
  also have "\<dots> = p2 (bitlen p - 1)" by (simp flip: p2_add)
  also have "\<dots> \<le> of_int p" using b [OF p] by simp
  finally have lo: "p2 (?e - 1) < \<bar>x\<bar>" using q by (simp add: x pos_less_divide_eq)
  have "of_int p < p2 (bitlen p)" using b [OF p] by simp
  also have "\<dots> = p2 (?e + 1) * p2 (bitlen q - 1)" by (simp flip: p2_add)
  also have "\<dots> \<le> p2 (?e + 1) * of_int q" using b [OF q] by (simp only: mult_le_cancel_left_pos p2_pos)
  finally have hi: "\<bar>x\<bar> < p2 (?e + 1)" using q by (simp add: x pos_divide_less_eq)
  show ?thesis using lo hi by (auto simp: exponent2_def pq Let_def)
qed

definition unit_of :: "rat \<Rightarrow> int" where
  "unit_of x = max (exponent2 x - 52) (-1074)"

definition round53 :: "rat \<Rightarrow> rat" where
  "round53 x = (if x = 0 then 0 else of_int (round_half_even (x / p2 (unit_of x))) * p2 (unit_of x))"

lemma round53_close:
  assumes "x \<noteq> 0"
  shows "\<bar>round53 x - x\<bar> \<le> \<bar>of_int i * p2 (unit_of x) - x\<bar>"
proof -
  let ?u = "p2 (unit_of x)"
  have u: "0 < ?u" by simp
  have split: "\<bar>of_int j * ?u - x\<bar> = \<bar>of_int j - x / ?u\<bar> * ?u" for j
  proof -
    have "of_int j * ?u - x = (of_int j - x / ?u) * ?u" using u by (simp add: field_simps)
    then show ?thesis using u by (simp only: abs_mult abs_of_pos)
  qed
  have "\<bar>of_int (round_half_even (x / ?u)) - x / ?u\<bar> * ?u \<le> \<bar>of_int i - x / ?u\<bar> * ?u"
    using round_half_even_nearest [of "x / ?u" i] u by (intro mult_right_mono) simp_all
  then show ?thesis using assms by (simp only: round53_def if_False split)
qed

lemma round53_binary64: "binary64 (round53 x)"
proof (cases "x = 0")
  case True
  then show ?thesis by (intro binary64I [of _ 0 0]) (simp_all add: round53_def)
next
  case False
  let ?u = "p2 (unit_of x)" and ?i = "round_half_even (x / p2 (unit_of x))"
  have "\<bar>x\<bar> < p2 (exponent2 x + 1)" using exponent2_bounds [OF False] by simp
  also have "\<dots> \<le> p2 (unit_of x + 53)" by (simp add: p2_le_iff unit_of_def)
  also have "\<dots> = 2 ^ 53 * ?u" by (simp add: p2_plus_53)
  finally have "\<bar>x / ?u\<bar> < 2 ^ 53" by (simp add: pos_divide_less_eq)
  moreover have "\<bar>of_int ?i - x / ?u\<bar> \<le> 1 / 2" by (rule round_half_even_close)
  ultimately have "\<bar>of_int ?i\<bar> < (2 ^ 53 + 1 :: rat)" by linarith
  then have "of_int \<bar>?i\<bar> < (of_int (2 ^ 53 + 1) :: rat)" by simp
  then have "\<bar>?i\<bar> < 2 ^ 53 + 1" by (simp only: of_int_less_iff)
  then have i: "\<bar>?i\<bar> \<le> 2 ^ 53" by linarith
  have r: "round53 x = of_int ?i * ?u" using False by (simp add: round53_def)
  show ?thesis
  proof (cases "\<bar>?i\<bar> = 2 ^ 53")
    case False
    then show ?thesis using i r by (intro binary64I [of _ ?i "unit_of x"]) (simp_all add: unit_of_def)
  next
    case True
    then have "?i = 2 ^ 52 * 2 \<or> ?i = - (2 ^ 52) * 2" by (auto simp: abs_if split: if_splits)
    then obtain m where m: "?i = m * 2" "\<bar>m\<bar> = 2 ^ 52" by fastforce
    then have "round53 x = of_int m * p2 (unit_of x + 1)" by (simp add: r p2_add)
    then show ?thesis using m(2) by (intro binary64I) (auto simp: unit_of_def)
  qed
qed

lemma round53_nearest:
  assumes "binary64 y"
  shows "\<bar>round53 x - x\<bar> \<le> \<bar>y - x\<bar>"
proof (cases "x = 0")
  case True
  then show ?thesis by (simp add: round53_def)
next
  case False
  show ?thesis
  proof (cases "\<exists>m. y = of_int m * p2 (unit_of x)")
    case True
    then show ?thesis using round53_close [OF False] by blast
  next
    case no: False
    let ?e = "exponent2 x"
    have e: "unit_of x = ?e - 52" using binary64_multiple [OF assms, of "-1074"] no by (auto simp: unit_of_def max_def split: if_splits)
    then have y: "\<bar>y\<bar> < p2 ?e" using binary64_multiple [OF assms, of "?e - 52"] no by fastforce
    have x: "p2 ?e \<le> \<bar>x\<bar>" using exponent2_bounds [OF False] by simp
    have "p2 ?e = of_int (2 ^ 52) * p2 (unit_of x)" using p2_split [of "?e - 52" ?e] by (simp add: e)
    then have a: "\<bar>round53 x - x\<bar> \<le> \<bar>p2 ?e - x\<bar>" "\<bar>round53 x - x\<bar> \<le> \<bar>- p2 ?e - x\<bar>"
      using round53_close [OF False, of "2 ^ 52"] round53_close [OF False, of "- (2 ^ 52)"] by simp_all
    show ?thesis using a x y by linarith
  qed
qed

interpretation double: rounding round53 binary64
  by unfold_locales (simp_all add: round53_binary64 round53_nearest)

lemma binary64_normal:
  assumes "binary64 d" and "p2 (-1021) \<le> d"
  shows "\<exists>m k. d = of_int m * p2 k \<and> 2 ^ 52 \<le> m \<and> m < 2 ^ 53 \<and> -1073 \<le> k"
proof -
  have d: "0 < d" using assms(2) p2_pos [of "-1021"] by linarith
  define e where "e = exponent2 d"
  have b: "p2 e \<le> d" "d < p2 (e + 1)" using exponent2_bounds [of d] d by (simp_all add: e_def)
  have "p2 (-1021) < p2 (e + 1)" using assms(2) b(2) by linarith
  then have e: "-1021 \<le> e" by (simp add: p2_less_iff)
  obtain m where m: "d = of_int m * p2 (e - 52)"
    using binary64_multiple [OF assms(1), of "e - 52"] b(1) d by auto
  have s: "p2 e = of_int (2 ^ 52) * p2 (e - 52)" "p2 (e + 1) = of_int (2 ^ 53) * p2 (e - 52)"
    using p2_split [of "e - 52" e] p2_split [of "e - 52" "e + 1"] by simp_all
  have "of_int (2 ^ 52) * p2 (e - 52) \<le> of_int m * p2 (e - 52)" using b(1) unfolding s(1) m .
  then have "(of_int (2 ^ 52) :: rat) \<le> of_int m" by (simp only: mult_le_cancel_right_pos p2_pos)
  then have "2 ^ 52 \<le> m" by (simp only: of_int_le_iff)
  moreover have "of_int m * p2 (e - 52) < of_int (2 ^ 53) * p2 (e - 52)" using b(2) unfolding s(2) by (simp only: m)
  then have "(of_int m :: rat) < of_int (2 ^ 53)" by (simp only: mult_less_cancel_right_pos p2_pos)
  then have "m < 2 ^ 53" by (simp only: of_int_less_iff)
  ultimately show ?thesis using m e by (intro exI [of _ m] exI [of _ "e - 52"]) simp
qed

text \<open>A small difference of representable numbers is representable.\<close>

lemma small_difference:
  assumes "binary64 a" and "binary64 b" and "\<bar>b - a\<bar> < p2 (-1021)"
  shows "binary64 (b - a)"
proof -
  obtain i j where "a = of_int i * p2 (-1074)" "b = of_int j * p2 (-1074)"
    using binary64_multiple [of a "-1074"] binary64_multiple [of b "-1074"] assms(1,2) by blast
  then have d: "b - a = of_int (j - i) * p2 (-1074)" by (simp add: algebra_simps)
  have "\<bar>of_int (j - i) * p2 (-1074)\<bar> < of_int (2 ^ 53) * p2 (-1074)"
    using assms(3) p2_split [of "-1074" "-1021"] by (simp add: d)
  then have "\<bar>of_int (j - i)\<bar> * p2 (-1074) < of_int (2 ^ 53) * p2 (-1074)" by (simp only: abs_mult abs_of_pos [OF p2_pos])
  then have "of_int \<bar>j - i\<bar> < (of_int (2 ^ 53) :: rat)" by (simp only: mult_less_cancel_right_pos p2_pos of_int_abs)
  then have "\<bar>j - i\<bar> < 2 ^ 53" by (simp only: of_int_less_iff)
  then show ?thesis by (intro binary64I [OF d]) simp_all
qed

text \<open>A number shrunk by at least one part in \<open>2 ^ 53\<close> does not round back to itself.\<close>

lemma shrunk_moves:
  assumes "binary64 d" and "p2 (-1021) \<le> d" and "0 \<le> w" and "w \<le> 1 - 1 / 2 ^ 53"
  shows "round53 (d * w) \<noteq> d"
proof -
  obtain m k where d: "d = of_int m * p2 k" "2 ^ 52 \<le> m" "m < 2 ^ 53" "-1073 \<le> k"
    using binary64_normal [OF assms(1,2)] by blast
  have "0 \<le> d" using assms(2) p2_pos [of "-1021"] by linarith
  then have "d * w \<le> d * (1 - 1 / 2 ^ 53)" using assms(4) by (intro mult_left_mono)
  then have dw: "d * w \<le> d - d / 2 ^ 53" by (simp add: algebra_simps)
  show ?thesis
  proof (cases "m = 2 ^ 52")
    case True
    have half: "p2 k = 2 * p2 (k - 1)" using p2_add [of "k - 1" 1] by simp
    have "d / 2 ^ 53 = p2 (k - 1)" by (simp add: d(1) True half)
    moreover have eq: "d - p2 (k - 1) = of_int (2 ^ 53 - 1) * p2 (k - 1)" by (simp add: d(1) True half algebra_simps)
    have "binary64 (d - p2 (k - 1))" by (rule binary64I [OF eq]) (use d(4) in simp_all)
    ultimately show ?thesis
      using dw p2_pos [of "k - 1"] by (intro double.rnd_neq [of "d - p2 (k - 1)"]) (simp_all add: abs_if)
  next
    case False
    have "(of_int (2 ^ 52) :: rat) < of_int m" using False d(2) by (simp only: of_int_less_iff)
    then have "of_int (2 ^ 52) * p2 k < d" unfolding d(1) by (simp only: mult_less_cancel_right_pos p2_pos)
    then have "p2 k / 2 < d / 2 ^ 53" by simp
    moreover have eq: "d - p2 k = of_int (m - 1) * p2 k" by (simp add: d(1) algebra_simps)
    have "binary64 (d - p2 k)" by (rule binary64I [OF eq]) (use d(2-4) in simp_all)
    moreover have "\<bar>d - p2 k - d * w\<bar> < \<bar>d - d * w\<bar>"
      if "p2 k / 2 < z" "d * w \<le> d - z" for z
      using that p2_pos [of k] by linarith
    ultimately show ?thesis using dw double.rnd_neq by blast
  qed
qed

text \<open>
  Linear interpolation stays between its ends, although the difference of the ends may be rounded
  up: the rounded difference, shrunk by a weight below 1, is at most the exact one.
\<close>

lemma interpolation_le:
  assumes "binary64 a" and "binary64 b" and "a \<le> b" and "0 \<le> w" and "w \<le> 1 - 1 / 2 ^ 53"
  shows "round53 (round53 (b - a) * w) \<le> b - a"
proof -
  let ?d = "round53 (b - a)" and ?r = "round53 (round53 (b - a) * w)"
  have d: "0 \<le> ?d" using assms(3) double.rnd_mono [of 0 "b - a"] by (simp add: round53_def)
  have "?d * w \<le> ?d * 1" using d assms(4,5) by (intro mult_left_mono) simp_all
  then have r: "?r \<le> ?d" using double.rnd_le [OF round53_binary64, of "?d * w" "b - a"] by simp
  show ?thesis
  proof (rule ccontr)
    assume "\<not> ?r \<le> b - a"
    then have gt: "b - a \<le> ?r" "b - a < ?d" using r by linarith+
    then have "?r = ?d" using r double.rnd_between [OF round53_binary64] by blast
    moreover have "\<not> binary64 (b - a)" using gt(2) double.rnd_exact [of "b - a"] by auto
    then have "p2 (-1021) \<le> b - a" using small_difference [OF assms(1,2)] assms(3) by fastforce
    then have "p2 (-1021) \<le> ?d" using gt(2) by linarith
    ultimately show False using shrunk_moves [OF round53_binary64 _ assms(4,5), of "b - a"] by simp
  qed
qed

lemma interpolation_bounds:
  assumes "binary64 a" and "binary64 b" and "a \<le> b" and "0 \<le> w" and "w \<le> 1 - 1 / 2 ^ 53"
  shows "a \<le> round53 (a + round53 (round53 (b - a) * w)) \<and> round53 (a + round53 (round53 (b - a) * w)) \<le> b"
proof -
  have "0 \<le> round53 (b - a)" using assms(3) double.rnd_mono [of 0 "b - a"] by (simp add: round53_def)
  then have "0 \<le> round53 (round53 (b - a) * w)"
    using assms(4) double.rnd_mono [of 0 "round53 (b - a) * w"] by (simp add: round53_def)
  then have "a \<le> a + round53 (round53 (b - a) * w)" by simp
  moreover have "a + round53 (round53 (b - a) * w) \<le> b" using interpolation_le [OF assms] by simp
  ultimately show ?thesis using double.rnd_ge [OF assms(1)] double.rnd_le [OF assms(2)] by blast
qed

text \<open>The part of a representable number behind the point is representable, and not too near 1.\<close>

lemma fraction_binary64:
  assumes "binary64 x" and "0 \<le> x"
  shows "binary64 (x - of_int \<lfloor>x\<rfloor>) \<and> x - of_int \<lfloor>x\<rfloor> \<le> 1 - 1 / 2 ^ 53"
proof -
  obtain m k where x: "x = of_int m * p2 k" "\<bar>m\<bar> < 2 ^ 53" "-1074 \<le> k"
    using assms(1) unfolding binary64_def by blast
  have m0: "0 \<le> m" using assms(2) x(1) p2_pos [of k] by (auto simp: zero_le_mult_iff not_le [symmetric])
  show ?thesis
  proof (cases "0 \<le> k")
    case True
    then have "x = of_int (m * 2 ^ nat k)" using p2_int [OF True] by (simp add: x(1))
    then have "x - of_int \<lfloor>x\<rfloor> = 0" by (metis diff_self floor_of_int)
    then show ?thesis using binary64_of_int [of 0] by simp
  next
    case False
    define n :: int where "n = 2 ^ nat (- k)"
    have n: "0 < n" and np: "of_int n * p2 k = 1"
      using p2_split [of k 0] False by (simp_all add: n_def)
    have x': "x = of_int m / of_int n" using np n by (simp add: x(1) field_simps)
    have fl: "\<lfloor>x\<rfloor> = m div n" by (simp add: x' floor_divide_of_int_eq)
    have "of_int m - of_int (m div n) * of_int n = (of_int (m mod n) :: rat)"
      by (metis minus_div_mult_eq_mod of_int_diff of_int_mult)
    then have fr: "x - of_int \<lfloor>x\<rfloor> = of_int (m mod n) * p2 k"
      using np by (metis (no_types, lifting) fl left_diff_distrib mult.assoc mult.right_neutral x(1))
    have mm: "0 \<le> m mod n" "m mod n < n" "m mod n < 2 ^ 53"
      using n m0 x(2) zmod_le_nonneg_dividend [of m n] by auto
    then have "binary64 (x - of_int \<lfloor>x\<rfloor>)" using x(3) by (intro binary64I [OF fr]) simp_all
    moreover have "of_int (m mod n) * p2 k \<le> 1 - 1 / 2 ^ 53"
    proof (cases "-53 \<le> k")
      case True
      have "(of_int (m mod n) :: rat) \<le> of_int (n - 1)" using mm by (simp only: of_int_le_iff)
      then have "of_int (m mod n) * p2 k \<le> of_int (n - 1) * p2 k" by (simp only: mult_le_cancel_right_pos p2_pos)
      also have "\<dots> = 1 - p2 k" using np by (simp add: algebra_simps)
      also have "\<dots> \<le> 1 - p2 (-53)" using True by (simp only: diff_left_mono p2_le_iff)
      also have "\<dots> = 1 - 1 / 2 ^ 53" by (simp add: p2_def power_int_minus_divide)
      finally show ?thesis .
    next
      case False
      have "(of_int (m mod n) :: rat) \<le> of_int (2 ^ 53)" using mm by (simp only: of_int_le_iff)
      then have "of_int (m mod n) * p2 k \<le> of_int (2 ^ 53) * p2 k" by (simp only: mult_le_cancel_right_pos p2_pos)
      also have "\<dots> = p2 (k + 53)" by (simp add: p2_plus_53)
      also have "\<dots> \<le> p2 (-1)" using False by (simp only: p2_le_iff)
      also have "\<dots> \<le> 1 - 1 / 2 ^ 53" by (simp add: p2_def power_int_minus_divide)
      finally show ?thesis .
    qed
    ultimately show ?thesis using fr by simp
  qed
qed

section \<open>Values and operations\<close>

datatype float64 = NaN | NegInf | Fin rat | PosInf

definition to_float64 :: "rat \<Rightarrow> float64" where
  "to_float64 x =
     (let r = round53 x in if p2 1024 \<le> r then PosInf else if r \<le> - p2 1024 then NegInf else Fin r)"

definition float_of_int :: "int \<Rightarrow> float64" where
  "float_of_int i = to_float64 (of_int i)"

fun fneg :: "float64 \<Rightarrow> float64" where
  "fneg NaN = NaN"
| "fneg NegInf = PosInf"
| "fneg (Fin a) = Fin (- a)"
| "fneg PosInf = NegInf"

fun fadd :: "float64 \<Rightarrow> float64 \<Rightarrow> float64" where
  "fadd (Fin a) (Fin b) = to_float64 (a + b)"
| "fadd NaN y = NaN"
| "fadd x NaN = NaN"
| "fadd PosInf NegInf = NaN"
| "fadd NegInf PosInf = NaN"
| "fadd PosInf y = PosInf"
| "fadd NegInf y = NegInf"
| "fadd x PosInf = PosInf"
| "fadd x NegInf = NegInf"

definition fsub :: "float64 \<Rightarrow> float64 \<Rightarrow> float64" where
  "fsub x y = fadd x (fneg y)"

text \<open>The sign of a value as -1, 0 or 1, and the infinity of a sign; 0 times an infinity is NaN.\<close>

fun fsign :: "float64 \<Rightarrow> rat" where
  "fsign NaN = 0"
| "fsign NegInf = -1"
| "fsign (Fin a) = sgn a"
| "fsign PosInf = 1"

definition infinity_of :: "rat \<Rightarrow> float64" where
  "infinity_of s = (if 0 < s then PosInf else if s < 0 then NegInf else NaN)"

fun fmul :: "float64 \<Rightarrow> float64 \<Rightarrow> float64" where
  "fmul (Fin a) (Fin b) = to_float64 (a * b)"
| "fmul NaN y = NaN"
| "fmul x NaN = NaN"
| "fmul x y = infinity_of (fsign x * fsign y)"

text \<open>A finite number by zero takes the zero as positive; no code modelled here divides by zero.\<close>

fun fdiv :: "float64 \<Rightarrow> float64 \<Rightarrow> float64" where
  "fdiv NaN y = NaN"
| "fdiv x NaN = NaN"
| "fdiv (Fin a) (Fin b) = (if b = 0 then infinity_of (sgn a) else to_float64 (a / b))"
| "fdiv (Fin a) y = Fin 0"
| "fdiv x (Fin b) = infinity_of (fsign x * (if b < 0 then -1 else 1))"
| "fdiv x y = NaN"

text \<open>The comparisons of the language: false on NaN.\<close>

fun f_le :: "float64 \<Rightarrow> float64 \<Rightarrow> bool" where
  "f_le NaN y = False"
| "f_le x NaN = False"
| "f_le NegInf y = True"
| "f_le x PosInf = True"
| "f_le (Fin a) (Fin b) = (a \<le> b)"
| "f_le x y = False"

fun f_less :: "float64 \<Rightarrow> float64 \<Rightarrow> bool" where
  "f_less NaN y = False"
| "f_less x NaN = False"
| "f_less (Fin a) (Fin b) = (a < b)"
| "f_less NegInf y = (y \<noteq> NegInf)"
| "f_less (Fin a) y = (y = PosInf)"
| "f_less PosInf y = False"

text \<open>\<open>sort.Float64s\<close> puts NaN first: a linear order of its own, which makes \<open>sort\<close> that function.\<close>

instantiation float64 :: linorder
begin

fun less_eq_float64 :: "float64 \<Rightarrow> float64 \<Rightarrow> bool" where
  "less_eq_float64 NaN y = True"
| "less_eq_float64 NegInf y = (y \<noteq> NaN)"
| "less_eq_float64 (Fin a) y = (case y of Fin b \<Rightarrow> a \<le> b | PosInf \<Rightarrow> True | _ \<Rightarrow> False)"
| "less_eq_float64 PosInf y = (y = PosInf)"

definition less_float64 :: "float64 \<Rightarrow> float64 \<Rightarrow> bool" where
  "less_float64 x y \<longleftrightarrow> x \<le> y \<and> \<not> y \<le> x"

instance
proof
  fix x y z :: float64
  show "x < y \<longleftrightarrow> x \<le> y \<and> \<not> y \<le> x" by (simp add: less_float64_def)
  show "x \<le> x" by (cases x) simp_all
  show "x \<le> y \<Longrightarrow> y \<le> z \<Longrightarrow> x \<le> z" by (cases x; cases y; cases z) simp_all
  show "x \<le> y \<Longrightarrow> y \<le> x \<Longrightarrow> x = y" by (cases x; cases y) simp_all
  show "x \<le> y \<or> y \<le> x" by (cases x; cases y) auto
qed

end

lemma Fin_less_iff [simp]: "Fin a < Fin b \<longleftrightarrow> a < b"
  by (auto simp: less_float64_def)

text \<open>Results between two finite values do not overflow.\<close>

definition finite64 :: "float64 \<Rightarrow> bool" where
  "finite64 v \<longleftrightarrow> (\<exists>a. v = Fin a \<and> binary64 a \<and> \<bar>a\<bar> < p2 1024)"

lemma to_float64_between:
  assumes "a \<le> round53 x" and "round53 x \<le> b" and "\<bar>a\<bar> < p2 1024" and "\<bar>b\<bar> < p2 1024"
  shows "to_float64 x = Fin (round53 x)"
  using assms by (auto simp: to_float64_def Let_def)

lemma to_float64_exact: "binary64 a \<Longrightarrow> \<bar>a\<bar> < p2 1024 \<Longrightarrow> to_float64 a = Fin a"
  using to_float64_between [of a a a] by (simp add: double.rnd_exact)

end
