(* ===== verification/Report.thy ===== *)
theory Report
  imports Analysis Go_Float
begin

text \<open>
  The numbers \<open>scripts/analyze.go\<close> reports and draws: percentiles, the failover latency, and the
  coordinates of the two plots, in Go's \<open>float64\<close>.  The text around the coordinates is in
  \<open>Svg_Files\<close>.
\<close>

section \<open>Percentiles\<close>

definition elem :: "'a list \<Rightarrow> int \<Rightarrow> panic + 'a" where
  "elem xs i = (if 0 \<le> i \<and> i < int (length xs) then Inr (xs ! nat i) else Inl IndexOutOfRange)"

lemma elem_nth: "i < length xs \<Longrightarrow> elem xs (int i) = Inr (xs ! i)"
  by (simp add: elem_def)

text \<open>\<open>int\<close> of a NaN or an infinity is the least integer, so the index that follows panics.\<close>

definition percentile :: "float64 list \<Rightarrow> float64 \<Rightarrow> panic + float64" where
  "percentile xs p =
     (if length xs = 0 then Inr (Fin 0)
      else if length xs = 1 then elem xs 0
      else
        (case fmul p (float_of_int (int (length xs) - 1)) of
           Fin pos \<Rightarrow>
             let lo = \<lfloor>pos\<rfloor>; hi = \<lceil>pos\<rceil> in
             if lo = hi then elem xs lo
             else
               let weight = fsub (Fin pos) (float_of_int lo) in
               (case elem xs lo of
                  Inl e \<Rightarrow> Inl e
                | Inr a \<Rightarrow> (case elem xs hi of Inl e \<Rightarrow> Inl e | Inr b \<Rightarrow> Inr (fadd a (fmul (fsub b a) weight))))
         | _ \<Rightarrow> Inl IndexOutOfRange))"

text \<open>The report of \<open>main\<close>: numbers of rows, successes and failures, and the percentiles, if any.\<close>

definition summary :: "float64 sample list \<Rightarrow> nat \<times> nat \<times> nat \<times> (panic + float64) list" where
  "summary samples =
     (let (lats, errorCount) = tally samples;
          successLatencies = sort lats
      in (length samples, length successLatencies, errorCount,
          if 0 < length successLatencies
          then [percentile successLatencies (to_float64 (1 / 2)), percentile successLatencies (to_float64 (19 / 20)),
                percentile successLatencies (to_float64 (99 / 100))]
          else []))"

definition milliseconds :: "int64 \<Rightarrow> float64" where
  "milliseconds ns = fdiv (float_of_int (sint ns)) (float_of_int 1000000)"

text \<open>The part of the run's metadata the analysis reads; there is none when the file cannot be read.\<close>

record run_meta =
  rm_StartedAtNS :: int64
  rm_FinishedAtNS :: int64
  rm_KillTriggeredAtNS :: int64
  rm_KillResolvedAddr :: string
  rm_KillError :: string

definition failover :: "float64 sample list \<Rightarrow> run_meta option \<Rightarrow> int64 \<times> float64" where
  "failover samples meta =
     (case meta of
        None \<Rightarrow> (0, Fin 0)
      | Some m \<Rightarrow>
          if 0 <s rm_KillTriggeredAtNS m then
            let failoverEndNS = firstSuccessfulCompletionAfter samples (rm_KillTriggeredAtNS m) in
            if 0 <s failoverEndNS then (failoverEndNS, milliseconds (failoverEndNS - rm_KillTriggeredAtNS m))
            else (failoverEndNS, Fin 0)
          else (0, Fin 0))"

section \<open>Coordinates\<close>

definition scale :: "float64 \<Rightarrow> float64 \<Rightarrow> float64 \<Rightarrow> int \<Rightarrow> int \<Rightarrow> float64" where
  "scale val mn mx outMin outMax =
     (if f_le mx mn then float_of_int outMin
      else
        let ratio = fdiv (fsub val mn) (fsub mx mn)
        in fadd (float_of_int outMin) (fmul ratio (float_of_int (outMax - outMin))))"

text \<open>\<open>writeCDFSVG\<close>: the upper end of the x axis, the points of the curve, the failover's line.\<close>

definition cdf_xMax :: "float64 list \<Rightarrow> float64" where
  "cdf_xMax latencies =
     (let xMax = last latencies;
          xMax1 = (if f_less xMax (Fin 1) then Fin 1 else xMax)
      in fmul xMax1 (to_float64 (21 / 20)))"

definition cdf_points :: "float64 list \<Rightarrow> (float64 \<times> float64) list" where
  "cdf_points latencies =
     map (\<lambda>(i, latency).
         (scale latency (Fin 0) (cdf_xMax latencies) 70 (900 - 30),
          scale (fdiv (float_of_int (int i + 1)) (float_of_int (int (length latencies)))) (Fin 0) (Fin 1)
            (520 - 60) 40))
       (enumerate 0 latencies)"

definition cdf_failoverX :: "float64 list \<Rightarrow> float64 \<Rightarrow> float64" where
  "cdf_failoverX latencies failoverLatencyMS =
     (if f_less (Fin 0) failoverLatencyMS
      then scale failoverLatencyMS (Fin 0) (cdf_xMax latencies) 70 (900 - 30) else Fin (-1))"

definition failoverLabel_shown :: "float64 \<Rightarrow> float64 \<Rightarrow> bool" where
  "failoverLabel_shown x failoverLatencyMS \<longleftrightarrow> \<not> (f_le x (Fin 0) \<or> f_le failoverLatencyMS (Fin 0))"

text \<open>\<open>writeTimelineSVG\<close>: the axes, the points with their colours, the failover window.\<close>

definition timeline_start :: "float64 sample list \<Rightarrow> run_meta option \<Rightarrow> panic + int64" where
  "timeline_start samples meta =
     (case elem samples 0 of
        Inl e \<Rightarrow> Inl e
      | Inr s \<Rightarrow>
          Inr (case meta of Some m \<Rightarrow> if 0 <s rm_StartedAtNS m then rm_StartedAtNS m else sm_StartNS s
               | None \<Rightarrow> sm_StartNS s))"

definition timeline_maxLatency :: "float64 sample list \<Rightarrow> float64" where
  "timeline_maxLatency samples =
     (let m = fold (\<lambda>s acc. if f_less acc (sm_LatencyMS s) then sm_LatencyMS s else acc) samples (Fin 0);
          m1 = (if f_less m (Fin 1) then Fin 1 else m)
      in fmul m1 (to_float64 (11 / 10)))"

definition timeline_points ::
  "float64 sample list \<Rightarrow> int64 \<Rightarrow> int64 \<Rightarrow> (float64 \<times> float64 \<times> string) list" where
  "timeline_points samples startNS endNS =
     map (\<lambda>s.
         (scale (milliseconds (sm_EndNS s - startNS)) (Fin 0) (milliseconds (endNS - startNS)) 70 (900 - 30),
          scale (sm_LatencyMS s) (Fin 0) (timeline_maxLatency samples) (520 - 60) 40,
          if sm_Status s \<noteq> ''OK'' then ''#dc2626'' else ''#2563eb''))
       samples"

definition timeline_window :: "int64 \<Rightarrow> int64 \<Rightarrow> run_meta option \<Rightarrow> int64 \<Rightarrow> (float64 \<times> float64) option" where
  "timeline_window startNS endNS meta failoverEndNS =
     (case meta of
        None \<Rightarrow> None
      | Some m \<Rightarrow>
          if 0 <s rm_KillTriggeredAtNS m \<and> rm_KillTriggeredAtNS m <s failoverEndNS then
            let x1 = scale (milliseconds (rm_KillTriggeredAtNS m - startNS)) (Fin 0) (milliseconds (endNS - startNS)) 70 (900 - 30);
                x2 = scale (milliseconds (failoverEndNS - startNS)) (Fin 0) (milliseconds (endNS - startNS)) 70 (900 - 30)
            in Some (x1, fsub x2 x1)
          else None)"

section \<open>The whole report\<close>

text \<open>What is printed and drawn: the two plots without their fixed text and labels.\<close>

record cdf_plot =
  cp_points :: "(float64 \<times> float64) list"
  cp_xMax :: float64
  cp_failover :: "float64 option"

record timeline_plot =
  tp_points :: "(float64 \<times> float64 \<times> string) list"
  tp_maxLatency :: float64
  tp_durationMS :: float64
  tp_window :: "(float64 \<times> float64) option"

record report =
  rp_rows :: nat
  rp_successes :: nat
  rp_failures :: nat
  rp_percentiles :: "float64 list"
  rp_failover :: "int64 \<times> float64"
  rp_cdf :: "cdf_plot option"
  rp_timeline :: timeline_plot

definition writeCDFSVG :: "float64 list \<Rightarrow> float64 \<Rightarrow> cdf_plot option" where
  "writeCDFSVG latencies failoverLatencyMS =
     (if length latencies = 0 then None
      else
        let x = cdf_failoverX latencies failoverLatencyMS
        in Some \<lparr>cp_points = cdf_points latencies, cp_xMax = cdf_xMax latencies,
             cp_failover = (if failoverLabel_shown x failoverLatencyMS then Some x else None)\<rparr>)"

definition writeTimelineSVG :: "float64 sample list \<Rightarrow> run_meta option \<Rightarrow> int64 \<Rightarrow> panic + timeline_plot" where
  "writeTimelineSVG samples meta failoverEndNS =
     (case timeline_start samples meta of
        Inl e \<Rightarrow> Inl e
      | Inr startNS \<Rightarrow>
          (case elem samples (int (length samples) - 1) of
             Inl e \<Rightarrow> Inl e
           | Inr s \<Rightarrow>
               Inr \<lparr>tp_points = timeline_points samples startNS (sm_EndNS s),
                 tp_maxLatency = timeline_maxLatency samples,
                 tp_durationMS = milliseconds (sm_EndNS s - startNS),
                 tp_window = timeline_window startNS (sm_EndNS s) meta failoverEndNS\<rparr>))"

fun all_or_panic :: "(panic + 'a) list \<Rightarrow> panic + 'a list" where
  "all_or_panic [] = Inr []"
| "all_or_panic (Inl e # xs) = Inl e"
| "all_or_panic (Inr x # xs) = (case all_or_panic xs of Inl e \<Rightarrow> Inl e | Inr ys \<Rightarrow> Inr (x # ys))"

text \<open>\<open>main\<close> on what \<open>readSamples\<close> and \<open>readMeta\<close> return: a panic, a fatal message, or the report.\<close>

definition analyze :: "panic + go_error + float64 sample list \<Rightarrow> run_meta option \<Rightarrow> panic + string + report" where
  "analyze input meta =
     (case input of
        Inl e \<Rightarrow> Inl e
      | Inr (Inl err) \<Rightarrow> Inr (Inl (''failed to read samples: '' @ error_text err))
      | Inr (Inr samples) \<Rightarrow>
          if length samples = 0 then Inr (Inl ''no samples found in CSV'')
          else
            let (n, successes, failures, percentiles) = summary samples;
                successLatencies = sort (fst (tally samples));
                (failoverEndNS, failoverLatencyMS) = failover samples meta
            in (case all_or_panic percentiles of
                  Inl e \<Rightarrow> Inl e
                | Inr ps \<Rightarrow>
                    (case writeTimelineSVG samples meta failoverEndNS of
                       Inl e \<Rightarrow> Inl e
                     | Inr timeline \<Rightarrow>
                         Inr (Inr \<lparr>rp_rows = n, rp_successes = successes, rp_failures = failures,
                           rp_percentiles = ps, rp_failover = (failoverEndNS, failoverLatencyMS),
                           rp_cdf = writeCDFSVG successLatencies failoverLatencyMS, rp_timeline = timeline\<rparr>))))"

section \<open>Finite values\<close>

definition sane :: "float64 \<Rightarrow> bool" where
  "sane v \<longleftrightarrow> (\<exists>a. v = Fin a \<and> binary64 a \<and> 0 \<le> a \<and> a < p2 1023)"

lemma p2_1023: "p2 1023 < p2 1024"
  by (simp add: p2_less_iff)

lemma small_p2: "a \<le> 2 ^ 53 \<Longrightarrow> a < p2 1023"
proof -
  have "p2 53 < p2 1023" by (simp add: p2_less_iff)
  moreover have "p2 53 = 2 ^ 53" by (simp add: p2_int)
  ultimately show "a \<le> 2 ^ 53 \<Longrightarrow> a < p2 1023" by linarith
qed

lemma float_of_int_exact: "\<bar>i\<bar> \<le> 2 ^ 53 \<Longrightarrow> float_of_int i = Fin (of_int i)"
proof -
  assume i: "\<bar>i\<bar> \<le> 2 ^ 53"
  then have "(of_int \<bar>i\<bar> :: rat) \<le> of_int (2 ^ 53)" by (simp only: of_int_le_iff)
  then have "\<bar>of_int i :: rat\<bar> < p2 1024" using small_p2 [of "\<bar>of_int i\<bar>"] p2_1023 by simp
  then show ?thesis using binary64_of_int [OF i] by (simp add: float_of_int_def to_float64_exact)
qed

lemma to_float64_range:
  assumes "binary64 a" and "binary64 b" and "a \<le> x" and "x \<le> b" and "\<bar>a\<bar> < p2 1024" and "\<bar>b\<bar> < p2 1024"
  shows "to_float64 x = Fin (round53 x) \<and> a \<le> round53 x \<and> round53 x \<le> b"
  using to_float64_between [of a x b] double.rnd_ge [OF assms(1,3)] double.rnd_le [OF assms(2,4)] assms(5,6) by blast

lemma round53_0 [simp]: "round53 0 = 0"
  by (simp add: round53_def)

lemma binary64_0 [simp]: "binary64 0"
  using binary64_of_int [of 0] by simp

lemma binary64_1 [simp]: "binary64 1"
  using binary64_of_int [of 1] by simp

lemma one_small [simp]: "1 < p2 1024"
  using small_p2 [of 1] p2_1023 by simp

text \<open>A difference of sane numbers is itself without overflow.\<close>

lemma fsub_sane:
  assumes "binary64 a" and "binary64 b" and "0 \<le> a" and "a \<le> b" and "b < p2 1024"
  shows "fsub (Fin b) (Fin a) = Fin (round53 (b - a)) \<and> 0 \<le> round53 (b - a) \<and> round53 (b - a) \<le> b"
  using to_float64_range [OF binary64_0 assms(2), of "b - a"] assms by (simp add: fsub_def)

section \<open>Percentiles stay between their neighbours\<close>

text \<open>The exact counterpart of the interpolation, on rationals with explicit rounding.\<close>

definition interpolate :: "rat \<Rightarrow> rat \<Rightarrow> rat \<Rightarrow> rat" where
  "interpolate a b w = round53 (a + round53 (round53 (b - a) * w))"

definition at_position :: "rat list \<Rightarrow> rat \<Rightarrow> rat" where
  "at_position vs pos =
     (let lo = nat \<lfloor>pos\<rfloor> in
      if \<lfloor>pos\<rfloor> = \<lceil>pos\<rceil> then vs ! lo else interpolate (vs ! lo) (vs ! Suc lo) (pos - of_int \<lfloor>pos\<rfloor>))"

definition sane_list :: "rat list \<Rightarrow> bool" where
  "sane_list vs \<longleftrightarrow> sorted vs \<and> (\<forall>a \<in> set vs. binary64 a \<and> 0 \<le> a \<and> a < p2 1023)"

lemma interpolate_fadd:
  assumes "binary64 a" and "binary64 b" and "0 \<le> a" and "a \<le> b" and "b < p2 1024"
    and "binary64 w" and "0 \<le> w" and "w \<le> 1 - 1 / 2 ^ 53"
  shows "fadd (Fin a) (fmul (fsub (Fin b) (Fin a)) (Fin w)) = Fin (interpolate a b w)
    \<and> a \<le> interpolate a b w \<and> interpolate a b w \<le> b"
proof -
  let ?d = "round53 (b - a)"
  have d: "fsub (Fin b) (Fin a) = Fin ?d" "0 \<le> ?d" "?d \<le> b" using fsub_sane [OF assms(1-5)] by auto
  have "?d * w \<le> ?d * 1" using d(2) assms(8) by (intro mult_left_mono) simp_all
  moreover have "0 \<le> ?d * w" using d(2) assms(7) by simp
  ultimately have m: "fmul (Fin ?d) (Fin w) = Fin (round53 (?d * w))"
    using to_float64_range [OF binary64_0 assms(2), of "?d * w"] d(2,3) assms(5) by auto
  have r: "a \<le> round53 (a + round53 (?d * w))" "round53 (a + round53 (?d * w)) \<le> b"
    using interpolation_bounds [OF assms(1,2,4,7,8)] by auto
  then have "to_float64 (a + round53 (?d * w)) = Fin (round53 (a + round53 (?d * w)))"
    using assms(3-5) by (intro to_float64_between [of a _ b]) auto
  then show ?thesis using d(1) m r by (auto simp: interpolate_def)
qed

lemma interpolate_mono:
  assumes "a \<le> b" and "v \<le> w"
  shows "interpolate a b v \<le> interpolate a b w"
proof -
  have "0 \<le> round53 (b - a)" using assms(1) by (intro double.rnd_ge) simp_all
  then have "round53 (b - a) * v \<le> round53 (b - a) * w" using assms(2) by (intro mult_left_mono)
  then show ?thesis unfolding interpolate_def by (intro double.rnd_mono add_left_mono)
qed

lemma position_bounds:
  assumes "binary64 p" and "0 \<le> p" and "p \<le> 1" and "0 \<le> n" and "n \<le> 2 ^ 53"
  shows "fmul (Fin p) (float_of_int n) = Fin (round53 (p * of_int n)) \<and> binary64 (round53 (p * of_int n))
    \<and> 0 \<le> round53 (p * of_int n) \<and> round53 (p * of_int n) \<le> of_int n"
proof -
  have n: "float_of_int n = Fin (of_int n)" "binary64 (of_int n)"
    using assms(4,5) by (simp_all add: float_of_int_exact binary64_of_int)
  have "(of_int n :: rat) \<le> of_int (2 ^ 53)" using assms(5) by (simp only: of_int_le_iff)
  then have lt: "\<bar>of_int n :: rat\<bar> < p2 1024" using small_p2 [of "of_int n"] p2_1023 assms(4) by simp
  have "p * of_int n \<le> 1 * of_int n" using assms(3,4) by (intro mult_right_mono) simp_all
  moreover have "0 \<le> p * of_int n" using assms(2,4) by simp
  ultimately have "to_float64 (p * of_int n) = Fin (round53 (p * of_int n)) \<and> 0 \<le> round53 (p * of_int n)
      \<and> round53 (p * of_int n) \<le> of_int n"
    using to_float64_range [OF binary64_0 n(2), of "p * of_int n"] lt by simp
  then show ?thesis using n(1) by (simp add: round53_binary64)
qed

text \<open>The neighbours of a position inside a list, and the value found there.\<close>

lemma position_neighbours:
  assumes "0 \<le> pos" and "pos \<le> of_int (int n - 1)"
  shows "nat \<lfloor>pos\<rfloor> < n" and "nat \<lceil>pos\<rceil> < n" and "int (nat \<lfloor>pos\<rfloor>) = \<lfloor>pos\<rfloor>" and "int (nat \<lceil>pos\<rceil>) = \<lceil>pos\<rceil>"
    and "\<lfloor>pos\<rfloor> \<noteq> \<lceil>pos\<rceil> \<Longrightarrow> nat \<lceil>pos\<rceil> = Suc (nat \<lfloor>pos\<rfloor>)"
proof -
  have f: "0 \<le> \<lfloor>pos\<rfloor>" "\<lfloor>pos\<rfloor> \<le> \<lceil>pos\<rceil>" using assms(1) floor_le_ceiling [of pos] by simp_all
  have c: "\<lceil>pos\<rceil> \<le> int n - 1" using assms(2) by (simp only: ceiling_le_iff)
  show "nat \<lfloor>pos\<rfloor> < n" "nat \<lceil>pos\<rceil> < n" using f c by linarith+
  show "int (nat \<lfloor>pos\<rfloor>) = \<lfloor>pos\<rfloor>" "int (nat \<lceil>pos\<rceil>) = \<lceil>pos\<rceil>" using f by simp_all
  show "nat \<lceil>pos\<rceil> = Suc (nat \<lfloor>pos\<rfloor>)" if "\<lfloor>pos\<rfloor> \<noteq> \<lceil>pos\<rceil>"
    using that f by (simp add: ceiling_altdef nat_add_distrib split: if_splits)
qed

lemma sane_list_nth:
  assumes "sane_list vs" and "i < length vs"
  shows "binary64 (vs ! i)" and "0 \<le> vs ! i" and "vs ! i < p2 1023" and "vs ! i < p2 1024"
proof -
  have "binary64 (vs ! i) \<and> 0 \<le> vs ! i \<and> vs ! i < p2 1023"
    using assms nth_mem [OF assms(2)] unfolding sane_list_def by blast
  then show "binary64 (vs ! i)" "0 \<le> vs ! i" "vs ! i < p2 1023" "vs ! i < p2 1024" using p2_1023 by auto
qed

lemma sane_list_mono: "sane_list vs \<Longrightarrow> i \<le> j \<Longrightarrow> j < length vs \<Longrightarrow> vs ! i \<le> vs ! j"
  by (simp add: sane_list_def sorted_nth_mono)

lemma at_position_fadd:
  assumes "sane_list vs" and "binary64 pos" and "0 \<le> pos" and "pos \<le> of_int (int (length vs) - 1)"
    and "\<lfloor>pos\<rfloor> \<noteq> \<lceil>pos\<rceil>"
  shows "fadd (Fin (vs ! nat \<lfloor>pos\<rfloor>))
      (fmul (fsub (Fin (vs ! nat \<lceil>pos\<rceil>)) (Fin (vs ! nat \<lfloor>pos\<rfloor>))) (Fin (pos - of_int \<lfloor>pos\<rfloor>))) =
    Fin (at_position vs pos) \<and> vs ! nat \<lfloor>pos\<rfloor> \<le> at_position vs pos \<and> at_position vs pos \<le> vs ! nat \<lceil>pos\<rceil>"
proof -
  note nb = position_neighbours [OF assms(3,4)]
  have hi: "nat \<lceil>pos\<rceil> = Suc (nat \<lfloor>pos\<rfloor>)" using nb(5) assms(5) .
  have le: "vs ! nat \<lfloor>pos\<rfloor> \<le> vs ! nat \<lceil>pos\<rceil>" using sane_list_mono [OF assms(1) _ nb(2)] hi by simp
  have "binary64 (pos - of_int \<lfloor>pos\<rfloor>)" "0 \<le> pos - of_int \<lfloor>pos\<rfloor>" "pos - of_int \<lfloor>pos\<rfloor> \<le> 1 - 1 / 2 ^ 53"
    using fraction_binary64 [OF assms(2,3)] by auto
  from interpolate_fadd [OF sane_list_nth(1) [OF assms(1) nb(1)] sane_list_nth(1) [OF assms(1) nb(2)]
      sane_list_nth(2) [OF assms(1) nb(1)] le sane_list_nth(4) [OF assms(1) nb(2)] this]
  show ?thesis using assms(5) hi by (simp add: at_position_def Let_def)
qed

lemma at_position_between:
  assumes "sane_list vs" and "binary64 pos" and "0 \<le> pos" and "pos \<le> of_int (int (length vs) - 1)"
  shows "vs ! nat \<lfloor>pos\<rfloor> \<le> at_position vs pos \<and> at_position vs pos \<le> vs ! nat \<lceil>pos\<rceil>"
proof (cases "\<lfloor>pos\<rfloor> = \<lceil>pos\<rceil>")
  case True
  then have "at_position vs pos = vs ! nat \<lceil>pos\<rceil>" by (simp add: at_position_def)
  then show ?thesis using True by simp
next
  case False
  then show ?thesis using at_position_fadd [OF assms False] by blast
qed

lemma at_position_mono:
  assumes "sane_list vs" and "binary64 pos" and "binary64 pos'" and "0 \<le> pos" and "pos \<le> pos'"
    and "pos' \<le> of_int (int (length vs) - 1)"
  shows "at_position vs pos \<le> at_position vs pos'"
proof -
  have le: "pos \<le> of_int (int (length vs) - 1)" "0 \<le> pos'" using assms(4-6) by linarith+
  note b = at_position_between [OF assms(1,2,4) le(1)] and b' = at_position_between [OF assms(1,3) le(2) assms(6)]
  note nb = position_neighbours [OF assms(4) le(1)] and nb' = position_neighbours [OF le(2) assms(6)]
  have fl: "\<lfloor>pos\<rfloor> \<le> \<lfloor>pos'\<rfloor>" using assms(5) by (rule floor_mono)
  show ?thesis
  proof (cases "\<lceil>pos\<rceil> \<le> \<lfloor>pos'\<rfloor>")
    case True
    then have "vs ! nat \<lceil>pos\<rceil> \<le> vs ! nat \<lfloor>pos'\<rfloor>" using nb'(1) by (intro sane_list_mono [OF assms(1)]) (simp_all add: nat_mono)
    then show ?thesis using b b' by linarith
  next
    case False
    then have same: "\<lfloor>pos'\<rfloor> = \<lfloor>pos\<rfloor>" "\<lfloor>pos\<rfloor> \<noteq> \<lceil>pos\<rceil>" using fl by (auto simp: ceiling_altdef split: if_splits)
    have "\<lceil>pos\<rceil> \<le> \<lceil>pos'\<rceil>" using assms(5) by (rule ceiling_mono)
    then have ne: "\<lfloor>pos'\<rfloor> \<noteq> \<lceil>pos'\<rceil>" using False by linarith
    have "Suc (nat \<lfloor>pos\<rfloor>) < length vs" using nb(2,5) same(2) by simp
    then have "vs ! nat \<lfloor>pos\<rfloor> \<le> vs ! Suc (nat \<lfloor>pos\<rfloor>)" by (intro sane_list_mono [OF assms(1)]) simp_all
    then have "interpolate (vs ! nat \<lfloor>pos\<rfloor>) (vs ! Suc (nat \<lfloor>pos\<rfloor>)) (pos - of_int \<lfloor>pos\<rfloor>)
        \<le> interpolate (vs ! nat \<lfloor>pos\<rfloor>) (vs ! Suc (nat \<lfloor>pos\<rfloor>)) (pos' - of_int \<lfloor>pos\<rfloor>)"
      using assms(5) by (intro interpolate_mono) simp_all
    then show ?thesis using same ne by (simp add: at_position_def Let_def)
  qed
qed

lemma percentile_at:
  assumes "sane_list vs" and "vs \<noteq> []" and "length vs \<le> 2 ^ 53" and "binary64 p" and "0 \<le> p" and "p \<le> 1"
  shows "percentile (map Fin vs) (Fin p) = Inr (Fin (at_position vs (round53 (p * of_int (int (length vs) - 1)))))"
proof (cases "length vs = 1")
  case True
  then obtain a where "vs = [a]" by (cases vs) auto
  then show ?thesis by (simp add: percentile_def elem_def at_position_def)
next
  case False
  then have n: "length vs \<noteq> 0" "length vs \<noteq> 1" using assms(2) by auto
  have "0 \<le> int (length vs) - 1" using n by linarith
  moreover have "int (length vs) - 1 \<le> 2 ^ 53" using assms(3) by simp
  ultimately have pos: "fmul (Fin p) (float_of_int (int (length vs) - 1)) = Fin (round53 (p * of_int (int (length vs) - 1)))"
      "binary64 (round53 (p * of_int (int (length vs) - 1)))" "0 \<le> round53 (p * of_int (int (length vs) - 1))"
      "round53 (p * of_int (int (length vs) - 1)) \<le> of_int (int (length vs) - 1)"
    using position_bounds [OF assms(4-6)] by blast+
  define pos where "pos = round53 (p * of_int (int (length vs) - 1))"
  note pos = pos [folded pos_def]
  note nb = position_neighbours [OF pos(3,4)]
  have el: "elem (map Fin vs) \<lfloor>pos\<rfloor> = Inr (Fin (vs ! nat \<lfloor>pos\<rfloor>))" "elem (map Fin vs) \<lceil>pos\<rceil> = Inr (Fin (vs ! nat \<lceil>pos\<rceil>))"
    using elem_nth [of "nat \<lfloor>pos\<rfloor>" "map Fin vs"] elem_nth [of "nat \<lceil>pos\<rceil>" "map Fin vs"] nb(1,2)
    unfolding nb(3,4) by simp_all
  have "percentile (map Fin vs) (Fin p) = Inr (Fin (at_position vs pos))"
  proof (cases "\<lfloor>pos\<rfloor> = \<lceil>pos\<rceil>")
    case True
    then show ?thesis using n pos(1) el by (simp add: percentile_def at_position_def Let_def)
  next
    case False
    let ?w = "pos - of_int \<lfloor>pos\<rfloor>"
    have w: "binary64 ?w" "0 \<le> ?w" "?w \<le> 1 - 1 / 2 ^ 53" using fraction_binary64 [OF pos(2,3)] by auto
    have "\<bar>int i\<bar> \<le> 2 ^ 53" if "i < length vs" for i using that assms(3) by simp
    from this [OF nb(1)] have "float_of_int \<lfloor>pos\<rfloor> = Fin (of_int \<lfloor>pos\<rfloor>)" unfolding nb(3) by (rule float_of_int_exact)
    moreover have "?w < p2 1024" using w(3) one_small by linarith
    ultimately have "fsub (Fin pos) (float_of_int \<lfloor>pos\<rfloor>) = Fin ?w"
      using w(1,2) by (simp add: fsub_def to_float64_exact)
    then show ?thesis
      using n pos(1) False el at_position_fadd [OF assms(1) pos(2-4) False] by (simp add: percentile_def Let_def)
  qed
  then show ?thesis by (simp add: pos_def)
qed

section \<open>The report of a run\<close>

lemma sorted_map_Fin: "sorted (map Fin vs) \<longleftrightarrow> sorted vs"
  by (simp add: sorted_map)

lemma sane_values:
  assumes "sorted l" and "\<forall>v \<in> set l. sane v"
  shows "\<exists>vs. l = map Fin vs \<and> sane_list vs"
proof -
  have "\<forall>v \<in> set l. \<exists>a. v = Fin a" using assms(2) by (auto simp: sane_def)
  then obtain vs where vs: "l = map Fin vs" by (metis ex_map_conv)
  have "\<forall>a \<in> set vs. binary64 a \<and> 0 \<le> a \<and> a < p2 1023" using assms(2) by (auto simp: vs sane_def)
  then show ?thesis using assms(1) vs by (auto simp: sane_list_def sorted_map_Fin)
qed

lemma to_float64_unit:
  assumes "0 \<le> x" and "x \<le> 1"
  shows "to_float64 x = Fin (round53 x) \<and> binary64 (round53 x) \<and> 0 \<le> round53 x \<and> round53 x \<le> 1"
  using to_float64_range [OF binary64_0 binary64_1 assms] by (simp add: round53_binary64)

lemma tally_fold:
  "fold (\<lambda>s (lats, errs). if sm_Status s = ''OK'' then (lats @ [sm_LatencyMS s], errs) else (lats, errs + 1))
     samples (l, n) =
   (l @ map sm_LatencyMS (filter (\<lambda>s. sm_Status s = ''OK'') samples),
    n + length (filter (\<lambda>s. sm_Status s \<noteq> ''OK'') samples))"
  by (induction samples arbitrary: l n) auto

lemma tally_filter:
  "tally samples = (map sm_LatencyMS (filter (\<lambda>s. sm_Status s = ''OK'') samples),
     length (filter (\<lambda>s. sm_Status s \<noteq> ''OK'') samples))"
  by (simp add: tally_def tally_fold)

text \<open>Percentiles of one list: between its ends, and in the order of their ranks.\<close>

lemma percentiles_sorted:
  assumes "l \<noteq> []" and "\<forall>v \<in> set l. sane v" and "length l \<le> 2 ^ 53" and "0 \<le> x" and "x \<le> y" and "y \<le> 1"
  shows "\<exists>a b. percentile (sort l) (to_float64 x) = Inr a \<and> percentile (sort l) (to_float64 y) = Inr b
    \<and> Min (set l) \<le> a \<and> a \<le> b \<and> b \<le> Max (set l)"
proof -
  obtain vs where vs: "sort l = map Fin vs" "sane_list vs" using sane_values [of "sort l"] assms(2) by auto
  have len: "length vs = length l" using arg_cong [OF vs(1), of length] by simp
  then have ne: "vs \<noteq> []" and le: "length vs \<le> 2 ^ 53" using assms(1,3) by auto
  have q: "to_float64 x = Fin (round53 x) \<and> binary64 (round53 x) \<and> 0 \<le> round53 x \<and> round53 x \<le> 1"
      "to_float64 y = Fin (round53 y) \<and> binary64 (round53 y) \<and> 0 \<le> round53 y \<and> round53 y \<le> 1"
    using assms(4-6) by (simp_all add: to_float64_unit)
  define n where "n = int (length vs) - 1"
  define i where "i = round53 (round53 x * of_int n)"
  define j where "j = round53 (round53 y * of_int n)"
  have n: "0 \<le> n" "n \<le> 2 ^ 53" using ne le by (cases vs; simp add: n_def)+
  have i: "binary64 i" "0 \<le> i" "i \<le> of_int n" and j: "binary64 j" "0 \<le> j" "j \<le> of_int n"
    using position_bounds [of "round53 x" n] position_bounds [of "round53 y" n] q n by (simp_all add: i_def j_def)
  have "round53 x * of_int n \<le> round53 y * of_int n"
    using n assms(5) by (intro mult_right_mono double.rnd_mono) simp_all
  then have ij: "i \<le> j" unfolding i_def j_def by (rule double.rnd_mono)
  note bi = at_position_between [OF vs(2) i [unfolded n_def]] and bj = at_position_between [OF vs(2) j [unfolded n_def]]
  note m = at_position_mono [OF vs(2) i(1) j(1) i(2) ij j(3) [unfolded n_def]]
  have mem: "Fin (vs ! k) \<in> set l" if "k < length vs" for k
    using that arg_cong [OF vs(1), of set] by simp
  have "Min (set l) \<le> Fin (vs ! nat \<lfloor>i\<rfloor>)"
    using mem [OF position_neighbours(1) [OF i(2,3) [unfolded n_def]]] by (intro Min_le) simp_all
  also have "Fin (vs ! nat \<lfloor>i\<rfloor>) \<le> Fin (at_position vs i)" using bi by simp
  finally have lo: "Min (set l) \<le> Fin (at_position vs i)" .
  have "Fin (at_position vs j) \<le> Fin (vs ! nat \<lceil>j\<rceil>)" using bj by simp
  also have "\<dots> \<le> Max (set l)"
    using mem [OF position_neighbours(2) [OF j(2,3) [unfolded n_def]]] by (intro Max_ge) simp_all
  finally have hi: "Fin (at_position vs j) \<le> Max (set l)" .
  have "percentile (sort l) (to_float64 x) = Inr (Fin (at_position vs i))"
      "percentile (sort l) (to_float64 y) = Inr (Fin (at_position vs j))"
    using percentile_at [OF vs(2) ne le] q by (simp_all add: vs(1) i_def j_def n_def)
  then show ?thesis using lo hi m by simp
qed

lemma timeline_total:
  assumes "samples \<noteq> []"
  shows "\<exists>startNS. timeline_start samples meta = Inr startNS \<and>
    writeTimelineSVG samples meta failoverEndNS =
      Inr \<lparr>tp_points = timeline_points samples startNS (sm_EndNS (last samples)),
        tp_maxLatency = timeline_maxLatency samples,
        tp_durationMS = milliseconds (sm_EndNS (last samples) - startNS),
        tp_window = timeline_window startNS (sm_EndNS (last samples)) meta failoverEndNS\<rparr>"
proof -
  have "elem samples 0 = Inr (hd samples)"
    using assms elem_nth [of 0 samples] by (simp add: hd_conv_nth)
  then obtain startNS where "timeline_start samples meta = Inr startNS" by (simp add: timeline_start_def)
  moreover have last: "elem samples (int (length samples) - 1) = Inr (last samples)"
  proof -
    have "int (length samples) - 1 = int (length samples - 1)" using assms by (cases samples) simp_all
    then show ?thesis unfolding last_conv_nth [OF assms] using elem_nth [of "length samples - 1" samples] assms
      by (simp only: length_greater_0_conv diff_less zero_less_one)
  qed
  ultimately show ?thesis by (simp only: writeTimelineSVG_def sum.case simp_thms ex_simps)  simp
qed

lemma ok_latencies:
  "{sm_LatencyMS s | s. s \<in> set samples \<and> sm_Status s = ''OK''} =
   set (map sm_LatencyMS (filter (\<lambda>s. sm_Status s = ''OK'') samples))"
  by auto

text \<open>The report of a list of samples, part by part.\<close>

lemma analyze_samples:
  assumes "samples \<noteq> []" and "summary samples = (n, successes, failures, percentiles)"
    and "all_or_panic percentiles = Inr ps" and "failover samples meta = (stop, latency)"
    and "writeTimelineSVG samples meta stop = Inr timeline"
  shows "analyze (Inr (Inr samples)) meta = Inr (Inr \<lparr>rp_rows = n, rp_successes = successes, rp_failures = failures,
    rp_percentiles = ps, rp_failover = (stop, latency), rp_cdf = writeCDFSVG (sort (fst (tally samples))) latency,
    rp_timeline = timeline\<rparr>)"
  using assms by (simp add: analyze_def)

lemma analyze_failover: "analyze (Inr (Inr samples)) meta = Inr (Inr rp) \<Longrightarrow> rp_failover rp = failover samples meta"
  by (auto simp: analyze_def split: if_splits prod.splits sum.splits)

lemma report_of_samples:
  assumes "samples \<noteq> []" and "length samples \<le> 2 ^ 53"
    and "\<forall>s \<in> set samples. sm_Status s = ''OK'' \<longrightarrow> sane (sm_LatencyMS s)"
  shows "\<exists>rp. analyze (Inr (Inr samples)) meta = Inr (Inr rp) \<and> rp_rows rp = length samples
    \<and> rp_successes rp = length (filter (\<lambda>s. sm_Status s = ''OK'') samples)
    \<and> rp_successes rp + rp_failures rp = rp_rows rp
    \<and> (let oks = {sm_LatencyMS s | s. s \<in> set samples \<and> sm_Status s = ''OK''} in
       if oks = {} then rp_percentiles rp = [] \<and> rp_cdf rp = None
       else \<exists>p50 p95 p99. rp_percentiles rp = [p50, p95, p99]
         \<and> Min oks \<le> p50 \<and> p50 \<le> p95 \<and> p95 \<le> p99 \<and> p99 \<le> Max oks)"
proof -
  define l where "l = map sm_LatencyMS (filter (\<lambda>s. sm_Status s = ''OK'') samples)"
  define errs where "errs = length (filter (\<lambda>s. sm_Status s \<noteq> ''OK'') samples)"
  obtain stop latency where f: "failover samples meta = (stop, latency)" by (cases "failover samples meta")
  obtain timeline where t: "writeTimelineSVG samples meta stop = Inr timeline"
    using timeline_total [OF assms(1)] by blast
  have sum: "length l + errs = length samples"
    unfolding l_def errs_def by (simp add: sum_length_filter_compl)
  have oks: "{sm_LatencyMS s | s. s \<in> set samples \<and> sm_Status s = ''OK''} = set l" unfolding ok_latencies l_def ..
  have ok_len: "length l = length (filter (\<lambda>s. sm_Status s = ''OK'') samples)" by (simp add: l_def)
  have sane: "\<forall>v \<in> set l. sane v" using assms(3) by (auto simp: l_def)
  have len: "length l \<le> 2 ^ 53" using sum assms(2) by linarith
  have ty: "tally samples = (l, errs)" by (simp add: tally_filter l_def errs_def)
  show ?thesis
  proof (cases "l = []")
    case True
    then have "summary samples = (length samples, 0, errs, [])" by (simp add: summary_def ty)
    from analyze_samples [OF assms(1) this _ f t, of "[]"] show ?thesis
      using True sum ok_len by (simp add: oks ty writeCDFSVG_def)
  next
    case False
    obtain a b where ab: "percentile (sort l) (to_float64 (1 / 2)) = Inr a"
        "percentile (sort l) (to_float64 (19 / 20)) = Inr b" "Min (set l) \<le> a" "a \<le> b"
      using percentiles_sorted [OF False sane len, of "1 / 2" "19 / 20"] by auto
    obtain b' c where bc: "percentile (sort l) (to_float64 (19 / 20)) = Inr b'"
        "percentile (sort l) (to_float64 (99 / 100)) = Inr c" "b' \<le> c" "c \<le> Max (set l)"
      using percentiles_sorted [OF False sane len, of "19 / 20" "99 / 100"] by auto
    have "sort l \<noteq> []" using False by (metis length_sort length_0_conv)
    then have "summary samples = (length samples, length l, errs, [Inr a, Inr b, Inr c])"
      using False ab bc by (simp add: summary_def ty Let_def)
    from analyze_samples [OF assms(1) this _ f t, of "[a, b, c]"] show ?thesis
      using False ab bc sum ok_len by (simp add: oks)
  qed
qed


definition sample_ms :: "rat \<Rightarrow> string \<Rightarrow> float64 sample" where
  "sample_ms v st = \<lparr>sm_StartNS = 1, sm_EndNS = 5, sm_LatencyMS = Fin v, sm_Status = st, sm_AttemptCount = 1\<rparr>"


end
