(* ===== verification/Plots.thy ===== *)
theory Plots
  imports Report
begin

text \<open>
  The two plots of \<open>scripts/analyze.go\<close> stay inside their frames: the coordinate \<open>scale\<close> computes is
  finite, lies between the ends of its axis and moves with its value, rounding included; hence the
  points of the latency distribution and of the timeline, and the failover window.  The failover
  line of the distribution plot is the exception: nothing bounds the failover latency.
\<close>

section \<open>Coordinates\<close>

text \<open>The exact counterpart of \<open>scale\<close> on an axis that starts at 0.\<close>

definition place :: "rat \<Rightarrow> rat \<Rightarrow> int \<Rightarrow> int \<Rightarrow> rat" where
  "place v m lo hi = round53 (of_int lo + round53 (round53 (v / m) * of_int (hi - lo)))"

definition coordinate :: "int \<Rightarrow> bool" where
  "coordinate i \<longleftrightarrow> 0 \<le> i \<and> i \<le> 1000"

lemma coordinate_values: "coordinate i \<Longrightarrow> binary64 (of_int i) \<and> \<bar>of_int i :: rat\<bar> < p2 1024"
proof -
  assume "coordinate i"
  then have i: "0 \<le> i" "i \<le> 1000" by (simp_all add: coordinate_def)
  then have "(of_int i :: rat) \<le> of_int 1000" by (simp only: of_int_le_iff)
  then have "(of_int i :: rat) < p2 1023" by (intro small_p2) simp
  then show ?thesis using i p2_1023 binary64_of_int [of i] by simp
qed

lemma coordinate_diff:
  assumes "coordinate lo" and "coordinate hi"
  shows "binary64 (of_int (hi - lo)) \<and> \<bar>of_int (hi - lo) :: rat\<bar> < p2 1024 \<and> float_of_int (hi - lo) = Fin (of_int (hi - lo))"
proof -
  have d: "\<bar>hi - lo\<bar> \<le> 1000" using assms unfolding coordinate_def by linarith
  then have "(of_int \<bar>hi - lo\<bar> :: rat) \<le> of_int 1000" by (simp only: of_int_le_iff)
  then have "\<bar>of_int (hi - lo) :: rat\<bar> < p2 1023" by (intro small_p2) simp
  then show ?thesis using d p2_1023 binary64_of_int [of "hi - lo"] float_of_int_exact [of "hi - lo"] by simp
qed

lemma ratio_unit: "0 \<le> v \<Longrightarrow> v \<le> m \<Longrightarrow> 0 \<le> v / m \<and> v / (m :: rat) \<le> 1"
  by (cases "m = 0") (simp_all add: divide_le_eq)

lemma product_between:
  assumes "coordinate lo" and "coordinate hi" and "0 \<le> r" and "r \<le> 1"
  shows "to_float64 (r * of_int (hi - lo)) = Fin (round53 (r * of_int (hi - lo)))
    \<and> (if lo \<le> hi then 0 \<le> round53 (r * of_int (hi - lo)) \<and> round53 (r * of_int (hi - lo)) \<le> of_int (hi - lo)
        else of_int (hi - lo) \<le> round53 (r * of_int (hi - lo)) \<and> round53 (r * of_int (hi - lo)) \<le> 0)"
proof -
  note d = coordinate_diff [OF assms(1,2)]
  show ?thesis
  proof (cases "lo \<le> hi")
    case True
    then have "0 \<le> (of_int (hi - lo) :: rat)" by simp
    then have "0 \<le> r * of_int (hi - lo)" "r * of_int (hi - lo) \<le> of_int (hi - lo)"
      using assms(3,4) mult_right_mono [of r 1 "of_int (hi - lo)"] by simp_all
    from to_float64_range [OF binary64_0 _ this] show ?thesis using True d by simp
  next
    case False
    then have "(of_int (hi - lo) :: rat) \<le> 0" by simp
    then have "r * of_int (hi - lo) \<le> 0" "of_int (hi - lo) \<le> r * of_int (hi - lo)"
      using assms(3,4) mult_right_mono_neg [of r 1 "of_int (hi - lo)"] by (simp_all add: mult_nonneg_nonpos)
    from to_float64_range [OF _ binary64_0 this(2,1)] show ?thesis using False d by simp
  qed
qed

lemma scale_place:
  assumes "binary64 v" and "0 \<le> v" and "v \<le> m" and "binary64 m" and "m < p2 1024"
    and "coordinate lo" and "coordinate hi"
  shows "scale (Fin v) (Fin 0) (Fin m) lo hi = Fin (place v m lo hi)
    \<and> of_int (min lo hi) \<le> place v m lo hi \<and> place v m lo hi \<le> of_int (max lo hi)"
proof -
  define r where "r = round53 (v / m)"
  define t where "t = round53 (r * of_int (hi - lo))"
  have r: "to_float64 (v / m) = Fin r" "0 \<le> r" "r \<le> 1"
    using to_float64_unit [of "v / m"] ratio_unit [OF assms(2,3)] by (simp_all add: r_def)
  note t = product_between [OF assms(6,7) r(2,3), folded t_def]
  have ends: "of_int (min lo hi) \<le> of_int lo + t" "of_int lo + t \<le> of_int (max lo hi)"
    using t by (auto split: if_splits)
  have c: "coordinate (min lo hi)" "coordinate (max lo hi)" using assms(6,7) by (auto simp: coordinate_def min_def max_def)
  have s: "to_float64 (of_int lo + t) = Fin (place v m lo hi)" "of_int (min lo hi) \<le> place v m lo hi"
      "place v m lo hi \<le> of_int (max lo hi)"
    using to_float64_range [OF _ _ ends] coordinate_values [OF c(1)] coordinate_values [OF c(2)]
    by (simp_all add: place_def t_def r_def)
  have lo: "float_of_int lo = Fin (of_int lo)" using assms(6) by (intro float_of_int_exact) (simp add: coordinate_def)
  have "scale (Fin v) (Fin 0) (Fin m) lo hi = Fin (place v m lo hi)"
  proof (cases "m = 0")
    case True
    have "round53 (of_int lo) = of_int lo" using coordinate_values [OF assms(6)] by (simp add: double.rnd_exact)
    then show ?thesis using True lo by (simp add: scale_def place_def)
  next
    case False
    have "\<bar>v\<bar> < p2 1024" "\<bar>m\<bar> < p2 1024" using assms(2,3,5) by linarith+
    then have "fsub (Fin v) (Fin 0) = Fin v" "fsub (Fin m) (Fin 0) = Fin m"
      using assms(1,4) by (simp_all add: fsub_def to_float64_exact)
    moreover have "\<not> f_le (Fin m) (Fin 0)" using False assms(2,3) by simp
    moreover have "float_of_int (hi - lo) = Fin (of_int (hi - lo))" using coordinate_diff [OF assms(6,7)] by simp
    ultimately show ?thesis using False r(1) t s(1) lo by (simp add: scale_def Let_def)
  qed
  then show ?thesis using s by simp
qed

lemma place_mono:
  assumes "0 \<le> m" and "v \<le> w"
  shows "lo \<le> hi \<Longrightarrow> place v m lo hi \<le> place w m lo hi"
    and "hi \<le> lo \<Longrightarrow> place w m lo hi \<le> place v m lo hi"
proof -
  have r: "round53 (v / m) \<le> round53 (w / m)" using assms by (intro double.rnd_mono divide_right_mono)
  show "place v m lo hi \<le> place w m lo hi" if "lo \<le> hi"
  proof -
    have "round53 (v / m) * of_int (hi - lo) \<le> round53 (w / m) * of_int (hi - lo)"
      using that r by (intro mult_right_mono) simp_all
    then show ?thesis unfolding place_def by (intro double.rnd_mono add_left_mono)
  qed
  show "place w m lo hi \<le> place v m lo hi" if "hi \<le> lo"
  proof -
    have "round53 (w / m) * of_int (hi - lo) \<le> round53 (v / m) * of_int (hi - lo)"
      using that r by (intro mult_right_mono_neg) simp_all
    then show ?thesis unfolding place_def by (intro double.rnd_mono add_left_mono)
  qed
qed

text \<open>The upper end of an axis: the greatest value times a factor between 1 and 3/2.\<close>

lemma axis_end:
  assumes "binary64 a" and "0 \<le> a" and "a < p2 1023" and "1 \<le> c" and "c \<le> 3 / 2"
  shows "\<exists>m. fmul (Fin a) (to_float64 c) = Fin m \<and> binary64 m \<and> a \<le> m \<and> m < p2 1024"
proof -
  have b: "binary64 (3 * p2 k)" if "-1074 \<le> k" for k using that by (intro binary64I [of _ 3 k]) simp_all
  have half: "3 / 2 = 3 * p2 (-1)" by (simp add: p2_def)
  have p: "p2 1023 = 2 * p2 1022" "p2 1024 = 4 * p2 1022" using p2_split [of 1022 1023] p2_split [of 1022 1024] by simp_all
  have "3 / 2 \<le> (2 ^ 53 :: rat)" by simp
  then have s: "\<bar>3 / 2 :: rat\<bar> < p2 1024" using small_p2 [of "3 / 2"] p2_1023 by simp
  have c: "to_float64 c = Fin (round53 c)" "1 \<le> round53 c" "round53 c \<le> 3 / 2"
    using to_float64_range [OF binary64_1 b [of "-1"], of c] assms(4,5) s one_small by (simp_all flip: half)
  have "a * 1 \<le> a * round53 c" using assms(2) c(2) by (intro mult_left_mono)
  moreover have "a * round53 c \<le> p2 1023 * (3 / 2)" using assms(2,3) c(2,3) by (intro mult_mono) simp_all
  then have "a * round53 c \<le> 3 * p2 1022" by (simp add: p(1))
  moreover have "\<bar>a\<bar> < p2 1024" "\<bar>3 * p2 1022\<bar> < p2 1024" using assms(2,3) p2_pos [of 1022] by (simp_all add: p abs_mult)
  ultimately have "to_float64 (a * round53 c) = Fin (round53 (a * round53 c)) \<and> a \<le> round53 (a * round53 c)
      \<and> round53 (a * round53 c) \<le> 3 * p2 1022"
    using to_float64_range [OF assms(1) b [of 1022], of "a * round53 c"] by simp
  moreover have "3 * p2 1022 < p2 1024" by (simp add: p(2))
  ultimately show ?thesis using c(1) by (intro exI [of _ "round53 (a * round53 c)"]) (simp add: round53_binary64)
qed

section \<open>The distribution plot\<close>

lemma cdf_xMax_value:
  assumes "sane_list vs" and "vs \<noteq> []"
  shows "\<exists>m. cdf_xMax (map Fin vs) = Fin m \<and> binary64 m \<and> m < p2 1024 \<and> 1 \<le> m \<and> (\<forall>v \<in> set vs. v \<le> m)"
proof -
  define a where "a = max 1 (last vs)"
  have l: "binary64 (last vs)" "last vs < p2 1023"
    using assms by (simp_all add: sane_list_def)
  have one: "1 < p2 1023" by (rule small_p2) simp
  have a: "binary64 a" "0 \<le> a" "a < p2 1023" "1 \<le> a" using l one by (auto simp: a_def max_def)
  obtain m where m: "fmul (Fin a) (to_float64 (21 / 20)) = Fin m" "binary64 m" "a \<le> m" "m < p2 1024"
    using axis_end [OF a(1-3), of "21 / 20"] by auto
  have "v \<le> last vs" if v: "v \<in> set vs" for v
  proof -
    obtain i where "i < length vs" "v = vs ! i" using v by (auto simp: in_set_conv_nth)
    then show ?thesis using sane_list_mono [OF assms(1), of i "length vs - 1"] last_conv_nth [OF assms(2)] by simp
  qed
  then have "\<forall>v \<in> set vs. v \<le> m" using m(3) by (force simp: a_def)
  moreover have "cdf_xMax (map Fin vs) = Fin m"
    using m(1) assms(2) by (simp add: cdf_xMax_def last_map a_def max_def split: if_splits)
  ultimately show ?thesis using m a(4) by (intro exI [of _ m]) auto
qed

text \<open>The share of the first operations, as a float64.\<close>

definition share :: "nat \<Rightarrow> nat \<Rightarrow> rat" where
  "share i n = round53 (of_nat (Suc i) / of_nat n)"

lemma share_value:
  assumes "i < n" and "n \<le> 2 ^ 53"
  shows "fdiv (float_of_int (int i + 1)) (float_of_int (int n)) = Fin (share i n)
    \<and> binary64 (share i n) \<and> 0 \<le> share i n \<and> share i n \<le> 1"
proof -
  have e: "float_of_int (int i + 1) = Fin (of_int (int i + 1))" "float_of_int (int n) = Fin (of_nat n)"
    using assms by (simp_all add: float_of_int_exact)
  have suc: "of_int (int i + 1) = (of_nat (Suc i) :: rat)" by simp
  have "0 \<le> of_nat (Suc i) / (of_nat n :: rat)" "of_nat (Suc i) / (of_nat n :: rat) \<le> 1"
    using assms(1) by (simp_all add: divide_le_eq del: of_nat_Suc)
  from to_float64_unit [OF this] show ?thesis using assms(1) unfolding e suc share_def by simp
qed

lemma share_mono: "i \<le> j \<Longrightarrow> share i n \<le> share j n"
  unfolding share_def by (intro double.rnd_mono divide_right_mono) simp_all

lemma share_last: "0 < n \<Longrightarrow> share (n - 1) n = 1"
  by (simp add: share_def double.rnd_exact)

lemma cdf_point:
  assumes "sane_list vs" and "cdf_xMax (map Fin vs) = Fin m" and "binary64 m" and "m < p2 1024" and "vs ! i \<le> m"
    and "i < length vs" and "length vs \<le> 2 ^ 53"
  shows "cdf_points (map Fin vs) ! i = (Fin (place (vs ! i) m 70 870), Fin (place (share i (length vs)) 1 460 40))
    \<and> 70 \<le> place (vs ! i) m 70 870 \<and> place (vs ! i) m 70 870 \<le> 870
    \<and> 40 \<le> place (share i (length vs)) 1 460 40 \<and> place (share i (length vs)) 1 460 40 \<le> 460"
proof -
  note v = sane_list_nth [OF assms(1,6)]
  note q = share_value [OF assms(6,7)]
  have x: "scale (Fin (vs ! i)) (Fin 0) (Fin m) 70 870 = Fin (place (vs ! i) m 70 870)
      \<and> 70 \<le> place (vs ! i) m 70 870 \<and> place (vs ! i) m 70 870 \<le> 870"
    using scale_place [OF v(1,2) assms(5,3,4), of 70 870] by (simp add: coordinate_def)
  have y: "scale (Fin (share i (length vs))) (Fin 0) (Fin 1) 460 40 = Fin (place (share i (length vs)) 1 460 40)
      \<and> 40 \<le> place (share i (length vs)) 1 460 40 \<and> place (share i (length vs)) 1 460 40 \<le> 460"
    using scale_place [of "share i (length vs)" 1 460 40] q by (simp add: coordinate_def)
  show ?thesis using x y q assms(2,6) by (simp add: cdf_points_def nth_enumerate_eq)
qed

text \<open>The distribution plot.  For the sorted latencies of at least one successful operation, finite
  and not negative, every point of the curve lies inside the frame (x from 70 to 870, y from 40 to
  460 pixels), rounding included; there is one point per operation, the curve runs to the right and
  upwards, and its last point is at the 100 percent line exactly.\<close>

lemma cdf_curve_in_frame:
  assumes "sorted latencies" and "latencies \<noteq> []" and "\<forall>v \<in> set latencies. sane v" and "length latencies \<le> 2 ^ 53"
  shows "let points = cdf_points latencies in length points = length latencies
    \<and> (\<forall>(x, y) \<in> set points. Fin 70 \<le> x \<and> x \<le> Fin 870 \<and> Fin 40 \<le> y \<and> y \<le> Fin 460)
    \<and> sorted_wrt (\<lambda>(x, y) (x', y'). x \<le> x' \<and> y' \<le> y) points
    \<and> snd (last points) = Fin 40"
proof -
  obtain vs where vs: "latencies = map Fin vs" "sane_list vs" using sane_values [OF assms(1,3)] by blast
  then have ne: "vs \<noteq> []" and le: "length vs \<le> 2 ^ 53" using assms(2,4) by simp_all
  obtain m where m: "cdf_xMax (map Fin vs) = Fin m" "binary64 m" "m < p2 1024" "1 \<le> m" "\<forall>v \<in> set vs. v \<le> m"
    using cdf_xMax_value [OF vs(2) ne] by blast
  note pt = cdf_point [OF vs(2) m(1-3) _ _ le]
  have vm: "vs ! i \<le> m" if "i < length vs" for i using that m(5) by simp
  have len: "length (cdf_points (map Fin vs)) = length vs" by (simp add: cdf_points_def)
  have frame: "\<forall>(x, y) \<in> set (cdf_points (map Fin vs)). Fin 70 \<le> x \<and> x \<le> Fin 870 \<and> Fin 40 \<le> y \<and> y \<le> Fin 460"
  proof -
    have "case cdf_points (map Fin vs) ! i of (x, y) \<Rightarrow> Fin 70 \<le> x \<and> x \<le> Fin 870 \<and> Fin 40 \<le> y \<and> y \<le> Fin 460"
      if "i < length vs" for i using pt [OF vm [OF that] that] by simp
    then show ?thesis unfolding all_set_conv_all_nth len by blast
  qed
  have mono: "sorted_wrt (\<lambda>(x, y) (x', y'). x \<le> x' \<and> y' \<le> y) (cdf_points (map Fin vs))"
  proof -
    have "(\<lambda>(x, y) (x', y'). x \<le> x' \<and> y' \<le> y) (cdf_points (map Fin vs) ! i) (cdf_points (map Fin vs) ! j)"
      if ij: "i < j" "j < length vs" for i j
    proof -
      have i: "i < length vs" using ij by simp
      have "place (vs ! i) m 70 870 \<le> place (vs ! j) m 70 870"
        using m(4) ij sane_list_mono [OF vs(2), of i j] by (intro place_mono(1)) simp_all
      moreover have "place (share j (length vs)) 1 460 40 \<le> place (share i (length vs)) 1 460 40"
        using share_mono [of i j] ij by (intro place_mono(2)) simp_all
      ultimately show ?thesis using pt [OF vm [OF i] i] pt [OF vm [OF ij(2)] ij(2)] by simp
    qed
    then show ?thesis by (simp add: sorted_wrt_iff_nth_less len)
  qed
  have n: "length vs - 1 < length vs" using ne by simp
  have "cdf_points (map Fin vs) \<noteq> []" using len ne by (metis length_0_conv)
  then have "last (cdf_points (map Fin vs)) = cdf_points (map Fin vs) ! (length vs - 1)" by (simp add: last_conv_nth len)
  moreover have "place 1 1 460 40 = 40"
  proof -
    have r: "round53 1 = 1" "round53 (- 420) = - 420" "round53 40 = 40"
      using binary64_of_int [of "- 420"] binary64_of_int [of 40] by (simp_all add: double.rnd_exact)
    show ?thesis by (simp add: place_def r)
  qed
  ultimately have "snd (last (cdf_points (map Fin vs))) = Fin 40"
    using pt [OF vm [OF n] n] share_last [of "length vs"] ne by simp
  then show ?thesis using frame mono len by (simp add: vs(1) Let_def)
qed

lemma cdf_curve_in_frame_witness:
  "let points = cdf_points [Fin 2, Fin 4, Fin 4] in length points = 3 \<and> snd (last points) = Fin 40
     \<and> (\<forall>(x, y) \<in> set points. Fin 70 \<le> x \<and> x \<le> Fin 870)"
proof -
  have "sane (Fin (of_int i))" if "0 \<le> i" "i \<le> 10" for i
    using that binary64_of_int [of i] small_p2 [of "of_int i"] by (simp add: sane_def)
  from this [of 2] this [of 4] have "\<forall>v \<in> set [Fin 2, Fin 4, Fin 4]. sane v" by simp
  from cdf_curve_in_frame [OF _ _ this] show ?thesis by (auto simp: Let_def)
qed

section \<open>The timeline\<close>

definition ms :: "int \<Rightarrow> rat" where
  "ms ns = round53 (round53 (of_int ns) / 1000000)"

lemma ms_mono: "a \<le> b \<Longrightarrow> ms a \<le> ms b"
  unfolding ms_def by (intro double.rnd_mono divide_right_mono) simp_all

lemma milliseconds_value:
  assumes "0 \<le> sint d"
  shows "milliseconds d = Fin (ms (sint d)) \<and> binary64 (ms (sint d)) \<and> 0 \<le> ms (sint d) \<and> ms (sint d) < p2 1024"
proof -
  define i where "i = sint d"
  let ?x = "of_int i :: rat" and ?top = "p2 63"
  have i: "0 \<le> i" "i \<le> 2 ^ 63" using assms sint64_lt [of d] by (simp_all add: i_def)
  then have "?x \<le> of_int (2 ^ 63)" by (simp only: of_int_le_iff)
  then have x: "?x \<le> ?top" by (simp add: p2_int)
  have top: "binary64 ?top" "\<bar>?top\<bar> < p2 1024" "?top < p2 1024" by (simp_all add: binary64_p2 p2_less_iff)
  have r: "to_float64 ?x = Fin (round53 ?x)" "0 \<le> round53 ?x" "round53 ?x \<le> ?top"
    using to_float64_range [OF binary64_0 top(1) _ x] i top(2) by simp_all
  have q: "0 \<le> round53 ?x / 1000000" "round53 ?x / 1000000 \<le> ?top" using r(2,3) by simp_all
  have "to_float64 (round53 ?x / 1000000) = Fin (ms i) \<and> 0 \<le> ms i \<and> ms i \<le> ?top"
    using to_float64_range [OF binary64_0 top(1) q] top(2) by (simp add: ms_def)
  moreover have "float_of_int 1000000 = Fin 1000000" by (simp add: float_of_int_exact)
  moreover have "binary64 (ms i)" by (simp add: ms_def round53_binary64)
  moreover have "milliseconds d = fdiv (to_float64 ?x) (float_of_int 1000000)"
    by (simp only: milliseconds_def float_of_int_def i_def)
  ultimately show ?thesis using r(1) top(3) by (auto simp flip: i_def)
qed

lemma sint_diff64:
  assumes "0 \<le> sint a" and "sint a \<le> sint b"
  shows "sint (b - a :: int64) = sint b - sint a"
proof -
  have "sint (word_of_int (sint b - sint a) :: int64) = sint b - sint a"
    using assms sint64_lt [of b] by (intro sint64_of_int) linarith+
  then show ?thesis by simp
qed

text \<open>The horizontal place of a time.\<close>

lemma time_place:
  assumes "0 \<le> sint startNS" and "sint startNS \<le> sint t" and "sint t \<le> sint endNS"
  shows "scale (milliseconds (t - startNS)) (Fin 0) (milliseconds (endNS - startNS)) 70 870 =
      Fin (place (ms (sint t - sint startNS)) (ms (sint endNS - sint startNS)) 70 870)
    \<and> binary64 (place (ms (sint t - sint startNS)) (ms (sint endNS - sint startNS)) 70 870)
    \<and> 70 \<le> place (ms (sint t - sint startNS)) (ms (sint endNS - sint startNS)) 70 870
    \<and> place (ms (sint t - sint startNS)) (ms (sint endNS - sint startNS)) 70 870 \<le> 870"
proof -
  have d: "sint (t - startNS) = sint t - sint startNS" "sint (endNS - startNS) = sint endNS - sint startNS"
    using assms by (simp_all add: sint_diff64)
  have v: "milliseconds (t - startNS) = Fin (ms (sint t - sint startNS))" "binary64 (ms (sint t - sint startNS))"
      "0 \<le> ms (sint t - sint startNS)"
    using milliseconds_value [of "t - startNS"] assms by (simp_all add: d)
  have m: "milliseconds (endNS - startNS) = Fin (ms (sint endNS - sint startNS))" "binary64 (ms (sint endNS - sint startNS))"
      "ms (sint endNS - sint startNS) < p2 1024"
    using milliseconds_value [of "endNS - startNS"] assms by (simp_all add: d)
  have "ms (sint t - sint startNS) \<le> ms (sint endNS - sint startNS)" using assms by (intro ms_mono) simp
  from scale_place [OF v(2,3) this m(2,3), of 70 870] show ?thesis
    by (simp add: v(1) m(1) coordinate_def place_def round53_binary64)
qed

lemma time_place_mono:
  "0 \<le> ms m \<Longrightarrow> a \<le> b \<Longrightarrow> place (ms a) (ms m) 70 870 \<le> place (ms b) (ms m) 70 870"
  by (intro place_mono(1) ms_mono) simp_all

lemma greatest_latency:
  assumes "\<forall>s \<in> set ss. sane (sm_LatencyMS s)" and "sane acc"
  shows "sane (fold (\<lambda>s acc. if f_less acc (sm_LatencyMS s) then sm_LatencyMS s else acc) ss acc)
    \<and> acc \<le> fold (\<lambda>s acc. if f_less acc (sm_LatencyMS s) then sm_LatencyMS s else acc) ss acc
    \<and> (\<forall>s \<in> set ss. sm_LatencyMS s \<le> fold (\<lambda>s acc. if f_less acc (sm_LatencyMS s) then sm_LatencyMS s else acc) ss acc)"
  using assms
proof (induction ss arbitrary: acc)
  case (Cons s ss)
  let ?acc = "if f_less acc (sm_LatencyMS s) then sm_LatencyMS s else acc"
  have acc: "sane ?acc" "acc \<le> ?acc" "sm_LatencyMS s \<le> ?acc" using Cons.prems by (auto simp: sane_def)
  have "\<forall>s \<in> set ss. sane (sm_LatencyMS s)" using Cons.prems(1) by simp
  from Cons.IH [OF this acc(1)] acc(2,3) show ?case by (auto intro: order.trans)
qed simp

lemma timeline_maxLatency_value:
  assumes "\<forall>s \<in> set samples. sane (sm_LatencyMS s)"
  shows "\<exists>m. timeline_maxLatency samples = Fin m \<and> binary64 m \<and> m < p2 1024 \<and> (\<forall>s \<in> set samples. sm_LatencyMS s \<le> Fin m)"
proof -
  define g where "g = fold (\<lambda>s acc. if f_less acc (sm_LatencyMS s) then sm_LatencyMS s else acc) samples (Fin 0)"
  have one: "1 < p2 1023" by (rule small_p2) simp
  have "sane g" and le: "\<forall>s \<in> set samples. sm_LatencyMS s \<le> g"
    using greatest_latency [OF assms, of "Fin 0"] by (simp_all add: g_def sane_def)
  then obtain b where b: "g = Fin b" "binary64 b" "0 \<le> b" "b < p2 1023" by (auto simp: sane_def)
  define a where "a = max 1 b"
  have a: "binary64 a" "0 \<le> a" "a < p2 1023" "b \<le> a" using b one by (auto simp: a_def max_def)
  obtain m where m: "fmul (Fin a) (to_float64 (11 / 10)) = Fin m" "binary64 m" "a \<le> m" "m < p2 1024"
    using axis_end [OF a(1-3), of "11 / 10"] by auto
  have "timeline_maxLatency samples = fmul (if f_less g (Fin 1) then Fin 1 else g) (to_float64 (11 / 10))"
    by (simp add: timeline_maxLatency_def g_def Let_def)
  also have "(if f_less g (Fin 1) then Fin 1 else g) = Fin a" by (simp add: b(1) a_def max_def)
  finally have v: "timeline_maxLatency samples = Fin m" by (simp only: m(1))
  have "g \<le> Fin m" using a(4) m(3) by (simp add: b(1))
  then have "\<forall>s \<in> set samples. sm_LatencyMS s \<le> Fin m" using le by (blast intro: order.trans)
  then show ?thesis using v m by blast
qed

lemma firstSuccessful_mem:
  "firstSuccessfulCompletionAfter ss killNS \<noteq> 0 \<Longrightarrow>
     \<exists>s \<in> set ss. sm_EndNS s = firstSuccessfulCompletionAfter ss killNS \<and> sm_Status s = ''OK''"
  by (induction ss) (auto split: if_splits)

text \<open>The points and the window, given the places of the times and the latencies.\<close>

lemma timeline_point:
  assumes "0 \<le> sint startNS" and "sint startNS \<le> sint (sm_EndNS s)" and "sint (sm_EndNS s) \<le> sint endNS"
    and "timeline_maxLatency samples = Fin m" and "binary64 m" and "m < p2 1024"
    and "sane (sm_LatencyMS s)" and "sm_LatencyMS s \<le> Fin m"
  shows "\<exists>y. (scale (milliseconds (sm_EndNS s - startNS)) (Fin 0) (milliseconds (endNS - startNS)) 70 870,
      scale (sm_LatencyMS s) (Fin 0) (timeline_maxLatency samples) 460 40) =
      (Fin (place (ms (sint (sm_EndNS s) - sint startNS)) (ms (sint endNS - sint startNS)) 70 870), Fin y)
    \<and> 40 \<le> y \<and> y \<le> 460"
proof -
  obtain v where v: "sm_LatencyMS s = Fin v" "binary64 v" "0 \<le> v" using assms(7) by (auto simp: sane_def)
  then have "v \<le> m" using assms(8) by simp
  from scale_place [OF v(2,3) this assms(5,6), of 460 40]
  show ?thesis using time_place [OF assms(1-3)] by (simp add: v(1) assms(4) coordinate_def)
qed

lemma window_between:
  assumes "binary64 x1" and "binary64 x2" and "70 \<le> x1" and "x1 \<le> x2" and "x2 \<le> 870"
  shows "\<exists>w. fsub (Fin x2) (Fin x1) = Fin w \<and> 0 \<le> w \<and> w \<le> 800"
proof -
  have b: "binary64 800" using binary64_of_int [of 800] by simp
  have "(800 :: rat) < p2 1024" using small_p2 [of 800] p2_1023 by simp
  then show ?thesis
    using to_float64_range [OF binary64_0 b, of "x2 - x1"] assms by (simp add: fsub_def)
qed

text \<open>The timeline.  Samples in the order of their ends, with finite latencies that are not
  negative, and a start not later than any end: every point lies inside the frame, rounding
  included, the points go from left to right, a point is red exactly when its operation failed, and
  the failover window, when it is drawn, lies inside the frame and is no wider than it.\<close>

lemma timeline_in_frame:
  assumes "samples \<noteq> []" and "sorted (map (\<lambda>s. sint (sm_EndNS s)) samples)"
    and "\<forall>s \<in> set samples. sane (sm_LatencyMS s)"
    and "timeline_start samples meta = Inr startNS" and "0 \<le> sint startNS"
    and "\<forall>s \<in> set samples. sint startNS \<le> sint (sm_EndNS s)"
    and "\<forall>m. meta = Some m \<and> 0 < sint (rm_KillTriggeredAtNS m) \<longrightarrow> sint startNS \<le> sint (rm_KillTriggeredAtNS m)"
  shows "\<exists>plot. writeTimelineSVG samples meta (fst (failover samples meta)) = Inr plot
    \<and> length (tp_points plot) = length samples
    \<and> (\<forall>(x, y, color) \<in> set (tp_points plot). Fin 70 \<le> x \<and> x \<le> Fin 870 \<and> Fin 40 \<le> y \<and> y \<le> Fin 460)
    \<and> sorted (map fst (tp_points plot))
    \<and> map (\<lambda>(x, y, color). color = ''#dc2626'') (tp_points plot) = map (\<lambda>s. sm_Status s \<noteq> ''OK'') samples
    \<and> (\<forall>x w. tp_window plot = Some (x, w) \<longrightarrow> Fin 70 \<le> x \<and> x \<le> Fin 870 \<and> Fin 0 \<le> w \<and> w \<le> Fin 800)"
proof -
  define endNS where "endNS = sm_EndNS (last samples)"
  define D where "D = sint endNS - sint startNS"
  define X where "X t = place (ms (sint t - sint startNS)) (ms D) 70 870" for t :: int64
  define points where "points = timeline_points samples startNS endNS"
  define window where "window = timeline_window startNS endNS meta (fst (failover samples meta))"
  obtain m where m: "timeline_maxLatency samples = Fin m" "binary64 m" "m < p2 1024"
      "\<forall>s \<in> set samples. sm_LatencyMS s \<le> Fin m"
    using timeline_maxLatency_value [OF assms(3)] by blast
  have last: "sint (sm_EndNS s) \<le> sint endNS" if s: "s \<in> set samples" for s
  proof -
    obtain i where "i < length samples" "s = samples ! i" using s by (auto simp: in_set_conv_nth)
    then show ?thesis using sorted_nth_mono [OF assms(2), of i "length samples - 1"] last_conv_nth [OF assms(1)]
      by (simp add: endNS_def)
  qed
  have start: "sint startNS \<le> sint (sm_EndNS s)" if "s \<in> set samples" for s using that assms(6) by blast
  have D0: "0 \<le> ms D" using ms_mono [of 0 D] start [of "last samples"] assms(1) by (simp add: D_def endNS_def ms_def)
  have pt: "\<exists>y c. points ! i = (Fin (X (sm_EndNS (samples ! i))), Fin y, c) \<and> 40 \<le> y \<and> y \<le> 460
      \<and> 70 \<le> X (sm_EndNS (samples ! i)) \<and> X (sm_EndNS (samples ! i)) \<le> 870
      \<and> (c = ''#dc2626'' \<longleftrightarrow> sm_Status (samples ! i) \<noteq> ''OK'')" if i: "i < length samples" for i
  proof -
    have s: "samples ! i \<in> set samples" using i by simp
    have "sane (sm_LatencyMS (samples ! i))" "sm_LatencyMS (samples ! i) \<le> Fin m" using s assms(3) m(4) by blast+
    from timeline_point [OF assms(5) start [OF s] last [OF s] m(1-3) this]
      time_place [OF assms(5) start [OF s] last [OF s]] i
    show ?thesis by (auto simp: points_def timeline_points_def X_def D_def)
  qed
  have len: "length points = length samples" by (simp add: points_def timeline_points_def)
  have frame: "\<forall>(x, y, color) \<in> set points. Fin 70 \<le> x \<and> x \<le> Fin 870 \<and> Fin 40 \<le> y \<and> y \<le> Fin 460"
    unfolding all_set_conv_all_nth len using pt by fastforce
  have order: "sorted (map fst points)"
  proof -
    have "fst (points ! i) \<le> fst (points ! j)" if ij: "i \<le> j" "j < length samples" for i j
    proof -
      have "sint (sm_EndNS (samples ! i)) \<le> sint (sm_EndNS (samples ! j))"
        using sorted_nth_mono [OF assms(2), of i j] ij by simp
      then have "X (sm_EndNS (samples ! i)) \<le> X (sm_EndNS (samples ! j))"
        unfolding X_def using D0 by (intro time_place_mono) simp_all
      then show ?thesis using pt [of i] pt [of j] ij by auto
    qed
    then show ?thesis by (simp add: sorted_iff_nth_mono len)
  qed
  have colors: "map (\<lambda>(x, y, color). color = ''#dc2626'') points = map (\<lambda>s. sm_Status s \<noteq> ''OK'') samples"
    by (simp add: points_def timeline_points_def)
  have "Fin 70 \<le> x \<and> x \<le> Fin 870 \<and> Fin 0 \<le> w \<and> w \<le> Fin 800" if w: "window = Some (x, w)" for x w
  proof -
    obtain m' where m': "meta = Some m'" "0 <s rm_KillTriggeredAtNS m'"
        "rm_KillTriggeredAtNS m' <s fst (failover samples meta)"
      using w by (auto simp: window_def timeline_window_def split: option.splits if_splits)
    define kill where "kill = rm_KillTriggeredAtNS m'"
    define stop where "stop = firstSuccessfulCompletionAfter samples kill"
    have f: "fst (failover samples meta) = stop" using m'(1,2) by (simp add: failover_def kill_def stop_def Let_def)
    have k: "0 < sint kill" "sint kill < sint stop" using m'(2,3) unfolding f by (simp_all add: int64_simps kill_def)
    then have "stop \<noteq> 0" by auto
    then obtain s where s: "s \<in> set samples" "sm_EndNS s = stop"
      using firstSuccessful_mem [of samples kill] by (auto simp: stop_def)
    have "sint startNS \<le> sint kill" using assms(7) m'(1) k(1) by (simp add: kill_def)
    moreover have e: "sint stop \<le> sint endNS" using last [OF s(1)] by (simp add: s(2))
    moreover have "sint kill \<le> sint endNS" using k(2) e by linarith
    ultimately have x1: "scale (milliseconds (kill - startNS)) (Fin 0) (milliseconds (endNS - startNS)) 70 870 = Fin (X kill)"
        "binary64 (X kill)" "70 \<le> X kill" "X kill \<le> 870"
      using time_place [OF assms(5), of kill endNS] by (simp_all add: X_def D_def)
    have x2: "scale (milliseconds (stop - startNS)) (Fin 0) (milliseconds (endNS - startNS)) 70 870 = Fin (X stop)"
        "binary64 (X stop)" "X stop \<le> 870"
      using time_place [OF assms(5) start [OF s(1)] last [OF s(1)]] by (simp_all add: X_def D_def s(2))
    have "X kill \<le> X stop" unfolding X_def using D0 k(2) by (intro time_place_mono) simp_all
    from window_between [OF x1(2) x2(2) x1(3) this x2(3)]
    obtain v where v: "fsub (Fin (X stop)) (Fin (X kill)) = Fin v" "0 \<le> v" "v \<le> 800" by blast
    have "window = Some (Fin (X kill), Fin v)"
      using m' x1(1) x2(1) v(1) unfolding window_def timeline_window_def f by (simp add: kill_def [symmetric])
    then show ?thesis using w v x1 by simp
  qed
  then show ?thesis
    using timeline_total [OF assms(1), of meta "fst (failover samples meta)"] assms(4) len frame order colors
    by (simp add: points_def window_def endNS_def)
qed

lemma timeline_in_frame_witness:
  "\<exists>plot x w. writeTimelineSVG [sample_ms 2 ''OK'', sample_ms 7 ''Unavailable'']
      (Some \<lparr>rm_StartedAtNS = 1, rm_FinishedAtNS = 9, rm_KillTriggeredAtNS = 2, rm_KillResolvedAddr = ''a:1'', rm_KillError = []\<rparr>) 5
      = Inr plot
    \<and> map (\<lambda>(x, y, color). color = ''#dc2626'') (tp_points plot) = [False, True]
    \<and> tp_window plot = Some (x, w) \<and> Fin 70 \<le> x \<and> x \<le> Fin 870 \<and> Fin 0 \<le> w \<and> w \<le> Fin 800"
proof -
  let ?ss = "[sample_ms 2 ''OK'', sample_ms 7 ''Unavailable'']"
  let ?meta = "Some \<lparr>rm_StartedAtNS = 1, rm_FinishedAtNS = 9, rm_KillTriggeredAtNS = 2, rm_KillResolvedAddr = ''a:1'', rm_KillError = []\<rparr>"
  have "sane (Fin (of_int i))" if "0 \<le> i" "i \<le> 10" for i
    using that binary64_of_int [of i] small_p2 [of "of_int i"] by (simp add: sane_def)
  from this [of 2] this [of 7] have "\<forall>s \<in> set ?ss. sane (sm_LatencyMS s)" by (simp add: sample_ms_def)
  moreover have "timeline_start ?ss ?meta = Inr 1" by (simp add: timeline_start_def elem_def sample_ms_def)
  moreover have "fst (failover ?ss ?meta) = 5" by (simp add: failover_def sample_ms_def int64_simps)
  ultimately obtain plot where plot: "writeTimelineSVG ?ss ?meta 5 = Inr plot"
      "map (\<lambda>(x, y, color). color = ''#dc2626'') (tp_points plot) = map (\<lambda>s. sm_Status s \<noteq> ''OK'') ?ss"
      "\<forall>x w. tp_window plot = Some (x, w) \<longrightarrow> Fin 70 \<le> x \<and> x \<le> Fin 870 \<and> Fin 0 \<le> w \<and> w \<le> Fin 800"
    using timeline_in_frame [of ?ss ?meta 1] by (auto simp: sample_ms_def)
  have "tp_window plot \<noteq> None"
    using plot(1) by (auto simp: writeTimelineSVG_def timeline_start_def timeline_window_def elem_def sample_ms_def int64_simps Let_def)
  then show ?thesis using plot by (auto simp: sample_ms_def)
qed

end
