(* ===== verification/Worker_Pool.thy ===== *)
theory Worker_Pool
  imports Load_Generator "HOL-Library.Multiset"
begin

text \<open>
  The goroutines of \<open>cmd/loadgen\<close>.  A worker is at the head of its loop, in a call, resting between
  two operations, or gone; an event lets one worker go on, lets the timer of a resting worker fire,
  or is the signal that cancels the run's context.  Starting an operation and finishing it are
  separate events, so operations of different workers overlap in every way; the call itself takes
  effect when it returns.  A schedule is a list of events.
\<close>

section \<open>Starting and finishing an operation\<close>

text \<open>What a worker holds during a call: the operation, its identifier, its start and the leader.\<close>

record pending =
  pd_op :: int64
  pd_opID :: int64
  pd_start :: int64
  pd_leaderBefore :: string

definition begin_op :: "'w os \<Rightarrow> int64 \<Rightarrow> load_run \<times> LeaderInterceptor \<times> 'w \<Rightarrow>
    pending \<times> load_run \<times> LeaderInterceptor \<times> 'w" where
  "begin_op os op st =
     (let (s0, l0, w0) = st; opID = started s0 + 1
      in (\<lparr>pd_op = op, pd_opID = opID, pd_start = Now os w0, pd_leaderBefore = CurrentLeader l0\<rparr>,
          s0\<lparr>started := opID\<rparr>, l0, w0))"

definition finish_op :: "'w os \<Rightarrow> 'w client_call \<Rightarrow> int64 \<Rightarrow> int64 \<Rightarrow> pending \<Rightarrow>
    load_run \<times> LeaderInterceptor \<times> 'w \<Rightarrow> load_run \<times> LeaderInterceptor \<times> 'w" where
  "finish_op os call killAfter workerID pd st =
     (let (s1, l0, w0) = st;
          (err, attempts, l1, w1) = call l0 w0;
          row = \<lparr>OpID = pd_opID pd, WorkerID = workerID, Operation = pd_op pd, StartNS = pd_start pd, EndNS = Now os w1,
                 Status = statusString err, AttemptCount = attempts, LeaderBefore = pd_leaderBefore pd,
                 LeaderAfter = CurrentLeader l1,
                 ErrorText = (case err of Some e \<Rightarrow> error_text e | None \<Rightarrow> [])\<rparr>;
          s2 = (case err of Some e \<Rightarrow> s1\<lparr>failureCount := failureCount s1 + 1\<rparr>
                | None \<Rightarrow> s1\<lparr>successCount := successCount s1 + 1\<rparr>);
          s3 = s2\<lparr>rows := rows s2 @ [row]\<rparr>;
          completedNow = completed s3 + 1;
          s4 = s3\<lparr>completed := completedNow\<rparr>
      in if 0 <s killAfter \<and> completedNow = killAfter then
           (case Trigger os l1 (injector s4) w1 of
              (event, f, w2) \<Rightarrow> (s4\<lparr>killTriggered := True, injector := f\<rparr>, l1, w2))
         else (s4, l1, w1))"

text \<open>Nobody in between, the two make one turn.\<close>

lemma turn_is_begin_finish:
  "worker_turn os call killAfter (workerID, op) st =
     (case begin_op os op st of (pd, st1) \<Rightarrow> finish_op os call killAfter workerID pd st1)"
proof -
  obtain s l w where st: "st = (s, l, w)" by (rule prod_cases3)
  obtain err n l1 w1 where call: "call l w = (err, n, l1, w1)" by (rule prod_cases4)
  show ?thesis by (cases err) (simp_all add: st call worker_turn_def begin_op_def finish_op_def Let_def)
qed

section \<open>The pool\<close>

datatype phase = AtLoop int64 | InCall pending | Resting int64 | Gone

record 'w pool =
  shared_run :: "load_run \<times> LeaderInterceptor \<times> 'w"
  hands :: "phase list"
  cancelled :: bool

record load_config =
  lc_increments :: int64
  lc_thinkTime :: int64
  lc_killAfter :: int64

datatype pool_event = Work nat | Timer nat | Interrupt

definition start_pool :: "int64 \<Rightarrow> load_run \<times> LeaderInterceptor \<times> 'w \<Rightarrow> 'w pool" where
  "start_pool workers st = \<lparr>shared_run = st, hands = replicate (nat (sint workers)) (AtLoop 1), cancelled = False\<rparr>"

definition work :: "load_config \<Rightarrow> 'w os \<Rightarrow> 'w client_call \<Rightarrow> nat \<Rightarrow> 'w pool \<Rightarrow> 'w pool" where
  "work cfg os call i p =
     (case hands p ! i of
        AtLoop op \<Rightarrow>
          if lc_increments cfg <s op then p\<lparr>hands := (hands p)[i := Gone]\<rparr>
          else if cancelled p then p\<lparr>hands := (hands p)[i := Gone]\<rparr>
          else (case begin_op os op (shared_run p) of
                  (pd, st) \<Rightarrow> p\<lparr>shared_run := st, hands := (hands p)[i := InCall pd]\<rparr>)
      | InCall pd \<Rightarrow>
          p\<lparr>shared_run := finish_op os call (lc_killAfter cfg) (of_nat (Suc i)) pd (shared_run p),
            hands := (hands p)[i := (if 0 <s lc_thinkTime cfg then Resting (pd_op pd) else AtLoop (pd_op pd + 1))]\<rparr>
      | Resting op \<Rightarrow> if cancelled p then p\<lparr>hands := (hands p)[i := Gone]\<rparr> else p
      | Gone \<Rightarrow> p)"

fun pool_step :: "load_config \<Rightarrow> 'w os \<Rightarrow> 'w client_call \<Rightarrow> pool_event \<Rightarrow> 'w pool \<Rightarrow> 'w pool" where
  "pool_step cfg os call (Work i) p = (if i < length (hands p) then work cfg os call i p else p)"
| "pool_step cfg os call (Timer i) p =
     (if i < length (hands p) then
        (case hands p ! i of Resting op \<Rightarrow> p\<lparr>hands := (hands p)[i := AtLoop (op + 1)]\<rparr> | _ \<Rightarrow> p)
      else p)"
| "pool_step cfg os call Interrupt p = p\<lparr>cancelled := True\<rparr>"

definition run_pool :: "load_config \<Rightarrow> 'w os \<Rightarrow> 'w client_call \<Rightarrow> pool_event list \<Rightarrow> 'w pool \<Rightarrow> 'w pool" where
  "run_pool cfg os call es p = fold (pool_step cfg os call) es p"

abbreviation pool_rows :: "'w pool \<Rightarrow> resultRow list" where
  "pool_rows p \<equiv> rows (fst (shared_run p))"

text \<open>\<open>workersWG.Wait\<close> returns, and the channel of rows is closed, when every worker is gone.\<close>

definition all_gone :: "'w pool \<Rightarrow> bool" where
  "all_gone p \<longleftrightarrow> set (hands p) \<subseteq> {Gone}"

text \<open>What an event does to one worker.\<close>

inductive moves :: "load_config \<Rightarrow> 'w os \<Rightarrow> 'w client_call \<Rightarrow> nat \<Rightarrow> 'w pool \<Rightarrow> 'w pool \<Rightarrow> bool"
  for cfg :: load_config and os :: "'w os" and call :: "'w client_call" where
  leave: "i < length (hands p) \<Longrightarrow> hands p ! i = AtLoop op \<Longrightarrow> lc_increments cfg <s op \<Longrightarrow>
    moves cfg os call i p (p\<lparr>hands := (hands p)[i := Gone]\<rparr>)"
| stop: "i < length (hands p) \<Longrightarrow> cancelled p \<Longrightarrow> hands p ! i = AtLoop op \<or> hands p ! i = Resting op \<Longrightarrow>
    moves cfg os call i p (p\<lparr>hands := (hands p)[i := Gone]\<rparr>)"
| start: "i < length (hands p) \<Longrightarrow> hands p ! i = AtLoop op \<Longrightarrow> \<not> lc_increments cfg <s op \<Longrightarrow> \<not> cancelled p \<Longrightarrow>
    begin_op os op (shared_run p) = (pd, st) \<Longrightarrow>
    moves cfg os call i p (p\<lparr>shared_run := st, hands := (hands p)[i := InCall pd]\<rparr>)"
| complete: "i < length (hands p) \<Longrightarrow> hands p ! i = InCall pd \<Longrightarrow>
    finish_op os call (lc_killAfter cfg) (of_nat (Suc i)) pd (shared_run p) = st \<Longrightarrow>
    h = (if 0 <s lc_thinkTime cfg then Resting (pd_op pd) else AtLoop (pd_op pd + 1)) \<Longrightarrow>
    moves cfg os call i p (p\<lparr>shared_run := st, hands := (hands p)[i := h]\<rparr>)"
| wake: "i < length (hands p) \<Longrightarrow> hands p ! i = Resting op \<Longrightarrow>
    moves cfg os call i p (p\<lparr>hands := (hands p)[i := AtLoop (op + 1)]\<rparr>)"

lemma pool_step_cases:
  "pool_step cfg os call e p = p \<or> (\<exists>i. moves cfg os call i p (pool_step cfg os call e p))
     \<or> (e = Interrupt \<and> pool_step cfg os call e p = p\<lparr>cancelled := True\<rparr>)"
proof (cases e)
  case (Work i)
  show ?thesis
  proof (cases "i < length (hands p)")
    case i: True
    show ?thesis
    proof (cases "hands p ! i")
      case (AtLoop op)
      obtain pd st where b: "begin_op os op (shared_run p) = (pd, st)" by (cases "begin_op os op (shared_run p)")
      consider "lc_increments cfg <s op" | "\<not> lc_increments cfg <s op" "cancelled p"
        | "\<not> lc_increments cfg <s op" "\<not> cancelled p" by blast
      then show ?thesis
      proof cases
        case 1
        then show ?thesis using Work i AtLoop moves.leave [where cfg = cfg and os = os and call = call, OF i AtLoop 1] by (auto simp: work_def)
      next
        case 2
        then show ?thesis using Work i AtLoop moves.stop [where cfg = cfg and os = os and call = call and op = op, OF i 2(2)] by (auto simp: work_def)
      next
        case 3
        then show ?thesis using Work i AtLoop moves.start [where cfg = cfg and os = os and call = call, OF i AtLoop 3 b] b by (auto simp: work_def)
      qed
    next
      case (InCall pd)
      then show ?thesis using Work i moves.complete [where cfg = cfg and os = os and call = call, OF i InCall refl refl] by (auto simp: work_def)
    next
      case (Resting op)
      then show ?thesis
        using Work i moves.stop [where cfg = cfg and os = os and call = call and op = op, OF i] by (cases "cancelled p") (auto simp: work_def)
    qed (use Work in \<open>simp add: work_def\<close>)
  qed (use Work in simp)
next
  case (Timer i)
  then show ?thesis
    using moves.wake [where cfg = cfg and os = os and call = call and i = i and p = p] by (cases "i < length (hands p)"; cases "hands p ! i") auto
qed simp

text \<open>A property kept by every move of a worker, and by the signal, holds after every schedule.\<close>

lemma run_pool_Nil [simp]: "run_pool cfg os call [] p = p"
  by (simp add: run_pool_def)

lemma run_pool_append: "run_pool cfg os call (es @ fs) p = run_pool cfg os call fs (run_pool cfg os call es p)"
  by (simp add: run_pool_def)

lemma pool_rule [consumes 1, case_names moves interrupt]:
  assumes "P p" and "\<And>i q q'. P q \<Longrightarrow> moves cfg os call i q q' \<Longrightarrow> P q'" and "\<And>q. P q \<Longrightarrow> P (q\<lparr>cancelled := True\<rparr>)"
  shows "P (run_pool cfg os call es p)"
proof (induction es rule: rev_induct)
  case (snoc e es)
  then show ?case
    using pool_step_cases [of cfg os call e "run_pool cfg os call es p"] assms(2,3)
    by (auto simp: run_pool_append run_pool_def)
qed (simp add: assms(1))

section \<open>Accounting\<close>

lemma begin_op_result:
  "begin_op os op (s, l, w) =
     (\<lparr>pd_op = op, pd_opID = started s + 1, pd_start = Now os w, pd_leaderBefore = CurrentLeader l\<rparr>,
      s\<lparr>started := started s + 1\<rparr>, l, w)"
  by (simp add: begin_op_def Let_def)

lemma finish_op_result:
  assumes "finish_op os call killAfter workerID pd (s, l, w) = (s', l', w')"
  shows "(\<exists>row. rows s' = rows s @ [row] \<and> WorkerID row = workerID \<and> Operation row = pd_op pd \<and> OpID row = pd_opID pd)
    \<and> started s' = started s \<and> completed s' = completed s + 1
    \<and> successCount s' + failureCount s' = successCount s + failureCount s + 1
    \<and> killTriggered s' = (killTriggered s \<or> (0 <s killAfter \<and> completed s + 1 = killAfter))"
proof -
  obtain err n l1 w1 where call: "call l w = (err, n, l1, w1)" by (rule prod_cases4)
  obtain e f w2 where "Trigger os l1 (injector s) w1 = (e, f, w2)" by (rule prod_cases3)
  then show ?thesis using assms
    by (cases err) (auto simp: finish_op_def call Let_def split: if_splits)
qed

definition ops_of :: "'w pool \<Rightarrow> nat \<Rightarrow> int64 list" where
  "ops_of p i = map Operation (filter (\<lambda>r. WorkerID r = of_nat (Suc i)) (pool_rows p))"

definition numbered :: "nat \<Rightarrow> int64 list" where
  "numbered k = map of_nat [1 ..< Suc k]"

lemma numbered_Suc: "numbered (Suc k) = numbered k @ [of_nat (Suc k)]"
  by (simp add: numbered_def)

text \<open>How far a worker is: \<open>k\<close> operations are behind it, of \<open>n\<close> it has to make.\<close>

fun phase_ok :: "bool \<Rightarrow> nat \<Rightarrow> nat \<Rightarrow> phase \<Rightarrow> bool" where
  "phase_ok cancel n k (AtLoop op) \<longleftrightarrow> op = of_nat (Suc k) \<and> k \<le> n"
| "phase_ok cancel n k (InCall pd) \<longleftrightarrow> pd_op pd = of_nat (Suc k) \<and> k < n"
| "phase_ok cancel n k (Resting op) \<longleftrightarrow> op = of_nat k \<and> k \<le> n"
| "phase_ok cancel n k Gone \<longleftrightarrow> k \<le> n \<and> (\<not> cancel \<longrightarrow> k = n)"

definition worker_ok :: "load_config \<Rightarrow> 'w pool \<Rightarrow> nat \<Rightarrow> bool" where
  "worker_ok cfg p i \<longleftrightarrow>
     (\<exists>k. ops_of p i = numbered k \<and> phase_ok (cancelled p) (nat (sint (lc_increments cfg))) k (hands p ! i))"

definition pool_ok :: "load_config \<Rightarrow> nat \<Rightarrow> 'w pool \<Rightarrow> bool" where
  "pool_ok cfg n p \<longleftrightarrow> length (hands p) = n \<and> (\<forall>i < n. worker_ok cfg p i)
     \<and> (\<forall>r \<in> set (pool_rows p). \<exists>i < n. WorkerID r = of_nat (Suc i))"

definition sane_config :: "load_config \<Rightarrow> bool" where
  "sane_config cfg \<longleftrightarrow> 0 < sint (lc_increments cfg) \<and> sint (lc_increments cfg) < 2 ^ 63 - 1"

lemma over_limit:
  assumes "sane_config cfg" and "k \<le> nat (sint (lc_increments cfg))"
  shows "lc_increments cfg <s of_nat (Suc k) \<longleftrightarrow> k = nat (sint (lc_increments cfg))"
proof -
  have "int k \<le> sint (lc_increments cfg)" using assms by (simp add: sane_config_def le_nat_iff)
  then have "int (Suc k) < 2 ^ 63" using assms(1) unfolding sane_config_def by linarith
  then have "sint (word_of_int (int (Suc k)) :: int64) = int (Suc k)" by (intro sint64_of_int) simp_all
  moreover have "(of_nat (Suc k) :: int64) = word_of_int (int (Suc k))" by simp
  ultimately have "sint (of_nat (Suc k) :: int64) = int (Suc k)" by (simp only:)
  then show ?thesis using assms by (auto simp: int64_simps sane_config_def)
qed

lemma ops_of_same: "pool_rows q = pool_rows p \<Longrightarrow> ops_of q i = ops_of p i"
  by (simp add: ops_of_def)

text \<open>An event that leaves the rows and the other workers alone.\<close>

lemma pool_ok_update:
  assumes "pool_ok cfg n p" and "i < n" and "pool_rows q = pool_rows p" and "cancelled q = cancelled p"
    and "hands q = (hands p)[i := h]"
    and "\<And>k. phase_ok (cancelled p) (nat (sint (lc_increments cfg))) k (hands p ! i) \<Longrightarrow>
      phase_ok (cancelled p) (nat (sint (lc_increments cfg))) k h"
  shows "pool_ok cfg n q"
proof -
  have "worker_ok cfg q j" if j: "j < n" for j
  proof -
    obtain k where k: "ops_of p j = numbered k"
        "phase_ok (cancelled p) (nat (sint (lc_increments cfg))) k (hands p ! j)"
      using assms(1) j unfolding pool_ok_def worker_ok_def by blast
    have "phase_ok (cancelled p) (nat (sint (lc_increments cfg))) k (hands q ! j)"
      using k(2) assms(1,2,5,6) j by (cases "j = i") (simp_all add: pool_ok_def)
    then show ?thesis using k(1) ops_of_same [OF assms(3)] assms(4) by (auto simp: worker_ok_def)
  qed
  then show ?thesis using assms(1,3,5) by (simp add: pool_ok_def)
qed

lemma worker_ids:
  assumes "n < 2 ^ 63" and "i < n" and "j < n"
  shows "(of_nat (Suc i) :: int64) = of_nat (Suc j) \<longleftrightarrow> i = j"
  using assms of_nat_eq_64 [of "Suc i" "Suc j"] by simp

text \<open>The completion of an operation adds its row.\<close>

lemma pool_ok_complete:
  assumes "pool_ok cfg n p" and "n < 2 ^ 63" and "i < n" and "hands p ! i = InCall pd"
    and "rows (fst st) = pool_rows p @ [row]" and "WorkerID row = of_nat (Suc i)" and "Operation row = pd_op pd"
    and "h = (if 0 <s lc_thinkTime cfg then Resting (pd_op pd) else AtLoop (pd_op pd + 1))"
  shows "pool_ok cfg n (p\<lparr>shared_run := st, hands := (hands p)[i := h]\<rparr>)" (is "pool_ok cfg n ?q")
proof -
  let ?n = "nat (sint (lc_increments cfg))"
  have len: "length (hands p) = n" using assms(1) by (simp add: pool_ok_def)
  have "worker_ok cfg ?q j" if j: "j < n" for j
  proof -
    obtain k where k: "ops_of p j = numbered k" "phase_ok (cancelled p) ?n k (hands p ! j)"
      using assms(1) j unfolding pool_ok_def worker_ok_def by blast
    show ?thesis
    proof (cases "j = i")
      case True
      then have "ops_of ?q j = numbered (Suc k)"
        using k assms(4-7) by (simp add: ops_of_def numbered_Suc)
      moreover have "phase_ok (cancelled p) ?n (Suc k) h"
        using k(2) assms(4,8) True by simp
      ultimately show ?thesis using True len assms(3) by (auto simp: worker_ok_def)
    next
      case False
      then have "ops_of ?q j = ops_of p j"
        using assms(5,6) worker_ids [OF assms(2) j assms(3)] by (simp add: ops_of_def)
      then show ?thesis using k False by (auto simp: worker_ok_def)
    qed
  qed
  moreover have "\<forall>r \<in> set (pool_rows ?q). \<exists>i < n. WorkerID r = of_nat (Suc i)"
    using assms(1,3,5,6) by (auto simp: pool_ok_def)
  ultimately show ?thesis by (simp add: pool_ok_def len)
qed

lemma pool_ok_moves:
  assumes "pool_ok cfg n p" and "moves cfg os call i p p'" and "sane_config cfg" and "n < 2 ^ 63"
  shows "pool_ok cfg n p'"
proof -
  have len: "length (hands p) = n" using assms(1) by (simp add: pool_ok_def)
  obtain s l w where st: "shared_run p = (s, l, w)" by (rule prod_cases3)
  from assms(2) show ?thesis
  proof (cases rule: moves.cases)
    case (leave op)
    then show ?thesis
      using over_limit [OF assms(3)] len
      by (intro pool_ok_update [OF assms(1), where i = i and h = Gone]) auto
  next
    case (stop op)
    then show ?thesis using len by (intro pool_ok_update [OF assms(1), where i = i and h = Gone]) auto
  next
    case (start op pd st')
    then show ?thesis
      using over_limit [OF assms(3)] len
      by (intro pool_ok_update [OF assms(1), where i = i and h = "InCall pd"]) (auto simp: st begin_op_result)
  next
    case (complete pd st' h)
    obtain s' l' w' where st': "st' = (s', l', w')" by (rule prod_cases3)
    have "finish_op os call (lc_killAfter cfg) (of_nat (Suc i)) pd (s, l, w) = (s', l', w')"
      using complete(4) by (simp only: st st')
    from finish_op_result [OF this] obtain row
      where "rows (fst st') = pool_rows p @ [row]" "WorkerID row = of_nat (Suc i)" "Operation row = pd_op pd"
      by (auto simp: st st')
    from pool_ok_complete [OF assms(1,4) _ complete(3) this complete(5)] complete(1,2) len show ?thesis by simp
  next
    case (wake op)
    then show ?thesis using len by (intro pool_ok_update [OF assms(1), where i = i and h = "AtLoop (op + 1)"]) auto
  qed
qed

lemma phase_ok_cancel: "phase_ok b n k h \<Longrightarrow> phase_ok True n k h"
  by (cases h) auto

lemma pool_ok_cancel: "pool_ok cfg n p \<Longrightarrow> pool_ok cfg n (p\<lparr>cancelled := True\<rparr>)"
  unfolding pool_ok_def worker_ok_def ops_of_def using phase_ok_cancel by (auto; blast)

lemma pool_ok_start:
  "rows s = [] \<Longrightarrow> pool_ok cfg (nat (sint workers)) (start_pool workers (s, l, w))"
  by (auto simp: pool_ok_def worker_ok_def start_pool_def ops_of_def numbered_def intro: exI [of _ 0])

text \<open>The shared counters, the identifiers of the operations and the injector.\<close>

definition open_id :: "phase \<Rightarrow> int64 list" where
  "open_id h = (case h of InCall pd \<Rightarrow> [pd_opID pd] | _ \<Rightarrow> [])"

definition open_ids :: "'w pool \<Rightarrow> int64 list" where
  "open_ids p = concat (map open_id (hands p))"

definition books_ok :: "load_config \<Rightarrow> 'w pool \<Rightarrow> bool" where
  "books_ok cfg p \<longleftrightarrow> (let s = fst (shared_run p); n = length (rows s); m = n + length (open_ids p) in
     completed s = of_nat n \<and> successCount s + failureCount s = of_nat n \<and> started s = of_nat m
     \<and> mset (map OpID (rows s)) + mset (open_ids p) = mset (numbered m)
     \<and> (n < 2 ^ 63 \<longrightarrow> (killTriggered s \<longleftrightarrow> 0 < sint (lc_killAfter cfg) \<and> sint (lc_killAfter cfg) \<le> int n)))"

lemma mset_concat_update:
  "i < length xs \<Longrightarrow> mset (concat (map f (xs[i := h]))) + mset (f (xs ! i)) = mset (concat (map f xs)) + mset (f h)"
proof (induction xs arbitrary: i)
  case (Cons x xs)
  then show ?case by (cases i) (simp_all add: add.assoc)
qed simp

lemma open_ids_update:
  assumes "i < length (hands p)" and "hands q = (hands p)[i := h]"
  shows "mset (open_ids q) + mset (open_id (hands p ! i)) = mset (open_ids p) + mset (open_id h)"
    and "length (open_ids q) + length (open_id (hands p ! i)) = length (open_ids p) + length (open_id h)"
proof -
  show m: "mset (open_ids q) + mset (open_id (hands p ! i)) = mset (open_ids p) + mset (open_id h)"
    using mset_concat_update [OF assms(1), of open_id h] by (simp add: open_ids_def assms(2))
  show "length (open_ids q) + length (open_id (hands p ! i)) = length (open_ids p) + length (open_id h)"
    using arg_cong [OF m, of size] by simp
qed

lemma books_ok_same:
  assumes "books_ok cfg p" and "i < length (hands p)" and "hands q = (hands p)[i := h]" and "shared_run q = shared_run p"
    and "open_id (hands p ! i) = []" and "open_id h = []"
  shows "books_ok cfg q"
  using assms(1) open_ids_update [OF assms(2,3)] assms(4-6) by (simp add: books_ok_def Let_def)

lemma kill_count:
  assumes "Suc n < 2 ^ 63"
  shows "(0 <s k \<and> (of_nat n + 1 :: int64) = k) \<longleftrightarrow> sint k = int (Suc n)"
proof -
  have "sint (word_of_int (int (Suc n)) :: int64) = int (Suc n)" using assms by (intro sint64_of_int) simp_all
  moreover have "(of_nat n + 1 :: int64) = word_of_int (int (Suc n))" by simp
  ultimately have "sint (of_nat n + 1 :: int64) = int (Suc n)" by (simp only:)
  then show ?thesis by (auto simp: int64_simps int64_eq)
qed

lemma books_ok_moves:
  assumes "books_ok cfg p" and "moves cfg os call i p p'"
  shows "books_ok cfg p'"
proof -
  obtain s l w where st: "shared_run p = (s, l, w)" by (rule prod_cases3)
  from assms(2) show ?thesis
  proof (cases rule: moves.cases)
    case (leave op)
    then show ?thesis by (intro books_ok_same [OF assms(1), where i = i and h = Gone]) (simp_all add: open_id_def)
  next
    case (stop op)
    then show ?thesis by (intro books_ok_same [OF assms(1), where i = i and h = Gone]) (auto simp: open_id_def)
  next
    case (start op pd st')
    have q: "hands p' = (hands p)[i := InCall pd]" "shared_run p' = st'" by (simp_all add: start(1))
    have u: "mset (open_ids p') = mset (open_ids p) + {#pd_opID pd#}" "length (open_ids p') = Suc (length (open_ids p))"
      using open_ids_update [of i p p' "InCall pd"] start(2,3) q by (simp_all add: open_id_def)
    have b: "st' = (s\<lparr>started := started s + 1\<rparr>, l, w)" "pd_opID pd = started s + 1"
      using start(6) by (auto simp: st begin_op_result)
    show ?thesis
      using assms(1) by (simp add: books_ok_def Let_def q u b st numbered_Suc)
  next
    case (complete pd st' h)
    have q: "hands p' = (hands p)[i := h]" "shared_run p' = st'" by (simp_all add: complete(1))
    obtain s' l' w' where st': "st' = (s', l', w')" by (rule prod_cases3)
    have h: "open_id h = []" using complete(5) by (simp add: open_id_def)
    have u: "mset (open_ids p) = mset (open_ids p') + {#pd_opID pd#}" "length (open_ids p) = Suc (length (open_ids p'))"
      using open_ids_update [of i p p' h] complete(2,3) h q by (simp_all add: open_id_def)
    have "finish_op os call (lc_killAfter cfg) (of_nat (Suc i)) pd (s, l, w) = (s', l', w')"
      using complete(4) by (simp only: st st')
    from finish_op_result [OF this] obtain row
      where r: "rows s' = rows s @ [row]" "OpID row = pd_opID pd" "started s' = started s" "completed s' = completed s + 1"
        "successCount s' + failureCount s' = successCount s + failureCount s + 1"
        "killTriggered s' = (killTriggered s \<or> (0 <s lc_killAfter cfg \<and> completed s + 1 = lc_killAfter cfg))"
      by auto
    have old: "completed s = of_nat (length (rows s))" "successCount s + failureCount s = of_nat (length (rows s))"
        "started s = of_nat (length (rows s) + length (open_ids p))"
        "mset (map OpID (rows s)) + mset (open_ids p) = mset (numbered (length (rows s) + length (open_ids p)))"
        "length (rows s) < 2 ^ 63 \<Longrightarrow>
          killTriggered s \<longleftrightarrow> 0 < sint (lc_killAfter cfg) \<and> sint (lc_killAfter cfg) \<le> int (length (rows s))"
      using assms(1) by (simp_all add: books_ok_def Let_def st)
    have kill: "killTriggered s' \<longleftrightarrow> 0 < sint (lc_killAfter cfg) \<and> sint (lc_killAfter cfg) \<le> int (Suc (length (rows s)))"
      if "Suc (length (rows s)) < 2 ^ 63"
      using that old(5) kill_count [OF that, of "lc_killAfter cfg"] by (auto simp: r(6) old(1))
    show ?thesis
      using old(1-4) kill by (simp add: books_ok_def Let_def q st' r(1-5) u)
  next
    case (wake op)
    then show ?thesis
      by (intro books_ok_same [OF assms(1), where i = i and h = "AtLoop (op + 1)"]) (simp_all add: open_id_def)
  qed
qed

lemma books_ok_start: "books_ok cfg (start_pool workers (start_run f, l, w))"
proof -
  have "open_ids (start_pool workers (start_run f, l, w)) = []"
    by (simp add: open_ids_def start_pool_def open_id_def concat_eq_Nil_conv)
  then show ?thesis by (simp add: books_ok_def Let_def) (simp add: start_pool_def start_run_def numbered_def)
qed

lemma books_ok_run: "books_ok cfg (run_pool cfg os call es (start_pool workers (start_run f, l, w)))"
proof (rule pool_rule [where P = "books_ok cfg"])
  show "books_ok cfg q'" if "books_ok cfg q" "moves cfg os call i q q'" for i q q'
    by (rule books_ok_moves [OF that])
  show "books_ok cfg (q\<lparr>cancelled := True\<rparr>)" if "books_ok cfg q" for q
    using that by (simp add: books_ok_def open_ids_def Let_def)
qed (rule books_ok_start)

text \<open>Both invariants, after any schedule.\<close>

lemma start_pool_length: "length (hands (start_pool workers st)) = nat (sint workers)"
  by (simp add: start_pool_def)

lemma workers_small: "nat (sint (workers :: int64)) < 2 ^ 63"
  using sint64_lt [of workers] by (simp add: nat_less_iff)

lemma run_pool_ok:
  assumes "sane_config cfg"
  shows "pool_ok cfg (nat (sint workers)) (run_pool cfg os call es (start_pool workers (start_run f, l, w)))
    \<and> books_ok cfg (run_pool cfg os call es (start_pool workers (start_run f, l, w)))"
proof (rule conjI [OF pool_rule [where P = "pool_ok cfg (nat (sint workers))"] books_ok_run])
  show "pool_ok cfg (nat (sint workers)) (start_pool workers (start_run f, l, w))"
    by (rule pool_ok_start) (simp add: start_run_def)
  show "pool_ok cfg (nat (sint workers)) q'"
    if "pool_ok cfg (nat (sint workers)) q" "moves cfg os call i q q'" for i q q'
    by (rule pool_ok_moves [OF that assms workers_small])
qed (rule pool_ok_cancel)

lemma distinct_numbered: "m < 2 ^ 64 \<Longrightarrow> distinct (numbered m)"
  by (auto simp: numbered_def distinct_map inj_on_def of_nat_eq_64 simp del: upt_Suc)

lemma open_ids_length: "length (open_ids p) \<le> length (hands p)"
proof -
  have "length (concat (map open_id hs)) \<le> length hs" for hs
    by (induction hs) (auto simp: open_id_def split: phase.splits)
  then show ?thesis by (simp add: open_ids_def)
qed

lemma books_distinct:
  assumes "books_ok cfg p" and "length (pool_rows p) < 2 ^ 63" and "length (hands p) < 2 ^ 63"
  shows "distinct (map OpID (pool_rows p))"
proof -
  let ?m = "length (pool_rows p) + length (open_ids p)"
  have "?m < 2 ^ 64" using assms(2,3) open_ids_length [of p] by simp
  moreover have "mset (map OpID (pool_rows p) @ open_ids p) = mset (numbered ?m)"
    using assms(1) by (simp add: books_ok_def Let_def)
  ultimately have "distinct (map OpID (pool_rows p) @ open_ids p)"
    using distinct_numbered mset_eq_imp_distinct_iff by blast
  then show ?thesis by simp
qed

lemma length_by_worker:
  assumes "\<forall>r \<in> set rs. \<exists>i < n. WorkerID r = of_nat (Suc i)" and "n < 2 ^ 63"
  shows "length rs = (\<Sum>i < n. length (filter (\<lambda>r. WorkerID r = of_nat (Suc i)) rs))"
  using assms(1)
proof (induction rs)
  case (Cons r rs)
  then obtain j where j: "j < n" "WorkerID r = of_nat (Suc j)" by auto
  have "(\<Sum>i < n. length (filter (\<lambda>r. WorkerID r = of_nat (Suc i)) (r # rs)))
      = (\<Sum>i < n. (if i = j then 1 else 0) + length (filter (\<lambda>r. WorkerID r = of_nat (Suc i)) rs))"
    using worker_ids [OF assms(2)] j by (intro sum.cong refl) auto
  also have "\<dots> = 1 + length rs" using Cons j(1) by (simp add: sum.distrib)
  finally show ?case by simp
qed simp


definition busy_config :: load_config where
  "busy_config = \<lparr>lc_increments = 2, lc_thinkTime = 1, lc_killAfter = 4\<rparr>"

definition overlapping :: "pool_event list" where
  "overlapping = [Work 0, Work 1, Work 1, Work 0, Timer 1, Work 1, Interrupt, Work 1, Work 0, Timer 1, Work 1]"


section \<open>The injected fault\<close>

lemma finish_op_injector:
  assumes "finish_op os call killAfter workerID pd (s, l, w) = (s', l', w')" and "call l w = (err, n, l1, w1)"
  shows "l' = l1 \<and> (if 0 <s killAfter \<and> completed s + 1 = killAfter
    then Trigger os l1 (injector s) w1 = (Result (injector s'), injector s', w') else injector s' = injector s)"
proof -
  obtain e f w2 where t: "Trigger os l1 (injector s) w1 = (e, f, w2)" by (rule prod_cases3)
  then show ?thesis using assms Trigger_result [OF t]
    by (cases err) (auto simp: finish_op_def Let_def split: if_splits)
qed

lemma moves_shared:
  assumes "moves cfg os call i p p'" and "shared_run p = (s, l, w)" and "shared_run p' = (s', l', w')"
  shows "rows s' = rows s \<and> injector s' = injector s
    \<or> (\<exists>pd. finish_op os call (lc_killAfter cfg) (of_nat (Suc i)) pd (s, l, w) = (s', l', w'))"
  using assms(1)
proof (cases rule: moves.cases)
  case (start op pd st)
  have "shared_run p' = st" by (simp add: start(1))
  then show ?thesis using start(6) assms(2,3) by (auto simp: begin_op_result)
next
  case (complete pd st h)
  have "shared_run p' = st" by (simp add: complete(1))
  then show ?thesis using complete(4) assms(2,3) by auto
qed (use assms(2,3) in simp_all)

text \<open>An event leaves the injector alone, unless it is the completion the injector waits for.\<close>

lemma pool_step_injector:
  assumes "books_ok cfg p" and "shared_run p = (s, l, w)" and "shared_run (pool_step cfg os call e p) = (s', l', w')"
    and "length (rows s') < 2 ^ 63"
  shows "rows s' = rows s \<and> injector s' = injector s
    \<or> length (rows s') = Suc (length (rows s)) \<and> (\<exists>err n w1. call l w = (err, n, l', w1) \<and>
        (if sint (lc_killAfter cfg) = int (Suc (length (rows s)))
         then Trigger os l' (injector s) w1 = (Result (injector s'), injector s', w') else injector s' = injector s))"
proof -
  let ?p' = "pool_step cfg os call e p"
  consider "shared_run ?p' = shared_run p" | i where "moves cfg os call i p ?p'"
    using pool_step_cases [of cfg os call e p] by auto
  then show ?thesis
  proof cases
    case 1
    then have "s' = s" using assms(2,3) by simp
    then show ?thesis by simp
  next
    case 2
    from moves_shared [OF 2 assms(2,3)] show ?thesis
    proof
      assume "\<exists>pd. finish_op os call (lc_killAfter cfg) (of_nat (Suc i)) pd (s, l, w) = (s', l', w')"
      then obtain pd where f: "finish_op os call (lc_killAfter cfg) (of_nat (Suc i)) pd (s, l, w) = (s', l', w')" ..
      obtain err n l1 w1 where call: "call l w = (err, n, l1, w1)" by (rule prod_cases4)
      have len: "length (rows s') = Suc (length (rows s))" using finish_op_result [OF f] by auto
      have "completed s = of_nat (length (rows s))" using assms(1,2) by (simp add: books_ok_def Let_def)
      then have "(0 <s lc_killAfter cfg \<and> completed s + 1 = lc_killAfter cfg)
          \<longleftrightarrow> sint (lc_killAfter cfg) = int (Suc (length (rows s)))"
        using kill_count [of "length (rows s)" "lc_killAfter cfg"] assms(4) len by simp
      then show ?thesis using finish_op_injector [OF f call] call len by auto
    qed blast
  qed
qed

text \<open>The completion that fires the injector: the \<open>k\<close>-th, with the interceptor and the world its call left.\<close>

definition fired_at :: "load_config \<Rightarrow> 'w os \<Rightarrow> 'w client_call \<Rightarrow> 'w pool \<Rightarrow> faultInjector \<Rightarrow> killEvent \<Rightarrow>
    pool_event list \<Rightarrow> pool_event \<Rightarrow> bool" where
  "fired_at cfg os call p f event es e \<longleftrightarrow>
     (let (s0, l0, w0) = shared_run (run_pool cfg os call es p);
          (s1, l1, w1) = shared_run (run_pool cfg os call (es @ [e]) p);
          (err, n, l', w') = call l0 w0
      in int (length (rows s0)) = sint (lc_killAfter cfg) - 1 \<and> int (length (rows s1)) = sint (lc_killAfter cfg)
        \<and> l1 = l' \<and> trigger_body os l' f w' = (event, w1))"


definition killing_config :: load_config where
  "killing_config = \<lparr>lc_increments = 2, lc_thinkTime = 1, lc_killAfter = 1\<rparr>"


section \<open>A run comes to its end\<close>

text \<open>The events a worker still needs.\<close>

fun rank :: "nat \<Rightarrow> phase \<Rightarrow> nat" where
  "rank n (AtLoop op) = 3 * (Suc n - nat (sint op)) + 1"
| "rank n (InCall pd) = 3 * (Suc n - nat (sint (pd_op pd)))"
| "rank n (Resting op) = 3 * (n - nat (sint op)) + 2"
| "rank n Gone = 0"

definition total_rank :: "load_config \<Rightarrow> 'w pool \<Rightarrow> nat" where
  "total_rank cfg p = sum_list (map (rank (nat (sint (lc_increments cfg)))) (hands p))"

lemma sint_of_nat64: "n < 2 ^ 63 \<Longrightarrow> sint (of_nat n :: int64) = int n"
  using sint64_of_int [of "int n"] by simp

lemma increments_small: "nat (sint (lc_increments cfg)) < 2 ^ 63"
  using sint64_lt [of "lc_increments cfg"] by (simp add: nat_less_iff)

lemma total_rank_update:
  assumes "hands p' = (hands p)[i := h]" and "i < length (hands p)"
    and "rank (nat (sint (lc_increments cfg))) h < rank (nat (sint (lc_increments cfg))) (hands p ! i)"
  shows "total_rank cfg p' < total_rank cfg p"
proof -
  let ?r = "rank (nat (sint (lc_increments cfg)))"
  have "?r (hands p ! i) \<le> sum_list (map ?r (hands p))" using assms(2) by (intro member_le_sum_list) simp_all
  then show ?thesis using assms by (simp add: total_rank_def map_update sum_list_update)
qed

text \<open>Every move brings the run nearer to its end.\<close>

lemma moves_rank:
  assumes "pool_ok cfg n p" and "moves cfg os call i p p'" and "sane_config cfg"
  shows "total_rank cfg p' < total_rank cfg p"
proof -
  let ?n = "nat (sint (lc_increments cfg))"
  have len: "length (hands p) = n" using assms(1) by (simp add: pool_ok_def)
  have k: "\<exists>k. phase_ok (cancelled p) ?n k (hands p ! i)" if "i < n"
    using assms(1) that unfolding pool_ok_def worker_ok_def by blast
  have "?n < 2 ^ 63 - 1" using assms(3) by (simp add: sane_config_def nat_less_iff)
  then have small: "Suc ?n < 2 ^ 63" by simp
  have sn: "nat (sint (of_nat j :: int64)) = j" if "j \<le> Suc ?n" for j
    using sint_of_nat64 [of j] that small by simp
  from assms(2) show ?thesis
  proof (cases rule: moves.cases)
    case (leave op)
    then show ?thesis by (intro total_rank_update [of p' p i Gone]) simp_all
  next
    case (stop op)
    then show ?thesis by (intro total_rank_update [of p' p i Gone]) auto
  next
    case (start op pd st)
    obtain k where "phase_ok (cancelled p) ?n k (hands p ! i)" using k start(2) len by blast
    moreover have "pd_op pd = op" using start(6) by (cases "shared_run p") (auto simp: begin_op_result)
    ultimately show ?thesis using start sn by (intro total_rank_update [of p' p i "InCall pd"]) simp_all
  next
    case (complete pd st h)
    obtain k where k: "phase_ok (cancelled p) ?n k (InCall pd)" using k complete(2,3) len by force
    then have "k < ?n" by simp
    then have d: "?n - k = Suc (?n - Suc k)" by (rule Suc_diff_Suc [symmetric])
    from k have "rank ?n h < rank ?n (InCall pd)"
      using d sn [of "Suc k"] sn [of "Suc (Suc k)"] by (simp add: complete(5) add.commute)
    then show ?thesis using complete by (intro total_rank_update [of p' p i h]) simp_all
  next
    case (wake op)
    obtain k where k: "phase_ok (cancelled p) ?n k (Resting op)" using k wake(2,3) len by force
    then have "rank ?n (AtLoop (op + 1)) < rank ?n (Resting op)"
      using sn [of k] sn [of "Suc k"] by (simp add: add.commute)
    then show ?thesis using wake by (intro total_rank_update [of p' p i "AtLoop (op + 1)"]) simp_all
  qed
qed

text \<open>As long as a worker is there, some event other than a signal makes a move.\<close>

lemma pool_enabled:
  assumes "\<not> all_gone p"
  shows "\<exists>e i. e \<noteq> Interrupt \<and> moves cfg os call i p (pool_step cfg os call e p)"
proof -
  obtain h where "h \<in> set (hands p)" "h \<noteq> Gone" using assms by (auto simp: all_gone_def)
  then obtain i where i: "i < length (hands p)" "hands p ! i \<noteq> Gone" by (auto simp: in_set_conv_nth)
  show ?thesis
  proof (cases "hands p ! i")
    case (Resting op)
    then have "moves cfg os call i p (pool_step cfg os call (Timer i) p)"
      using i moves.wake [OF i(1) Resting, of cfg os call] by simp
    then show ?thesis by blast
  next
    case (AtLoop op)
    have "pool_step cfg os call (Work i) p \<noteq> p"
      using i(1) AtLoop by (auto simp: work_def split: prod.splits dest!: arg_cong [of _ p "\<lambda>q. hands q ! i"])
    then have "\<exists>j. moves cfg os call j p (pool_step cfg os call (Work i) p)"
      using pool_step_cases [of cfg os call "Work i" p] by blast
    then show ?thesis by blast
  next
    case (InCall pd)
    have "pool_step cfg os call (Work i) p \<noteq> p"
      using i(1) InCall by (auto simp: work_def dest!: arg_cong [of _ p "\<lambda>q. hands q ! i"] split: if_splits)
    then have "\<exists>j. moves cfg os call j p (pool_step cfg os call (Work i) p)"
      using pool_step_cases [of cfg os call "Work i" p] by blast
    then show ?thesis by blast
  qed (use i in simp)
qed

lemma pool_can_finish:
  assumes "pool_ok cfg n p" and "sane_config cfg" and "n < 2 ^ 63"
  shows "\<exists>fs. length fs \<le> total_rank cfg p \<and> Interrupt \<notin> set fs \<and> all_gone (run_pool cfg os call fs p)"
  using assms(1)
proof (induction "total_rank cfg p" arbitrary: p rule: less_induct)
  case less
  show ?case
  proof (cases "all_gone p")
    case True
    then show ?thesis by (intro exI [of _ "[]"]) simp
  next
    case False
    obtain e i where e: "e \<noteq> Interrupt" "moves cfg os call i p (pool_step cfg os call e p)"
      using pool_enabled [OF False] by blast
    let ?q = "pool_step cfg os call e p"
    note rank = moves_rank [OF less.prems e(2) assms(2)]
    obtain fs where fs: "length fs \<le> total_rank cfg ?q" "Interrupt \<notin> set fs" "all_gone (run_pool cfg os call fs ?q)"
      using less.hyps [OF rank pool_ok_moves [OF less.prems e(2) assms(2,3)]] by blast
    have "run_pool cfg os call (e # fs) p = run_pool cfg os call fs ?q" by (simp add: run_pool_def)
    then show ?thesis using fs e(1) rank by (intro exI [of _ "e # fs"]) simp
  qed
qed

lemma length_ops_of: "length (filter (\<lambda>r. WorkerID r = of_nat (Suc i)) (pool_rows p)) = length (ops_of p i)"
  by (simp add: ops_of_def)

lemma length_numbered [simp]: "length (numbered k) = k"
  by (simp add: numbered_def)

lemma pool_rows_sum:
  assumes "pool_ok cfg n p" and "n < 2 ^ 63"
  shows "length (pool_rows p) = (\<Sum>i < n. length (ops_of p i))"
proof -
  have "\<forall>r \<in> set (pool_rows p). \<exists>i < n. WorkerID r = of_nat (Suc i)" using assms(1) unfolding pool_ok_def by blast
  from length_by_worker [OF this assms(2)] show ?thesis unfolding length_ops_of .
qed



lemma total_rank_bound:
  assumes "pool_ok cfg n p" and "sane_config cfg"
  shows "total_rank cfg p \<le> n * (3 * nat (sint (lc_increments cfg)) + 2)"
proof -
  let ?n = "nat (sint (lc_increments cfg))"
  have small: "Suc ?n < 2 ^ 63"
  proof -
    have "?n < 2 ^ 63 - 1" using assms(2) by (simp add: sane_config_def nat_less_iff)
    then show ?thesis by simp
  qed
  have len: "length (hands p) = n" using assms(1) by (simp add: pool_ok_def)
  have "rank ?n h \<le> 3 * ?n + 2" if h: "h \<in> set (hands p)" for h
  proof -
    obtain i where "i < n" "h = hands p ! i" using h unfolding in_set_conv_nth len by blast
    then obtain k where k: "phase_ok (cancelled p) ?n k h"
      using assms(1) unfolding pool_ok_def worker_ok_def by blast
    then have "k \<le> ?n" by (cases h) simp_all
    then have "nat (sint (of_nat (Suc k) :: int64)) = Suc k" using small sint_of_nat64 [of "Suc k"] by simp
    then have "AtLoop op = h \<Longrightarrow> nat (sint op) = Suc k" "InCall pd = h \<Longrightarrow> nat (sint (pd_op pd)) = Suc k" for op pd
      using k by auto
    then show ?thesis by (cases h) fastforce+
  qed
  then have "sum_list (map (rank ?n) (hands p)) \<le> sum_list (map (\<lambda>h. 3 * ?n + 2) (hands p))"
    by (intro sum_list_mono) simp
  then show ?thesis by (simp add: total_rank_def sum_list_triv len)
qed



end
