(* ===== verification/Load_Session.thy ===== *)
theory Load_Session
  imports Worker_Pool Client_Session
begin

text \<open>
  The load generator against the servers: the workers of \<open>cmd/loadgen\<close>, with the whole chain of
  client interceptors between them and a group of servers of \<open>internal/server\<close>, messages being lost
  in any pattern.  The lemmas follow the leader's counter through every event of the workers, and
  the last section reads the result off the run's metadata.  Operations overlap, but the call inside
  an operation is one event; \<open>Concurrent_Calls\<close> cuts it further.
\<close>

section \<open>The chain as the workers' call\<close>

text \<open>The world of a run: the next free tracker, the request interceptor, the trackers and the group.\<close>

type_synonym load_world = "nat \<times> RequestIDInterceptor \<times> trackers \<times> Group"

definition load_call :: "((trackers \<times> Group) invoker \<Rightarrow> (trackers \<times> Group) invoker) \<Rightarrow> string set \<Rightarrow> string \<Rightarrow>
    load_world client_call" where
  "load_call retry up counterID l w =
     (let (t, i, h, g) = w;
          rpcCtx = WithAttemptTracker Background (Some t);
          (res, i', l', h', g') = session_call (loadgen_runtime retry (group_runtime up)) rpcCtx counterID
            (i, l, h(t := NewAttemptTracker), g)
      in (case res of Inl e \<Rightarrow> Some e | Inr _ \<Rightarrow> None, Count h' (Some t), l', (Suc t, i', h', g')))"

text \<open>That is the chain \<open>main\<close> builds.\<close>

lemma loadgen_runtime_chain:
  "loadgen_chain retry rt c m req r cc i w = RequestID_Unary (leader_invoker (loadgen_runtime retry rt)) c m req r cc i w"
  by (simp add: loadgen_chain_def loadgen_runtime_def)

section \<open>The leader's counter during a run\<close>

definition call_due :: "string set \<Rightarrow> string \<Rightarrow> nat \<Rightarrow> RequestIDInterceptor \<Rightarrow> Group \<Rightarrow> bool" where
  "call_due up L n i g \<longleftrightarrow> settled up L g \<and> new_to (server_at g L) i n"

lemma load_call_once:
  assumes "repeats retry" and "call_due up L (Suc n) i g" and "Suc n < 2 ^ 64" and "k \<noteq> []"
    and "load_call retry up k l (t, i, h, g) = (err, a, l', (t', i', h', g'))"
  shows "call_due up L n i' g' \<and>
    (err = None \<and> map_zero (counters (server_at g' L)) k = map_zero (counters (server_at g L)) k + 1 \<or>
     err \<noteq> None \<and> (\<exists>d \<in> {0, 1}. map_zero (counters (server_at g' L)) k = map_zero (counters (server_at g L)) k + d))"
proof -
  let ?q = "stamped_request i \<lparr>irq_CounterId = k, irq_ClientId = [], irq_RequestId = 0\<rparr>"
  obtain res h1 where call: "session_call (loadgen_runtime retry (group_runtime up)) (WithAttemptTracker Background (Some t)) k
      (i, l, (h(t := NewAttemptTracker), g)) = (res, (i', l', (h1, g')))"
      and err: "err = (case res of Inl e \<Rightarrow> Some e | Inr _ \<Rightarrow> None)"
    using assms(5) by (auto simp: load_call_def Let_def split: prod.splits)
  have due: "settled up L (snd (h(t := NewAttemptTracker), g))" "new_to (server_at (snd (h(t := NewAttemptTracker), g)) L) i (Suc n)"
    using assms(2) by (simp_all add: call_due_def)
  note once = once_runtime.session_call_once [OF loadgen_runtime_once [OF assms(1)] due assms(4) call, unfolded snd_conv]
  have new: "new_to (server_at g L) i (Suc n)" using assms(2) by (simp add: call_due_def)
  have "call_due up L n i' g'"
    using once new_to_next [OF new assms(3), of "server_at g' L" k] by (auto simp: call_due_def)
  moreover have "map_zero (counters (executed (server_at g L) ?q)) k = map_zero (counters (server_at g L)) k + 1"
    by (simp add: map_zero_put incr_response_def stamped_request_def)
  ultimately show ?thesis using once err by (cases res) auto
qed

text \<open>
  The ledger of a run on one counter: it has grown by \<open>n\<close>, which is between the successes and the
  completed operations, and the identifiers of the operations still to come are new to the leader.
\<close>

definition ledger :: "string set \<Rightarrow> string \<Rightarrow> string \<Rightarrow> int64 \<Rightarrow> nat \<Rightarrow> load_world pool \<Rightarrow> bool" where
  "ledger up L k c0 bound p \<longleftrightarrow>
     (case shared_run p of (s, l, t, i, h, g) \<Rightarrow>
        call_due up L (bound - length (rows s)) i g \<and>
        (\<exists>n c. map_zero (counters (server_at g L)) k = c0 + of_nat n \<and> successCount s = of_nat c
           \<and> c \<le> n \<and> n \<le> length (rows s)))"

lemma in_call_room:
  assumes "pool_ok cfg n p" and "n < 2 ^ 63" and "i < n" and "hands p ! i = InCall pd"
  shows "length (pool_rows p) < n * nat (sint (lc_increments cfg))"
proof -
  let ?n = "nat (sint (lc_increments cfg))"
  have len: "length (ops_of p j) \<le> ?n \<and> (j = i \<longrightarrow> length (ops_of p j) < ?n)" if j: "j < n" for j
  proof -
    obtain k where "ops_of p j = numbered k" "phase_ok (cancelled p) ?n k (hands p ! j)"
      using assms(1) j unfolding pool_ok_def worker_ok_def by blast
    then show ?thesis using assms(4) by (cases "hands p ! j") auto
  qed
  have "(\<Sum>j < n. length (ops_of p j)) < (\<Sum>j < n. ?n)"
    using len assms(3) by (intro sum_strict_mono_ex1) auto
  then show ?thesis using pool_rows_sum [OF assms(1,2)] by simp
qed

lemma ledgerI:
  "shared_run p = (s, l, t, i, h, g) \<Longrightarrow> call_due up L (bound - length (rows s)) i g \<Longrightarrow>
   map_zero (counters (server_at g L)) k = c0 + of_nat n \<Longrightarrow> successCount s = of_nat c \<Longrightarrow> c \<le> n \<Longrightarrow>
   n \<le> length (rows s) \<Longrightarrow> ledger up L k c0 bound p"
  unfolding ledger_def by (simp only: prod.case) blast

lemma ledger_cong:
  "shared_run p = (s, l, w) \<Longrightarrow> shared_run p' = (s', l', w) \<Longrightarrow> rows s' = rows s \<Longrightarrow> successCount s' = successCount s \<Longrightarrow>
   ledger up L k c0 bound p' = ledger up L k c0 bound p"
  by (cases w) (simp add: ledger_def)

lemma ledger_complete:
  assumes "repeats retry" and "k \<noteq> []" and "bound < 2 ^ 64" and "length (pool_rows p) < bound"
    and "ledger up L k c0 bound p" and "\<not> 0 <s killAfter"
    and "finish_op os (load_call retry up k) killAfter workerID pd (shared_run p) = st" and "shared_run p' = st"
  shows "ledger up L k c0 bound p'"
proof -
  obtain s l t i h g where st: "shared_run p = (s, l, (t, i, h, g))" by (metis prod.exhaust)
  obtain err a l' t' i' h' g' where call: "load_call retry up k l (t, i, h, g) = (err, a, l', (t', i', h', g'))"
    by (metis prod.exhaust)
  obtain m where m: "bound - length (rows s) = Suc m" "bound - Suc (length (rows s)) = m"
    using assms(4) by (cases "bound - length (rows s)") (auto simp: st)
  obtain n c where old: "call_due up L (Suc m) i g" "map_zero (counters (server_at g L)) k = c0 + of_nat n"
      "successCount s = of_nat c" "c \<le> n" "n \<le> length (rows s)"
    using assms(5) by (auto simp: ledger_def st m)
  have "Suc m < 2 ^ 64" using m(1) assms(3) by linarith
  note once = load_call_once [OF assms(1) old(1) this assms(2) call]
  obtain row where fin: "st = ((case err of Some e \<Rightarrow> s\<lparr>failureCount := failureCount s + 1\<rparr>
      | None \<Rightarrow> s\<lparr>successCount := successCount s + 1\<rparr>)\<lparr>rows := rows s @ [row], completed := completed s + 1\<rparr>,
      l', (t', i', h', g'))"
    using assms(6,7) by (cases err) (auto simp: finish_op_def Let_def st call)
  obtain s' where s': "shared_run p' = (s', l', t', i', h', g')" "rows s' = rows s @ [row]"
      "successCount s' = (if err = None then successCount s + 1 else successCount s)"
    by (cases err) (simp_all add: assms(8) fin)
  have due: "call_due up L (bound - length (rows s')) i' g'" using once m(2) by (simp add: s'(2))
  show ?thesis
  proof (cases err)
    case None
    then have "map_zero (counters (server_at g' L)) k = c0 + of_nat (Suc n)" "successCount s' = of_nat (Suc c)"
      using once old(2,3) s'(3) by simp_all
    from ledgerI [OF s'(1) due this] old(4,5) s'(2) show ?thesis by simp
  next
    case (Some e)
    then obtain d where d: "d \<in> {0, 1}" "map_zero (counters (server_at g' L)) k = c0 + of_nat n + d"
      using once old(2) by auto
    then have "map_zero (counters (server_at g' L)) k = c0 + of_nat (if d = 0 then n else Suc n)" by auto
    moreover have "successCount s' = of_nat c" using old(3) s'(3) Some by simp
    moreover have "c \<le> (if d = 0 then n else Suc n)" "(if d = 0 then n else Suc n) \<le> length (rows s')"
      using old(4,5) s'(2) by auto
    ultimately show ?thesis by (rule ledgerI [OF s'(1) due])
  qed
qed

lemma ledger_moves:
  assumes "ledger up L k c0 (n * nat (sint (lc_increments cfg))) p" and "pool_ok cfg n p"
    and "moves cfg os (load_call retry up k) i p p'"
    and "repeats retry" and "k \<noteq> []" and "n < 2 ^ 63" and "n * nat (sint (lc_increments cfg)) < 2 ^ 64"
    and "\<not> 0 <s lc_killAfter cfg"
  shows "ledger up L k c0 (n * nat (sint (lc_increments cfg))) p'"
  using assms(3)
proof (cases rule: moves.cases)
  case (start op pd st)
  obtain s l w where st: "shared_run p = (s, l, w)" by (rule prod_cases3)
  then have "shared_run p' = (s\<lparr>started := started s + 1\<rparr>, l, w)" using start by (auto simp: begin_op_result)
  from ledger_cong [OF st this] assms(1) show ?thesis by simp
next
  case (complete pd st h)
  have "i < n" using complete(2) assms(2) by (simp add: pool_ok_def)
  note room = in_call_room [OF assms(2,6) this complete(3)]
  have "shared_run p' = st" by (simp add: complete(1))
  from ledger_complete [OF assms(4,5,7) room assms(1,8) complete(4) this] show ?thesis .
qed (use assms(1) in \<open>simp_all add: ledger_def\<close>)

lemma ledger_run:
  assumes "repeats retry" and "k \<noteq> []" and "sane_config cfg" and "\<not> 0 <s lc_killAfter cfg"
    and "nat (sint workers) * nat (sint (lc_increments cfg)) < 2 ^ 64"
    and "call_due up L (nat (sint workers) * nat (sint (lc_increments cfg))) i g"
  shows "ledger up L k (map_zero (counters (server_at g L)) k) (nat (sint workers) * nat (sint (lc_increments cfg)))
    (run_pool cfg os (load_call retry up k) es (start_pool workers (start_run f, l, (t, i, h, g))))"
proof -
  let ?n = "nat (sint workers)"
  let ?P = "\<lambda>p. ledger up L k (map_zero (counters (server_at g L)) k) (?n * nat (sint (lc_increments cfg))) p
    \<and> pool_ok cfg ?n p"
  have "?P (run_pool cfg os (load_call retry up k) es (start_pool workers (start_run f, l, (t, i, h, g))))"
  proof (rule pool_rule [where P = ?P])
    have "rows (start_run f) = []" by (simp add: start_run_def)
    from pool_ok_start [OF this] have "pool_ok cfg ?n (start_pool workers (start_run f, l, (t, i, h, g)))" .
    moreover have "ledger up L k (map_zero (counters (server_at g L)) k) (?n * nat (sint (lc_increments cfg)))
        (start_pool workers (start_run f, l, (t, i, h, g)))"
      using assms(6) by (auto simp: ledger_def start_pool_def start_run_def intro: exI [of _ 0])
    ultimately show "?P (start_pool workers (start_run f, l, (t, i, h, g)))" by blast
    show "?P q'" if "?P q" "moves cfg os (load_call retry up k) j q q'" for j q q'
      using that ledger_moves [OF _ _ that(2) assms(1,2) workers_small assms(5,4)]
        pool_ok_moves [OF _ that(2) assms(3) workers_small] by blast
    show "?P (q\<lparr>cancelled := True\<rparr>)" if "?P q" for q
      using that pool_ok_cancel by (auto simp: ledger_def)
  qed
  then show ?thesis by blast
qed

section \<open>What the metadata says\<close>

text \<open>The final \<open>GetCounter\<close> of \<open>main\<close>, through the same chain.\<close>

definition final_read :: "((trackers \<times> Group) invoker \<Rightarrow> (trackers \<times> Group) invoker) \<Rightarrow> string set \<Rightarrow> string \<Rightarrow>
    RequestIDInterceptor \<times> LeaderInterceptor \<times> trackers \<times> Group \<Rightarrow>
    (go_error + reply) \<times> RequestIDInterceptor \<times> LeaderInterceptor \<times> trackers \<times> Group" where
  "final_read retry up counterID =
     client_GetCounter
       (\<lambda>req out. requestid_invoker (leader_invoker (loadgen_runtime retry (group_runtime up))) Background
          ''/counter.CounterService/GetCounter'' req out None)
       \<lparr>grq_CounterId = counterID\<rparr>"

lemma final_read_value:
  assumes "repeats retry" and "settled up L g" and "final_read retry up k (i, l, (h, g)) = (Inr r, w')"
  shows "r = GetReply \<lparr>grs_Value = map_zero (counters (server_at g L)) k, grs_RedirectTo = []\<rparr>"
proof -
  obtain err r' l' hg' where call: "Leader_Unary (loadgen_runtime retry (group_runtime up)) Background
      ''/counter.CounterService/GetCounter'' (GetReq \<lparr>grq_CounterId = k\<rparr>) (GetReply \<lparr>grs_Value = 0, grs_RedirectTo = []\<rparr>)
      l (h, g) = (err, r', l', hg')"
    by (rule prod_cases4)
  have s: "settled up L (snd (h, g))" using assms(2) by simp
  have "err = None \<and> r' = r"
    using assms(3) call
    by (cases err) (auto simp: final_read_def client_GetCounter_def requestid_invoker_def RequestID_Unary_def
        leader_invoker_def stamp_def Let_def)
  then show ?thesis using once_runtime.call_reads [OF loadgen_runtime_once [OF assms(1)] s call] by simp
qed

lemma pool_rows_bound:
  assumes "pool_ok cfg n p" and "n < 2 ^ 63"
  shows "length (pool_rows p) \<le> n * nat (sint (lc_increments cfg))"
proof -
  have "length (ops_of p j) \<le> nat (sint (lc_increments cfg))" if j: "j < n" for j
  proof -
    obtain k where "ops_of p j = numbered k" "phase_ok (cancelled p) (nat (sint (lc_increments cfg))) k (hands p ! j)"
      using assms(1) j unfolding pool_ok_def worker_ok_def by blast
    then show ?thesis by (cases "hands p ! j") auto
  qed
  then have "(\<Sum>j < n. length (ops_of p j)) \<le> (\<Sum>j < n. nat (sint (lc_increments cfg)))" by (intro sum_mono) simp
  then show ?thesis using pool_rows_sum [OF assms] by simp
qed


definition two_workers :: load_config where
  "two_workers = \<lparr>lc_increments = 1, lc_thinkTime = 0, lc_killAfter = 0\<rparr>"

definition lossy_run :: "load_world pool" where
  "lossy_run = run_pool two_workers \<lparr>Now = (\<lambda>w. 1), Lsof = (\<lambda>port w. Inr []), FindProcess = (\<lambda>pid w. Inr pid), Signal = (\<lambda>pid sig w. (None, w))\<rparr>
     (load_call (retry_up_to 4) (set [''s1'', ''s2'', ''s3'']) ''x'') [Work 0, Work 1, Work 1, Work 0]
     (start_pool 2 (start_run sample_injector, client_of [''s2'', ''s1''],
       (0, NewRequestIDInterceptor ''u'', (\<lambda>t. NewAttemptTracker), group5 [Delivered, ReplyLost timeout_error])))"


end
