(* ===== verification/Concurrent_Calls.thy ===== *)
theory Concurrent_Calls
  imports Client_Session
begin

text \<open>
  Calls of one \<open>LeaderInterceptor\<close> that overlap, as the workers of the load generator make them.  The
  interceptor's mutex protects its fields for moments only: a call reads the binding under it,
  invokes without it, and takes it again in \<open>nextAlivePeer\<close> and in \<open>rebind\<close>.  Here a call of
  \<open>internal/client/interceptor.go\<close> is cut at these points; a schedule says which call takes the next
  step, and whether the retry layer below the interceptor invokes again after an error.
\<close>

section \<open>The steps of a call\<close>

text \<open>
  Where a call is, with the attempts it has left: before it reads the binding, before it invokes on
  what it has read, before \<open>nextAlivePeer\<close>, before \<open>rebind\<close> with the text of its error, returned.
\<close>

datatype call_pc =
    Reading nat
  | Invoking nat "client_conn option" string
  | Choosing nat
  | Rebinding nat string string
  | Finished "go_error option"

record active_call =
  ac_ctx :: ctx
  ac_method :: string
  ac_req :: request
  ac_dead :: "(string, bool) gomap"
  ac_reply :: reply
  ac_pc :: call_pc

text \<open>What follows an invocation that ended without an error.\<close>

definition answered_call ::
  "'w runtime \<Rightarrow> nat \<Rightarrow> reply \<Rightarrow> active_call \<Rightarrow> 'w \<Rightarrow> active_call \<times> 'w" where
  "answered_call rt n r call w =
     (let (redirectTo, r') = take_redirect r; call' = call\<lparr>ac_reply := r'\<rparr> in
      if redirectTo = [] then (call'\<lparr>ac_pc := Finished None\<rparr>, w)
      else if is_dead (ac_dead call) redirectTo
      then (call'\<lparr>ac_pc := Reading n\<rparr>, Sleep rt (100 * millisecond) w)
      else (call'\<lparr>ac_pc := Rebinding n redirectTo ''failed to rebind: ''\<rparr>, w))"

definition failed_call ::
  "'w runtime \<Rightarrow> nat \<Rightarrow> string \<Rightarrow> go_error \<Rightarrow> active_call \<Rightarrow> 'w \<Rightarrow> active_call \<times> 'w" where
  "failed_call rt n addr e call w =
     (if isTransportFailure (Some e)
      then (call\<lparr>ac_dead := AList.update addr True (ac_dead call), ac_pc := Choosing n\<rparr>, w)
      else (call\<lparr>ac_pc := Reading n\<rparr>, Sleep rt (100 * millisecond) w))"

definition call_micro ::
  "'w runtime \<Rightarrow> bool \<Rightarrow> active_call \<Rightarrow> LeaderInterceptor \<Rightarrow> 'w \<Rightarrow> active_call \<times> LeaderInterceptor \<times> 'w" where
  "call_micro rt again call l w =
     (case ac_pc call of
        Reading 0 \<Rightarrow>
          (call\<lparr>ac_pc := Finished (Some (OtherError
             (''exceeded max attempts ('' @ FormatInt (of_nat maxAttempts) @ '')'')))\<rparr>, l, w)
      | Reading (Suc n) \<Rightarrow> (call\<lparr>ac_pc := Invoking n (li_currConn l) (li_leaderAddr l)\<rparr>, l, w)
      | Invoking n conn addr \<Rightarrow>
          (let (r, err, w1) = Invoke rt (ac_ctx call) (ac_method call) (ac_req call) (ac_reply call) conn w;
               call1 = call\<lparr>ac_reply := r\<rparr>;
               (call2, w2) =
                 (case err of
                    None \<Rightarrow> answered_call rt n r call1 w1
                  | Some e \<Rightarrow> if again then (call1, w1) else failed_call rt n addr e call1 w1)
           in (call2, l, w2))
      | Choosing n \<Rightarrow>
          (let (next, l1) = nextAlivePeer (ac_dead call) l in
           (call\<lparr>ac_pc := if next = [] then Finished (Some (OtherError ''all peers unreachable''))
                         else Rebinding n next ''failed to bind to backup peer: ''\<rparr>, l1, w))
      | Rebinding n addr message \<Rightarrow>
          (let (err, l1, w1) = rebind rt addr l w in
           (call\<lparr>ac_pc := (case err of None \<Rightarrow> Reading n
                          | Some e \<Rightarrow> Finished (Some (Errorf_w message e)))\<rparr>, l1, w1))
      | Finished err \<Rightarrow> (call, l, w))"

lemma after_invoke_request:
  "answered_call rt n r call w = (call', w') \<Longrightarrow> ac_req call' = ac_req call"
  "failed_call rt n addr e call w = (call', w') \<Longrightarrow> ac_req call' = ac_req call"
  by (auto simp: answered_call_def failed_call_def Let_def split: prod.splits if_splits)

lemma call_micro_request:
  "call_micro rt again call l w = (call', l', w') \<Longrightarrow> ac_req call' = ac_req call"
  by (auto dest!: after_invoke_request simp: call_micro_def Let_def
      split: call_pc.splits nat.splits option.splits prod.splits if_splits)

text \<open>A call on its own, of a number of steps.\<close>

fun call_alone :: "'w runtime \<Rightarrow> nat \<Rightarrow> active_call \<times> LeaderInterceptor \<times> 'w \<Rightarrow> active_call \<times> LeaderInterceptor \<times> 'w" where
  "call_alone rt 0 st = st"
| "call_alone rt (Suc n) (call, l, w) = call_alone rt n (call_micro rt False call l w)"

definition new_call :: "ctx \<Rightarrow> string \<Rightarrow> request \<Rightarrow> reply \<Rightarrow> active_call" where
  "new_call c m q r =
     \<lparr>ac_ctx = c, ac_method = m, ac_req = q, ac_dead = [], ac_reply = r, ac_pc = Reading maxAttempts\<rparr>"

lemma call_alone_finished:
  "ac_pc call = Finished err \<Longrightarrow> call_alone rt n (call, l, w) = (call, l, w)"
  by (induction n) (simp_all add: call_micro_def)

lemma call_alone_add: "call_alone rt (a + b) st = call_alone rt b (call_alone rt a st)"
proof (induction a arbitrary: st)
  case (Suc a)
  obtain call l w where "st = (call, l, w)" by (cases st)
  then show ?case using Suc by simp
qed simp

text \<open>Four steps of a call are a turn of the loop, or the call returns within them.\<close>

definition call_at :: "ctx \<Rightarrow> string \<Rightarrow> request \<Rightarrow> call_pc \<Rightarrow> 'w call_state \<Rightarrow> active_call \<times> LeaderInterceptor \<times> 'w" where
  "call_at c m q p s =
     (\<lparr>ac_ctx = c, ac_method = m, ac_req = q, ac_dead = dead_peers s, ac_reply = reply_of s, ac_pc = p\<rparr>,
      interceptor s, world s)"

lemma call_at_finished: "call_alone rt n (call_at c m q (Finished err) s) = call_at c m q (Finished err) s"
  by (simp add: call_at_def call_alone_finished)

lemma turn_in_steps:
  "\<exists>k \<le> 4. 0 < k \<and> call_alone rt k (call_at c m q (Reading (Suc n)) s) =
     (case unary_turn rt c m q s of
        (Continue, s') \<Rightarrow> call_at c m q (Reading n) s'
      | (Return err, s') \<Rightarrow> call_at c m q (Finished err) s')"
proof -
  obtain r err w where i: "Invoke rt c m q (reply_of s) (li_currConn (interceptor s)) (world s) = (r, err, w)"
    by (cases "Invoke rt c m q (reply_of s) (li_currConn (interceptor s)) (world s)")
  obtain x s' where t: "unary_turn rt c m q s = (x, s')" by (cases "unary_turn rt c m q s")
  note step = call_micro_def call_at_def answered_call_def failed_call_def eval_nat_numeral
  from t i show ?thesis
  proof (cases rule: unary_turn_cases)
    case (wait e)
    then show ?thesis using i t by (intro exI [of _ 2]) (simp add: step)
  next
    case (unreachable e l')
    then show ?thesis using i t by (intro exI [of _ 3]) (simp add: step)
  next
    case (failover e l1 nx b l' w')
    then show ?thesis using i t by (intro exI [of _ 4]) (simp add: step split: option.split)
  next
    case (redirect_dead to r')
    then show ?thesis using i t by (intro exI [of _ 2]) (simp add: step)
  next
    case (follow to r' b l' w')
    then show ?thesis using i t by (intro exI [of _ 3]) (simp add: step split: option.split)
  next
    case (finish r')
    then show ?thesis using i t by (intro exI [of _ 2]) (simp add: step)
  qed
qed

lemma loop_in_steps:
  "call_alone rt (4 * n + 1) (call_at c m q (Reading n) s) =
     (case unary_loop rt c m q n s of (err, s') \<Rightarrow> call_at c m q (Finished err) s')"
proof (induction n arbitrary: s)
  case 0
  then show ?case by (simp add: call_micro_def call_at_def)
next
  case (Suc n)
  obtain x s' where t: "unary_turn rt c m q s = (x, s')" by (cases "unary_turn rt c m q s")
  obtain k where k: "k \<le> 4" "call_alone rt k (call_at c m q (Reading (Suc n)) s) =
     (case x of Continue \<Rightarrow> call_at c m q (Reading n) s' | Return err \<Rightarrow> call_at c m q (Finished err) s')"
    using turn_in_steps [of rt c m q n s] t by auto
  have split: "4 * Suc n + 1 = k + ((4 * n + 1) + (4 - k))" using k(1) by simp
  have "call_alone rt (4 * Suc n + 1) (call_at c m q (Reading (Suc n)) s) =
      call_alone rt (4 - k) (call_alone rt (4 * n + 1)
        (case x of Continue \<Rightarrow> call_at c m q (Reading n) s' | Return err \<Rightarrow> call_at c m q (Finished err) s'))"
    by (simp only: split call_alone_add k(2))
  moreover have "call_alone rt (4 - k) (case u of (err, s') \<Rightarrow> call_at c m q (Finished err) s')
      = (case u of (err, s') \<Rightarrow> call_at c m q (Finished err) s')" for u
    by (cases u) (simp add: call_at_finished)
  ultimately show ?case
    by (cases x) (simp_all only: loop_exit.case call_at_finished Suc.IH t unary_loop.simps prod.case)
qed

text \<open>The cut call is the call: with no other call in between, 61 steps return what \<open>Leader_Unary\<close>
  returns and leave what it leaves, for every runtime and from every state.\<close>

lemma uninterrupted_call:
  "(case call_alone rt 61 (new_call c m q r, l, w) of (call, l', w') \<Rightarrow> (ac_pc call, ac_reply call, l', w')) =
     (case Leader_Unary rt c m q r l w of (err, r', l', w') \<Rightarrow> (Finished err, r', l', w'))"
  using loop_in_steps [of rt maxAttempts c m q "\<lparr>dead_peers = [], interceptor = l, reply_of = r, world = w\<rparr>"]
  by (simp add: maxAttempts_def call_at_def new_call_def Leader_Unary_def split: prod.split)

section \<open>Schedules\<close>

type_synonym 'w calls = "active_call list \<times> LeaderInterceptor \<times> 'w"

fun call_turn :: "'w runtime \<Rightarrow> nat \<times> bool \<Rightarrow> 'w calls \<Rightarrow> 'w calls" where
  "call_turn rt (i, again) (cs, l, w) =
     (if i < length cs
      then (case call_micro rt again (cs ! i) l w of (call, l', w') \<Rightarrow> (cs[i := call], l', w'))
      else (cs, l, w))"

definition run_calls :: "'w runtime \<Rightarrow> (nat \<times> bool) list \<Rightarrow> 'w calls \<Rightarrow> 'w calls" where
  "run_calls rt schedule st = fold (call_turn rt) schedule st"

definition increment_calls :: "(nat \<Rightarrow> ctx) \<Rightarrow> IncrRequest list \<Rightarrow> active_call list" where
  "increment_calls c qs =
     map (\<lambda>i. new_call (c i) ''/counter.CounterService/IncrCounter'' (IncrReq (qs ! i))
       (IncrReply \<lparr>irs_NewValue = 0, irs_RedirectTo = []\<rparr>)) [0 ..< length qs]"

lemma run_calls_rule:
  assumes "P st" and "\<And>x cs l w. P (cs, l, w) \<Longrightarrow> P (call_turn rt x (cs, l, w))"
  shows "P (run_calls rt schedule st)"
proof -
  have "P (fold (call_turn rt) schedule st)" if "P st" for st
    using that
  proof (induction schedule arbitrary: st)
    case (Cons x schedule)
    obtain cs l w where "st = (cs, l, w)" by (cases st)
    then show ?case using Cons assms(2) by simp
  qed simp
  then show ?thesis using assms(1) by (simp add: run_calls_def)
qed

text \<open>A step of a call on the servers: it invokes once, or it leaves them alone.\<close>

lemma rebind_group:
  "rebind (group_runtime up) a l g =
     (None, (if li_leaderAddr l = a then l else l\<lparr>li_currConn := Some (ClientConn a), li_leaderAddr := a\<rparr>), g)"
  by (auto simp: rebind_def split: option.split)

lemma call_micro_group:
  assumes "call_micro (group_runtime up) again call l g = (call', l', g')"
  shows "ac_req call' = ac_req call \<and>
    (g' = g \<and> (ac_pc call' = Finished None \<longrightarrow> call' = call) \<or>
     (\<exists>conn r e. group_invoke up (ac_ctx call) (ac_method call) (ac_req call) (ac_reply call) conn g = (r, e, g') \<and>
        (ac_pc call' = Finished None \<longrightarrow> e = None \<and> fst (take_redirect r) = [] \<and> ac_reply call' = snd (take_redirect r))))"
proof (cases "ac_pc call")
  case (Reading n)
  then show ?thesis using assms by (cases n) (auto simp: call_micro_def)
next
  case (Invoking n conn addr)
  obtain r e g1 where i: "group_invoke up (ac_ctx call) (ac_method call) (ac_req call) (ac_reply call) conn g = (r, e, g1)"
    by (cases "group_invoke up (ac_ctx call) (ac_method call) (ac_req call) (ac_reply call) conn g")
  have "ac_req call' = ac_req call \<and> g' = g1 \<and>
    (ac_pc call' = Finished None \<longrightarrow> e = None \<and> fst (take_redirect r) = [] \<and> ac_reply call' = snd (take_redirect r))"
    using assms i Invoking
    by (cases e) (auto simp: call_micro_def answered_call_def failed_call_def Let_def split: if_splits prod.splits)
  then show ?thesis using i by blast
next
  case (Choosing n)
  then show ?thesis using assms by (auto simp: call_micro_def split: prod.splits if_splits)
next
  case (Rebinding n addr message)
  then show ?thesis using assms by (auto simp: call_micro_def rebind_group)
next
  case (Finished err)
  then show ?thesis using assms by (auto simp: call_micro_def)
qed

section \<open>What the calls do to the servers\<close>

text \<open>The leader after the executions of some of the requests, in an order.\<close>

definition applied :: "IncrRequest list \<Rightarrow> nat list \<Rightarrow> Server \<Rightarrow> Server" where
  "applied qs xs s = fold (\<lambda>i t. executed t (qs ! i)) xs s"

definition uses_of :: "IncrRequest list \<Rightarrow> nat list \<Rightarrow> string \<Rightarrow> nat" where
  "uses_of qs xs k = length (filter (\<lambda>i. irq_CounterId (qs ! i) = k) xs)"

definition request_key :: "IncrRequest \<Rightarrow> string \<times> int64" where
  "request_key q = (irq_ClientId q, irq_RequestId q)"

lemma applied_simps [simp]:
  "applied qs [] s = s" "applied qs (xs @ [i]) s = executed (applied qs xs s) (qs ! i)"
  by (simp_all add: applied_def)

lemma applied_counters:
  "map_zero (counters (applied qs xs s)) k = map_zero (counters s) k + of_nat (uses_of qs xs k)"
  by (induction xs rule: rev_induct) (auto simp: uses_of_def incr_response_def map_zero_put)

text \<open>A request is executed on the leader: it is known there afterwards, and the others are as before.\<close>

lemma executed_other_key:
  assumes "request_key q \<noteq> request_key q'"
  shows "cached_reply (executed s q) q' = cached_reply s q'"
  using assms
  by (auto simp: cached_reply_def tracked_def executed_cache rcache.get_set request_key_def identified_def)

definition trackable :: "Server \<Rightarrow> IncrRequest list \<Rightarrow> bool" where
  "trackable s qs \<longleftrightarrow> (\<forall>q \<in> set qs. fresh_request s q) \<and> distinct (map request_key qs)"

lemma trackable_facts:
  assumes "trackable s qs"
  shows "i < length qs \<Longrightarrow> fresh_request s (qs ! i)"
    and "i < length qs \<Longrightarrow> j < length qs \<Longrightarrow> i \<noteq> j \<Longrightarrow> request_key (qs ! i) \<noteq> request_key (qs ! j)"
  using assms by (auto simp: trackable_def distinct_conv_nth)

lemma applied_cached:
  assumes "trackable s qs" and "distinct xs" and "set xs \<subseteq> {..<length qs}" and "i < length qs"
  shows "(i \<notin> set xs \<longrightarrow> fresh_request (applied qs xs s) (qs ! i)) \<and>
    (\<forall>n < length xs. xs ! n = i \<longrightarrow>
       cached_reply (applied qs xs s) (qs ! i) = Some (incr_response (applied qs (take n xs) s) (qs ! i)))"
  using assms(2,3)
proof (induction xs rule: rev_induct)
  case Nil
  then show ?case using trackable_facts(1) [OF assms(1,4)] by simp
next
  case (snoc j xs)
  have IH: "i \<notin> set xs \<longrightarrow> fresh_request (applied qs xs s) (qs ! i)"
    "\<forall>n < length xs. xs ! n = i \<longrightarrow>
       cached_reply (applied qs xs s) (qs ! i) = Some (incr_response (applied qs (take n xs) s) (qs ! i))"
    using snoc by auto
  show ?case
  proof (cases "i = j")
    case True
    then have new: "i \<notin> set xs" using snoc.prems(1) by simp
    then have "cached_reply (applied qs (xs @ [j]) s) (qs ! i) = Some (incr_response (applied qs xs s) (qs ! i))"
      using IH(1) executed_cached True by simp
    then show ?thesis using True new by (auto simp: nth_append less_Suc_eq)
  next
    case False
    then have key: "request_key (qs ! j) \<noteq> request_key (qs ! i)"
      using trackable_facts(2) [OF assms(1)] snoc.prems(2) assms(4) by auto
    then have "cached_reply (applied qs (xs @ [j]) s) (qs ! i) = cached_reply (applied qs xs s) (qs ! i)"
      using executed_other_key by simp
    moreover have "fresh_request (applied qs (xs @ [j]) s) (qs ! i)" if "fresh_request (applied qs xs s) (qs ! i)"
      using that key by (auto simp: fresh_request_def executed_cache rcache.get_set request_key_def)
    ultimately show ?thesis using IH False by (auto simp: nth_append less_Suc_eq)
  qed
qed

text \<open>One invocation of a request the leader may or may not have executed before.\<close>

lemma redirect_reply: "fst (take_redirect (IncrReply x)) = irs_RedirectTo x"
  "irs_RedirectTo x = [] \<Longrightarrow> snd (take_redirect (IncrReply x)) = IncrReply x"
  by simp_all

lemma handle_any:
  assumes "settled up L g" and "dedupEnabled (server_at g L)" and "identified q" and "a \<in> up"
    and "group_handle up (IncrReq q) a g = (res, g')"
  shows "settled up L g' \<and>
    (server_at g' L = server_at g L \<or>
      cached_reply (server_at g L) q = None \<and> server_at g' L = executed (server_at g L) q) \<and>
    (\<exists>x. res = Inr (IncrReply x) \<and> (irs_RedirectTo x = [] \<longrightarrow> cached_reply (server_at g' L) q = Some x))"
proof (cases "a = L")
  case False
  then show ?thesis
    using assms group_incr_redirect [OF assms(1) _ assms(4)]
    by (auto simp: group_handle_def identified_def settled_def)
next
  case True
  have h: "group_incr up q L g = (res, g')" using assms(5) True by (simp add: group_handle_def)
  have k: "irq_CounterId q \<noteq> []" using assms(3) by (simp add: identified_def)
  note leader = group_incr_leader [OF assms(1) k h]
  show ?thesis
  proof (cases "cached_reply (server_at g L) q")
    case None
    then have "fresh_request (server_at g L) q"
      using assms(2,3) by (simp add: fresh_request_def cached_reply_def tracked_def identified_def)
    then have "cached_reply (executed (server_at g L) q) q = Some (incr_response (server_at g L) q)"
      by (rule executed_cached)
    then show ?thesis using leader None by simp
  next
    case (Some x)
    then show ?thesis using leader by simp
  qed
qed

lemma invoke_any:
  assumes "settled up L g" and "dedupEnabled (server_at g L)" and "identified q"
    and "group_invoke up c m (IncrReq q) r conn g = (r', e, g')"
  shows "settled up L g' \<and>
    (server_at g' L = server_at g L \<or>
      cached_reply (server_at g L) q = None \<and> server_at g' L = executed (server_at g L) q) \<and>
    (e = None \<longrightarrow> fst (take_redirect r') = [] \<longrightarrow>
       (\<exists>x. cached_reply (server_at g' L) q = Some x \<and> snd (take_redirect r') = IncrReply x))"
proof (cases "\<exists>cc. conn = Some cc \<and> conn_target cc \<in> up")
  case False
  then show ?thesis using assms(1,4) by (auto simp: group_invoke_def split: option.splits)
next
  case True
  then obtain cc where cc: "conn = Some cc" "conn_target cc \<in> up" by blast
  define g1 where "g1 = g\<lparr>fates := tl (fates g)\<rparr>"
  have g1: "settled up L g1" "server_at g1 = server_at g" using assms(1) by (simp_all add: g1_def)
  obtain res g2 where h: "group_handle up (IncrReq q) (conn_target cc) g1 = (res, g2)"
    by (cases "group_handle up (IncrReq q) (conn_target cc) g1")
  obtain x where x: "res = Inr (IncrReply x)" "irs_RedirectTo x = [] \<longrightarrow> cached_reply (server_at g2 L) q = Some x"
    using handle_any [OF g1(1) _ assms(3) cc(2) h] assms(2) g1(2) by auto
  have g2: "settled up L g2" "server_at g2 L = server_at g L \<or>
      cached_reply (server_at g L) q = None \<and> server_at g2 L = executed (server_at g L) q"
    using handle_any [OF g1(1) _ assms(3) cc(2) h] assms(2) g1(2) by auto
  define f where "f = (case fates g of [] \<Rightarrow> Delivered | f # _ \<Rightarrow> f)"
  have "(r', e, g') = (case f of RequestLost e \<Rightarrow> (r, Some e, g1) | ReplyLost e \<Rightarrow> (r, Some e, g2)
      | Delivered \<Rightarrow> (IncrReply x, None, g2))"
    using assms(4) cc(2) by (cases f) (simp_all add: group_invoke_def Let_def cc(1) h x(1) flip: f_def g1_def)
  then show ?thesis using g1 g2 x(2) by (cases f) (auto simp: redirect_reply)
qed

section \<open>Exactly once under concurrency\<close>

text \<open>
  The invariant: the leader has executed some of the requests, each once, in the order \<open>xs\<close>, and a call
  that has returned without an error is among them and holds the reply of its execution.
\<close>

definition answered_at :: "IncrRequest list \<Rightarrow> Server \<Rightarrow> nat list \<Rightarrow> nat \<Rightarrow> reply \<Rightarrow> bool" where
  "answered_at qs s xs i r \<longleftrightarrow>
     (\<exists>n < length xs. xs ! n = i \<and> r = IncrReply (incr_response (applied qs (take n xs) s) (qs ! i)))"

definition executed_as :: "string set \<Rightarrow> string \<Rightarrow> IncrRequest list \<Rightarrow> Server \<Rightarrow> nat list \<Rightarrow> Group calls \<Rightarrow> bool" where
  "executed_as up L qs s xs st \<longleftrightarrow> (case st of (cs, l, g) \<Rightarrow>
     distinct xs \<and> set xs \<subseteq> {..<length qs} \<and> settled up L g \<and> server_at g L = applied qs xs s \<and>
     length cs = length qs \<and>
     (\<forall>i < length qs. ac_req (cs ! i) = IncrReq (qs ! i) \<and>
       (ac_pc (cs ! i) = Finished None \<longrightarrow> answered_at qs s xs i (ac_reply (cs ! i)))))"

lemma answered_at_snoc: "answered_at qs s xs i r \<Longrightarrow> answered_at qs s (xs @ [j]) i r"
  unfolding answered_at_def by (metis append_take_drop_id length_append_singleton less_SucI nth_append
    less_imp_le take_append diff_is_0_eq' take0 append_Nil2)

lemma dedup_applied: "dedupEnabled (applied qs xs s) = dedupEnabled s"
  by (induction xs rule: rev_induct) simp_all

lemma call_turn_executed:
  assumes "trackable s qs" and "executed_as up L qs s xs (cs, l, g)"
  shows "\<exists>xs'. executed_as up L qs s xs' (call_turn (group_runtime up) (i, again) (cs, l, g))"
proof (cases "i < length qs")
  case False
  then show ?thesis using assms(2) by (intro exI [of _ xs]) (simp add: executed_as_def)
next
  case i: True
  have inv: "distinct xs" "set xs \<subseteq> {..<length qs}" "settled up L g" "server_at g L = applied qs xs s"
      "length cs = length qs"
    and ok: "\<And>j. j < length qs \<Longrightarrow> ac_req (cs ! j) = IncrReq (qs ! j) \<and>
      (ac_pc (cs ! j) = Finished None \<longrightarrow> answered_at qs s xs j (ac_reply (cs ! j)))"
    using assms(2) by (auto simp: executed_as_def)
  obtain call l' g' where m: "call_micro (group_runtime up) again (cs ! i) l g = (call, l', g')"
    by (cases "call_micro (group_runtime up) again (cs ! i) l g")
  have turn: "call_turn (group_runtime up) (i, again) (cs, l, g) = (cs[i := call], l', g')"
    using i inv(5) m by simp
  have keep: "executed_as up L qs s xs' (cs[i := call], l', g')"
    if "distinct xs'" "set xs' \<subseteq> {..<length qs}" "settled up L g'" "server_at g' L = applied qs xs' s"
      "xs' = xs \<or> xs' = xs @ [i]"
      "ac_pc call = Finished None \<Longrightarrow> answered_at qs s xs' i (ac_reply call)" for xs'
    using that ok i inv(5) call_micro_group [OF m] answered_at_snoc
    by (auto simp: executed_as_def nth_list_update)
  consider (idle) "g' = g" "ac_pc call = Finished None \<longrightarrow> call = cs ! i"
    | (invoked) conn r e where
      "group_invoke up (ac_ctx (cs ! i)) (ac_method (cs ! i)) (IncrReq (qs ! i)) (ac_reply (cs ! i)) conn g = (r, e, g')"
      "ac_pc call = Finished None \<longrightarrow> e = None \<and> fst (take_redirect r) = [] \<and> ac_reply call = snd (take_redirect r)"
    using call_micro_group [OF m] ok [OF i] by auto
  then show ?thesis
  proof cases
    case idle
    then show ?thesis unfolding turn using inv ok [OF i] by (intro exI [of _ xs] keep) auto
  next
    case invoked
    have fresh: "fresh_request s (qs ! i)" using trackable_facts(1) [OF assms(1) i] .
    then have "dedupEnabled (server_at g L)" "identified (qs ! i)"
      by (simp_all add: inv(4) dedup_applied fresh_request_def)
    note once = invoke_any [OF inv(3) this invoked(1)]
    have known: "answered_at qs s ys i (IncrReply x)"
      if ys: "distinct ys" "set ys \<subseteq> {..<length qs}" "i \<in> set ys" "cached_reply (applied qs ys s) (qs ! i) = Some x" for ys x
    proof -
      obtain n where "n < length ys" "ys ! n = i" using ys(3) by (auto simp: in_set_conv_nth)
      then show ?thesis using applied_cached [OF assms(1) ys(1,2) i] ys(4) by (auto simp: answered_at_def)
    qed
    have unknown: "cached_reply (applied qs xs s) (qs ! i) = None \<longleftrightarrow> i \<notin> set xs"
      using applied_cached [OF assms(1) inv(1,2) i] fresh_cached by (auto simp: in_set_conv_nth)
    show ?thesis
    proof (cases "server_at g' L = server_at g L")
      case True
      have "answered_at qs s xs i (ac_reply call)" if "ac_pc call = Finished None"
        using once invoked(2) that True inv(4) unknown known [OF inv(1,2)] by auto
      then show ?thesis unfolding turn using inv once True by (intro exI [of _ xs] keep) auto
    next
      case False
      then have new: "i \<notin> set xs" "server_at g' L = applied qs (xs @ [i]) s"
        using once inv(4) unknown by auto
      have xs: "distinct (xs @ [i])" "set (xs @ [i]) \<subseteq> {..<length qs}" using inv(1,2) new(1) i by auto
      have "answered_at qs s (xs @ [i]) i (ac_reply call)" if "ac_pc call = Finished None"
        using once invoked(2) that new(2) known [OF xs] by auto
      then show ?thesis unfolding turn using once new xs by (intro exI [of _ "xs @ [i]"] keep) auto
    qed
  qed
qed

text \<open>C5: Exactly once under concurrency.  Any number of calls of one interceptor overlap, as the
  workers of the load generator make them, with distinct request numbers that are new to the
  leader, deduplication on and leadership fixed.  Whatever the schedule, the messages that are
  lost, the retries below the interceptor and the state the interceptor starts in: the leader has
  executed each request at most once, every counter has grown by the number of its executed
  requests, and every call that has returned success was executed and holds the value of its own
  execution, so that no two calls on a counter are told the same value.\<close>

theorem concurrent_calls_count_once:
  assumes "settled up L g" and "trackable (server_at g L) qs"
    and "run_calls (group_runtime up) schedule (increment_calls c qs, l, g) = (cs, l', g')"
  shows "\<exists>xs. distinct xs \<and> set xs \<subseteq> {..<length qs}
    \<and> (\<forall>k. map_zero (counters (server_at g' L)) k = map_zero (counters (server_at g L)) k + of_nat (uses_of qs xs k))
    \<and> (\<forall>i < length qs. ac_pc (cs ! i) = Finished None \<longrightarrow>
        (\<exists>n < length xs. xs ! n = i \<and> ac_reply (cs ! i) = IncrReply \<lparr>irs_NewValue =
            map_zero (counters (server_at g L)) (irq_CounterId (qs ! i)) +
              of_nat (uses_of qs (take n xs) (irq_CounterId (qs ! i))) + 1, irs_RedirectTo = []\<rparr>))"
proof -
  let ?P = "\<lambda>st. \<exists>xs. executed_as up L qs (server_at g L) xs st"
  have start: "executed_as up L qs (server_at g L) [] (increment_calls c qs, l, g)"
    using assms(1) by (simp add: executed_as_def increment_calls_def new_call_def maxAttempts_def)
  have "?P (run_calls (group_runtime up) schedule (increment_calls c qs, l, g))"
  proof (rule run_calls_rule [where P = ?P])
    show "?P (increment_calls c qs, l, g)" using start by blast
    show "?P (call_turn (group_runtime up) x (cs, l, w))" if "?P (cs, l, w)" for x cs l w
      using that call_turn_executed [OF assms(2), of up L _ cs l w "fst x" "snd x"] by auto
  qed
  then obtain xs where "executed_as up L qs (server_at g L) xs (cs, l', g')" using assms(3) by auto
  then show ?thesis
    by (intro exI [of _ xs])
      (auto simp: executed_as_def answered_at_def applied_counters incr_response_def)
qed

lemma trackable_group5: "trackable (server_at (group5 fs) ''s1'') [req_on ''x'' ''u'' 1, req_on ''x'' ''u'' 2]"
proof -
  have "dedupEnabled (srv5 ''s1'') \<and> cache (srv5 ''s1'') = newReplyCache" by code_simp
  then show ?thesis
    by (simp add: trackable_def fresh_request_def identified_def request_key_def group5_def req_on_def rcache.get_empty)
qed

text \<open>Two calls, the interceptor bound to a follower, the first execution's reply lost.\<close>

definition overlap :: "(nat \<times> bool) list" where
  "overlap = map (\<lambda>i. (i, False)) [0, 1, 0, 1, 0, 0, 0, 1, 1, 1, 0, 0]"

lemma concurrent_calls_count_once_witness:
  "\<exists>xs. distinct xs \<and> set xs \<subseteq> {..<2}
    \<and> map_zero (counters (server_at (snd (snd (run_calls (group_runtime {''s1'', ''s2'', ''s3''}) overlap
        (increment_calls (\<lambda>i. Background) [req_on ''x'' ''u'' 1, req_on ''x'' ''u'' 2],
         client_of [''s2'', ''s1''], group5 [Delivered, Delivered, ReplyLost timeout_error])))) ''s1'')) ''x''
      = of_nat (uses_of [req_on ''x'' ''u'' 1, req_on ''x'' ''u'' 2] xs ''x'')"
proof -
  let ?qs = "[req_on ''x'' ''u'' 1, req_on ''x'' ''u'' 2]"
  let ?g = "group5 [Delivered, Delivered, ReplyLost timeout_error]"
  obtain cs l' g' where run: "run_calls (group_runtime {''s1'', ''s2'', ''s3''}) overlap
      (increment_calls (\<lambda>i. Background) ?qs, client_of [''s2'', ''s1''], ?g) = (cs, l', g')"
    by (metis prod.exhaust)
  have zero: "map_zero (counters (server_at ?g ''s1'')) ''x'' = 0" by code_simp
  obtain xs where "distinct xs" "set xs \<subseteq> {..<length ?qs}"
      "\<forall>k. map_zero (counters (server_at g' ''s1'')) k = map_zero (counters (server_at ?g ''s1'')) k + of_nat (uses_of ?qs xs k)"
    using concurrent_calls_count_once [OF settled_group5 trackable_group5 run] by blast
  then show ?thesis unfolding run by (intro exI [of _ xs]) (simp add: zero numeral_2_eq_2)
qed

section \<open>Calls that get in each other's way\<close>

text \<open>
  A world in which only redirects and failures happen: it says whether the leader was asked.  As long
  as it was not, a run over this world is the run over any settled group, which it leaves alone.
\<close>

definition quiet_invoke :: "string set \<Rightarrow> string \<Rightarrow> bool invoker" where
  "quiet_invoke up L c m q r conn asked =
     (case conn of
        None \<Rightarrow> (r, Some (OtherError ''no connection''), asked)
      | Some cc \<Rightarrow>
          if conn_target cc \<notin> up then (r, Some refused, asked)
          else if conn_target cc = L then (r, None, True)
          else (IncrReply \<lparr>irs_NewValue = 0, irs_RedirectTo = L\<rparr>, None, asked))"

definition quiet_runtime :: "string set \<Rightarrow> string \<Rightarrow> bool runtime" where
  "quiet_runtime up L =
     \<lparr>Invoke = quiet_invoke up L, NewClient = (\<lambda>a. Inr (ClientConn a)),
      CloseConn = (\<lambda>conn asked. (None, asked)), Sleep = (\<lambda>d asked. asked)\<rparr>"

lemma quiet_invoke_group:
  assumes "quiet_invoke up L c m (IncrReq q) r conn asked = (r', e, False)"
    and "settled up L g" and "fates g = []" and "irq_CounterId q \<noteq> []"
  shows "\<not> asked \<and> group_invoke up c m (IncrReq q) r conn g = (r', e, g)"
proof -
  have eq: "g\<lparr>fates := []\<rparr> = g" using assms(3) by simp
  show ?thesis
    using assms group_incr_redirect [OF assms(2,4)]
    by (auto simp: eq quiet_invoke_def group_invoke_def group_handle_def split: option.splits if_splits)
qed

lemma quiet_rebind:
  "rebind (quiet_runtime up L) a l asked =
     (None, (if li_leaderAddr l = a then l else l\<lparr>li_currConn := Some (ClientConn a), li_leaderAddr := a\<rparr>), asked)"
  by (auto simp: quiet_runtime_def rebind_def split: option.split)

lemma after_invoke_world:
  "answered_call (group_runtime up) n r call g = (fst (answered_call (quiet_runtime up L) n r call asked), g)"
  "failed_call (group_runtime up) n a e call g = (fst (failed_call (quiet_runtime up L) n a e call asked), g)"
  "answered_call (quiet_runtime up L) n r call asked = (call', asked') \<Longrightarrow> asked' = asked"
  "failed_call (quiet_runtime up L) n a e call asked = (call', asked') \<Longrightarrow> asked' = asked"
  by (auto simp: answered_call_def failed_call_def quiet_runtime_def Let_def split: prod.splits if_splits)

lemma quiet_micro:
  assumes "call_micro (quiet_runtime up L) again call l asked = (call', l', False)"
    and "settled up L g" and "fates g = []" and "ac_req call = IncrReq q" and "irq_CounterId q \<noteq> []"
  shows "\<not> asked \<and> call_micro (group_runtime up) again call l g = (call', l', g)"
proof (cases "ac_pc call")
  case (Reading n)
  then show ?thesis using assms(1) by (cases n) (auto simp: call_micro_def)
next
  case (Invoking n conn addr)
  obtain r e asked1 where i: "quiet_invoke up L (ac_ctx call) (ac_method call) (IncrReq q) (ac_reply call) conn asked = (r, e, asked1)"
    by (cases "quiet_invoke up L (ac_ctx call) (ac_method call) (IncrReq q) (ac_reply call) conn asked")
  have qi: "Invoke (quiet_runtime up L) = quiet_invoke up L" by (simp add: quiet_runtime_def)
  have no: "asked1 = False"
    using assms(1)
    by (cases e) (auto dest!: after_invoke_world(3,4) simp: call_micro_def Invoking qi assms(4) i Let_def split: if_splits prod.splits)
  note g = quiet_invoke_group [OF i [unfolded no] assms(2,3,5)]
  show ?thesis
    using assms(1) g i no
    by (cases e) (auto simp: call_micro_def Invoking qi assms(4) after_invoke_world [where L = L and asked = False] Let_def
        split: if_splits prod.splits)
next
  case (Choosing n)
  then show ?thesis using assms(1) by (auto simp: call_micro_def split: prod.splits)
next
  case (Rebinding n addr message)
  then show ?thesis using assms(1) by (auto simp: call_micro_def rebind_group quiet_rebind)
next
  case (Finished err)
  then show ?thesis using assms(1) by (auto simp: call_micro_def)
qed

lemma quiet_run:
  assumes "settled up L g" and "fates g = []"
    and "\<forall>call \<in> set cs. \<exists>q. ac_req call = IncrReq q \<and> irq_CounterId q \<noteq> []"
    and "run_calls (quiet_runtime up L) schedule (cs, l, asked) = (cs', l', False)"
  shows "\<not> asked \<and> run_calls (group_runtime up) schedule (cs, l, g) = (cs', l', g)"
  using assms(3,4)
proof (induction schedule arbitrary: cs l asked)
  case (Cons x schedule)
  obtain i again where x: "x = (i, again)" by (cases x)
  show ?case
  proof (cases "i < length cs")
    case True
    obtain q where q: "ac_req (cs ! i) = IncrReq q" "irq_CounterId q \<noteq> []"
      using Cons.prems(1) True by (meson nth_mem)
    obtain call l1 asked1 where m: "call_micro (quiet_runtime up L) again (cs ! i) l asked = (call, l1, asked1)"
      by (cases "call_micro (quiet_runtime up L) again (cs ! i) l asked")
    have step: "run_calls (quiet_runtime up L) schedule (cs[i := call], l1, asked1) = (cs', l', False)"
      using Cons.prems(2) True by (simp add: run_calls_def x m)
    have "ac_req call = ac_req (cs ! i)" using call_micro_request [OF m] .
    then have named: "\<forall>call \<in> set (cs[i := call]). \<exists>q. ac_req call = IncrReq q \<and> irq_CounterId q \<noteq> []"
      using Cons.prems(1) q set_update_subset_insert [of cs i call] by auto
    note IH = Cons.IH [OF named step]
    then have "asked1 = False" by simp
    then show ?thesis
      using IH quiet_micro [OF m [unfolded \<open>asked1 = False\<close>] assms(1,2) q] True by (simp add: run_calls_def x)
  next
    case False
    then show ?thesis using Cons.prems Cons.IH [of cs l asked] by (simp add: run_calls_def x)
  qed
qed (simp add: run_calls_def)

text \<open>
  The schedule.  All of 21 calls find the bound server dead.  Then one of them follows the redirects to
  the leader, and each time it has bound the leader, another one, which still has its failure to
  deal with, binds the shared interceptor to a follower.
\<close>

definition crowd :: "(nat \<times> bool) list" where
  "crowd = map (\<lambda>i. (i, False))
     (concat (map (\<lambda>i. [i, i]) [0 ..< 21]) @ [1, 1, 0, 0, 0, 0] @
      concat (map (\<lambda>i. if i mod 3 = 0 then [i, i] else [0, i, i, 0, 0]) [2 ..< 21]) @ [0, 0])"

definition crowd_requests :: "IncrRequest list" where
  "crowd_requests = map (\<lambda>i. req_on ''x'' ''u'' (of_nat (Suc i))) [0 ..< 21]"

lemma quiet_crowd:
  "case run_calls (quiet_runtime (set [''s1'', ''s2'', ''s3'']) ''s1'') crowd
      (increment_calls (\<lambda>i. Background) crowd_requests, client_of [''s4'', ''s1'', ''s2'', ''s3''], False) of
     (cs, l, asked) \<Rightarrow> \<not> asked \<and> ac_pc (cs ! 0) = Finished (Some (OtherError ''exceeded max attempts (15)''))"
  by code_simp

text \<open>C28: Calls that share an interceptor can crowd each other out.  Three servers agree on a serving
  leader, no message is lost, and the interceptor is bound to a fourth that is dead.  Alone, a call
  finds the leader.  Under this schedule of 21 calls the first of them is sent to followers
  fourteen times, because each time it has bound the leader another call's old failure binds a
  follower again, and it returns the attempt-limit error; the leader was never asked.\<close>

theorem call_crowded_out:
  assumes "settled {''s1'', ''s2'', ''s3''} ''s1'' g" and "fates g = []"
  shows "(\<exists>r' l' g'. Leader_Unary (group_runtime {''s1'', ''s2'', ''s3''}) Background ''/counter.CounterService/IncrCounter''
        (IncrReq (crowd_requests ! 0)) (IncrReply \<lparr>irs_NewValue = 0, irs_RedirectTo = []\<rparr>)
        (client_of [''s4'', ''s1'', ''s2'', ''s3'']) g = (None, r', l', g'))
    \<and> (case run_calls (group_runtime {''s1'', ''s2'', ''s3''}) crowd
        (increment_calls (\<lambda>i. Background) crowd_requests, client_of [''s4'', ''s1'', ''s2'', ''s3''], g) of
       (cs, l', g') \<Rightarrow> ac_pc (cs ! 0) = Finished (Some (OtherError ''exceeded max attempts (15)'')) \<and> g' = g)"
proof
  have first: "crowd_requests ! 0 = req_on ''x'' ''u'' 1" by code_simp
  show "\<exists>r' l' g'. Leader_Unary (group_runtime {''s1'', ''s2'', ''s3''}) Background ''/counter.CounterService/IncrCounter''
        (IncrReq (crowd_requests ! 0)) (IncrReply \<lparr>irs_NewValue = 0, irs_RedirectTo = []\<rparr>)
        (client_of [''s4'', ''s1'', ''s2'', ''s3'']) g = (None, r', l', g')"
    using servers.call_finds_leader [of "{''s1'', ''s2'', ''s3''}" "''s1''" g "IncrReq (req_on ''x'' ''u'' 1)"
        "client_of [''s4'', ''s1'', ''s2'', ''s3'']" Background "''/counter.CounterService/IncrCounter''"
        "IncrReply \<lparr>irs_NewValue = 0, irs_RedirectTo = []\<rparr>"] assms
    unfolding first by (fastforce simp: named_counter_def req_on_def client_of_def insert_Diff_if)
  obtain cs l' asked where q: "run_calls (quiet_runtime {''s1'', ''s2'', ''s3''} ''s1'') crowd
      (increment_calls (\<lambda>i. Background) crowd_requests, client_of [''s4'', ''s1'', ''s2'', ''s3''], False) = (cs, l', asked)"
    by (metis prod.exhaust)
  have out: "asked = False" "ac_pc (cs ! 0) = Finished (Some (OtherError ''exceeded max attempts (15)''))"
    using quiet_crowd q by simp_all
  have named: "\<forall>call \<in> set (increment_calls (\<lambda>i. Background) crowd_requests).
      \<exists>q. ac_req call = IncrReq q \<and> irq_CounterId q \<noteq> []"
    by (auto simp: increment_calls_def new_call_def crowd_requests_def req_on_def)
  show "case run_calls (group_runtime {''s1'', ''s2'', ''s3''}) crowd
        (increment_calls (\<lambda>i. Background) crowd_requests, client_of [''s4'', ''s1'', ''s2'', ''s3''], g) of
       (cs, l', g') \<Rightarrow> ac_pc (cs ! 0) = Finished (Some (OtherError ''exceeded max attempts (15)'')) \<and> g' = g"
    using quiet_run [OF assms named q [unfolded out(1)]] out(2) by simp
qed

lemma call_crowded_out_witness:
  "case run_calls (group_runtime {''s1'', ''s2'', ''s3''}) crowd
        (increment_calls (\<lambda>i. Background) crowd_requests, client_of [''s4'', ''s1'', ''s2'', ''s3''], group5 []) of
       (cs, l', g') \<Rightarrow> ac_pc (cs ! 0) = Finished (Some (OtherError ''exceeded max attempts (15)'')) \<and> g' = group5 []"
proof -
  have "fates (group5 []) = []" by (simp add: group5_def)
  from call_crowded_out [OF settled_group5 this] show ?thesis by (rule conjunct2)
qed

section \<open>Calls that only meet redirects\<close>

text \<open>With no message lost, an invocation at a server that is up is answered or redirected.\<close>

lemma reliable_invoke:
  assumes "settled up L g" and "fates g = []" and "irq_CounterId q \<noteq> []" and "a \<in> up"
    and "group_invoke up c m (IncrReq q) r (Some (ClientConn a)) g = (r', e, g')"
  shows "settled up L g' \<and> fates g' = [] \<and> e = None \<and> fst (take_redirect r') = (if a = L then [] else L)"
proof -
  have eq: "g\<lparr>fates := []\<rparr> = g" using assms(2) by simp
  obtain res g1 where h: "group_incr up q a g = (res, g1)" by (cases "group_incr up q a g")
  show ?thesis
  proof (cases "a = L")
    case True
    have "irs_RedirectTo x = []" if "cached_reply (server_at g L) q = Some x" for x
      using cached_no_redirect [OF assms(1) that] .
    then show ?thesis
      using group_incr_leader [OF assms(1,3) h [unfolded True]] assms(2,4,5) True h
      by (auto simp: group_invoke_def group_handle_def eq incr_response_def split: option.splits)
  next
    case False
    then show ?thesis
      using group_incr_redirect [OF assms(1,3,4)] assms by (auto simp: group_invoke_def group_handle_def eq)
  qed
qed

text \<open>Where a call can be when the interceptor was first bound to a server that is up, and how many
  steps it still takes: at most two invocations, the second at the leader.\<close>

fun led_pc :: "string set \<Rightarrow> string \<Rightarrow> string \<Rightarrow> call_pc \<Rightarrow> bool" where
  "led_pc up L bound (Reading n) \<longleftrightarrow> n = 15 \<or> n = 14 \<and> bound = L"
| "led_pc up L bound (Invoking n conn addr) \<longleftrightarrow> conn = Some (ClientConn addr) \<and> addr \<in> up \<and>
     (addr = L \<longrightarrow> bound = L) \<and> (n = 14 \<or> n = 13 \<and> addr = L)"
| "led_pc up L bound (Choosing n) \<longleftrightarrow> False"
| "led_pc up L bound (Rebinding n addr message) \<longleftrightarrow> n = 14 \<and> addr = L"
| "led_pc up L bound (Finished err) \<longleftrightarrow> err = None \<and> bound = L"

fun steps_left :: "call_pc \<Rightarrow> nat" where
  "steps_left (Reading n) = (if n = 15 then 5 else 2)"
| "steps_left (Invoking n conn addr) = (if n = 14 then 4 else 1)"
| "steps_left (Choosing n) = 0"
| "steps_left (Rebinding n addr message) = 3"
| "steps_left (Finished err) = 0"

definition led_call :: "string set \<Rightarrow> string \<Rightarrow> string \<Rightarrow> active_call \<Rightarrow> bool" where
  "led_call up L bound call \<longleftrightarrow> led_pc up L bound (ac_pc call) \<and> ac_dead call = [] \<and>
     (\<exists>q. ac_req call = IncrReq q \<and> irq_CounterId q \<noteq> [])"

definition led :: "string set \<Rightarrow> string \<Rightarrow> Group calls \<Rightarrow> bool" where
  "led up L st \<longleftrightarrow> (case st of (cs, l, g) \<Rightarrow>
     settled up L g \<and> fates g = [] \<and> li_leaderAddr l \<in> up \<and> li_currConn l = Some (ClientConn (li_leaderAddr l)) \<and>
     (\<forall>call \<in> set cs. led_call up L (li_leaderAddr l) call))"

lemma led_pc_leader: "led_pc up L bound p \<Longrightarrow> led_pc up L L p"
  by (cases p) auto

lemma led_micro:
  assumes "settled up L g" and "fates g = []" and "li_leaderAddr l \<in> up"
    and "li_currConn l = Some (ClientConn (li_leaderAddr l))" and "led_call up L (li_leaderAddr l) call"
    and "call_micro (group_runtime up) again call l g = (call', l', g')"
  shows "settled up L g' \<and> fates g' = [] \<and> led_call up L (li_leaderAddr l') call' \<and>
    (l' = l \<or> li_leaderAddr l' = L \<and> li_currConn l' = Some (ClientConn L)) \<and>
    steps_left (ac_pc call') \<le> steps_left (ac_pc call) - 1"
proof -
  have L: "L \<in> up" "L \<noteq> []" using assms(1) by (simp_all add: settled_def)
  obtain q where q: "ac_req call = IncrReq q" "irq_CounterId q \<noteq> []" using assms(5) by (auto simp: led_call_def)
  have pc: "led_pc up L (li_leaderAddr l) (ac_pc call)" and dead: "ac_dead call = []"
    using assms(5) by (simp_all add: led_call_def)
  show ?thesis
  proof (cases "ac_pc call")
    case (Reading n)
    then obtain n' where "n = Suc n'" using pc by (cases n) auto
    then show ?thesis using assms pc Reading q dead by (auto simp: call_micro_def led_call_def)
  next
    case (Invoking n conn addr)
    then have conn: "conn = Some (ClientConn addr)" "addr \<in> up" using pc by simp_all
    obtain r e g1 where i: "group_invoke up (ac_ctx call) (ac_method call) (IncrReq q) (ac_reply call) conn g = (r, e, g1)"
      by (cases "group_invoke up (ac_ctx call) (ac_method call) (IncrReq q) (ac_reply call) conn g")
    obtain to r1 where t: "take_redirect r = (to, r1)" by (cases "take_redirect r")
    note ok = reliable_invoke [OF assms(1,2) q(2) conn(2) i [unfolded conn(1)]]
    then show ?thesis
      using assms(6) pc Invoking q dead i t L
      by (auto simp: call_micro_def answered_call_def led_call_def is_dead_def split: if_splits)
  next
    case (Choosing n)
    then show ?thesis using pc by simp
  next
    case (Rebinding n addr message)
    then show ?thesis using assms pc q dead by (auto simp: call_micro_def rebind_group led_call_def split: if_splits)
  next
    case (Finished err)
    then show ?thesis using assms by (auto simp: call_micro_def)
  qed
qed

lemma led_call_bound: "led_call up L bound call \<Longrightarrow> led_call up L L call"
  using led_pc_leader by (auto simp: led_call_def)

lemma led_turn:
  assumes "led up L (cs, l, g)" and "call_turn (group_runtime up) (j, again) (cs, l, g) = (cs', l', g')"
  shows "led up L (cs', l', g') \<and> length cs' = length cs \<and>
    (i < length cs \<longrightarrow> steps_left (ac_pc (cs' ! i)) \<le> steps_left (ac_pc (cs ! i)) - (if j = i then 1 else 0))"
proof (cases "j < length cs")
  case False
  then show ?thesis using assms by auto
next
  case True
  obtain call l1 g1 where m: "call_micro (group_runtime up) again (cs ! j) l g = (call, l1, g1)"
    by (cases "call_micro (group_runtime up) again (cs ! j) l g")
  have turn: "cs' = cs[j := call]" "l' = l1" "g' = g1" using assms(2) True m by simp_all
  have ok: "settled up L g" "fates g = []" "li_leaderAddr l \<in> up"
      "li_currConn l = Some (ClientConn (li_leaderAddr l))"
    and calls: "\<And>x. x \<in> set cs \<Longrightarrow> led_call up L (li_leaderAddr l) x"
    using assms(1) by (auto simp: led_def)
  note step = led_micro [OF ok calls [OF nth_mem [OF True]] m]
  have others: "led_call up L (li_leaderAddr l1) x" if "x \<in> set cs" for x
    using step calls [OF that] led_call_bound by (cases "l1 = l") auto
  have "led_call up L (li_leaderAddr l1) x" if "x \<in> set (cs[j := call])" for x
    using that others step set_update_subset_insert [of cs j call] by auto
  moreover have "L \<in> up" using ok(1) by (simp add: settled_def)
  ultimately have "led up L (cs', l', g')" using step ok turn by (auto simp: led_def)
  then show ?thesis using step turn True by (auto simp: nth_list_update)
qed

lemma led_run:
  assumes "led up L (cs, l, g)" and "run_calls (group_runtime up) schedule (cs, l, g) = (cs', l', g')"
  shows "led up L (cs', l', g') \<and> length cs' = length cs \<and>
    (i < length cs \<longrightarrow>
      steps_left (ac_pc (cs' ! i)) \<le> steps_left (ac_pc (cs ! i)) - count_list (map fst schedule) i)"
  using assms
proof (induction schedule arbitrary: cs l g)
  case (Cons x schedule)
  obtain j again where x: "x = (j, again)" by (cases x)
  obtain cs1 l1 g1 where t: "call_turn (group_runtime up) (j, again) (cs, l, g) = (cs1, l1, g1)"
    by (cases "call_turn (group_runtime up) (j, again) (cs, l, g)")
  have "run_calls (group_runtime up) schedule (cs1, l1, g1) = (cs', l', g')"
    using Cons.prems(2) t by (simp add: run_calls_def x)
  from Cons.IH [OF _ this] led_turn [OF Cons.prems(1) t, of i] show ?case by (auto simp: x split: if_splits)
qed (simp add: run_calls_def)



end
