(* ===== verification/Decimal_Text.thy ===== *)
theory Decimal_Text
  imports Analysis Go_Float
begin

text \<open>
  Floating point numbers as text: the verb \<open>%.nf\<close> of \<open>fmt\<close>, which rounds the exact value of a
  \<open>float64\<close> half to even, and \<open>strconv.ParseFloat\<close> on plain decimals, which rounds the exact value of
  the text to the nearest \<open>float64\<close>.  The other spellings \<open>ParseFloat\<close> accepts (exponents,
  hexadecimal, infinities, underscores), and the error of a text that is no number, are a parameter.
  The sign of a negative zero is not kept.
\<close>

section \<open>Printing\<close>

fun frac_digits :: "nat \<Rightarrow> nat \<Rightarrow> string" where
  "frac_digits 0 m = []"
| "frac_digits (Suc p) m = frac_digits p (m div 10) @ [digit_char (m mod 10)]"

definition fixed :: "nat \<Rightarrow> float64 \<Rightarrow> string" where
  "fixed p v =
     (case v of
        NaN \<Rightarrow> ''NaN''
      | PosInf \<Rightarrow> ''+Inf''
      | NegInf \<Rightarrow> ''-Inf''
      | Fin a \<Rightarrow>
          let n = nat (round_half_even (\<bar>a\<bar> * 10 ^ p));
              body = dec_digits (n div 10 ^ p) @ (if p = 0 then [] else CHR ''.'' # frac_digits p (n mod 10 ^ p))
          in if a < 0 then CHR ''-'' # body else body)"

section \<open>Parsing\<close>

definition is_digit :: "char \<Rightarrow> bool" where
  "is_digit c \<longleftrightarrow> digit_val c \<noteq> None"

definition digits_value :: "nat \<Rightarrow> string \<Rightarrow> nat" where
  "digits_value n s = foldl (\<lambda>n c. n * 10 + the (digit_val c)) n s"

definition parse_decimal :: "string \<Rightarrow> rat option" where
  "parse_decimal s =
     (let neg = (take 1 s = ''-'');
          body = (if take 1 s = ''-'' \<or> take 1 s = ''+'' then drop 1 s else s);
          front = takeWhile is_digit body;
          (point, decimals) = (case dropWhile is_digit body of [] \<Rightarrow> (True, []) | c # cs \<Rightarrow> (c = CHR ''.'', cs))
      in if point \<and> list_all is_digit decimals \<and> front @ decimals \<noteq> []
         then Some ((if neg then -1 else 1) * of_nat (digits_value 0 (front @ decimals)) / 10 ^ length decimals)
         else None)"

definition ParseFloat :: "(string \<Rightarrow> go_error + float64) \<Rightarrow> string \<Rightarrow> go_error + float64" where
  "ParseFloat other s =
     (case parse_decimal s of
        None \<Rightarrow> other s
      | Some x \<Rightarrow>
          (case to_float64 x of
             Fin r \<Rightarrow> Inr (Fin r)
           | _ \<Rightarrow> Inl (OtherError (''strconv.ParseFloat: parsing '' @ Quote s @ '': value out of range''))))"

section \<open>Reading what was printed\<close>

lemma is_digit_char: "d < 10 \<Longrightarrow> is_digit (digit_char d)"
  by (simp add: is_digit_def digit_val_char)

lemma digits_value_Nil [simp]: "digits_value n [] = n"
  by (simp add: digits_value_def)

lemma digits_value_append: "digits_value n (s @ t) = digits_value (digits_value n s) t"
  by (simp add: digits_value_def)

lemma digits_value_digit: "d < 10 \<Longrightarrow> digits_value n [digit_char d] = n * 10 + d"
  by (simp add: digits_value_def digit_val_char)

lemma dec_digits_all: "list_all is_digit (dec_digits n)"
  using dec_digits_chars is_digit_char by (auto simp: list_all_iff)

lemma digits_value_dec: "digits_value 0 (dec_digits n) = n"
proof (induction n rule: dec_digits.induct)
  case (1 n)
  then show ?case
    by (subst dec_digits.simps) (simp add: digits_value_append digits_value_digit)
qed

lemma frac_digits_all: "list_all is_digit (frac_digits p m)"
  by (induction p m rule: frac_digits.induct) (simp_all add: is_digit_char)

lemma length_frac_digits [simp]: "length (frac_digits p m) = p"
  by (induction p m rule: frac_digits.induct) simp_all

lemma digits_value_frac: "m < 10 ^ p \<Longrightarrow> digits_value n (frac_digits p m) = n * 10 ^ p + m"
proof (induction p m arbitrary: n rule: frac_digits.induct)
  case (2 p m)
  then have "m div 10 < 10 ^ p" by (simp add: less_mult_imp_div_less mult.commute)
  then have "digits_value n (frac_digits (Suc p) m) = (n * 10 ^ p + m div 10) * 10 + m mod 10"
    using 2 by (simp add: digits_value_append digits_value_digit)
  then show ?case by (simp add: algebra_simps)
qed simp

text \<open>The integer and fraction parts of a printed number.\<close>

lemma parse_decimal_parts:
  assumes "list_all is_digit front" and "front \<noteq> []" and "list_all is_digit decimals"
  shows "parse_decimal (front @ CHR ''.'' # decimals) = Some (of_nat (digits_value 0 (front @ decimals)) / 10 ^ length decimals)"
    and "parse_decimal (CHR ''-'' # front @ CHR ''.'' # decimals) =
      Some (- of_nat (digits_value 0 (front @ decimals)) / 10 ^ length decimals)"
proof -
  have dot: "\<not> is_digit CHR ''.''" "\<not> is_digit CHR ''-''" "\<not> is_digit CHR ''+''" by code_simp+
  have tw: "takeWhile is_digit (front @ CHR ''.'' # decimals) = front"
      "dropWhile is_digit (front @ CHR ''.'' # decimals) = CHR ''.'' # decimals"
    using assms(1) dot(1) by (simp_all add: list_all_iff takeWhile_append dropWhile_append)
  obtain c cs where w: "front = c # cs" using assms(2) by (cases front) auto
  then have c: "c \<noteq> CHR ''-''" "c \<noteq> CHR ''+''" using assms(1) dot(2,3) by auto
  show "parse_decimal (front @ CHR ''.'' # decimals) = Some (of_nat (digits_value 0 (front @ decimals)) / 10 ^ length decimals)"
    using tw assms(2,3) c by (simp add: parse_decimal_def w)
  show "parse_decimal (CHR ''-'' # front @ CHR ''.'' # decimals) =
      Some (- of_nat (digits_value 0 (front @ decimals)) / 10 ^ length decimals)"
    using tw assms(2,3) by (simp add: parse_decimal_def)
qed

lemma round_half_even_nonneg: "0 \<le> x \<Longrightarrow> 0 \<le> round_half_even x"
  by (auto simp: round_half_even_def Let_def)

text \<open>The value of the printed text: the nearest number with that many digits.\<close>

definition printed_value :: "nat \<Rightarrow> rat \<Rightarrow> rat" where
  "printed_value p a = (if a < 0 then -1 else 1) * of_int (round_half_even (\<bar>a\<bar> * 10 ^ p)) / 10 ^ p"

lemma parse_fixed: "0 < p \<Longrightarrow> parse_decimal (fixed p (Fin a)) = Some (printed_value p a)"
proof -
  assume p: "0 < p"
  define n where "n = nat (round_half_even (\<bar>a\<bar> * 10 ^ p))"
  have n: "of_nat n = (of_int (round_half_even (\<bar>a\<bar> * 10 ^ p)) :: rat)"
    using round_half_even_nonneg [of "\<bar>a\<bar> * 10 ^ p"] by (simp add: n_def of_nat_nat)
  have v: "digits_value 0 (dec_digits (n div 10 ^ p) @ frac_digits p (n mod 10 ^ p)) = n"
    using div_mult_mod_eq [of n "10 ^ p"] by (simp add: digits_value_append digits_value_dec digits_value_frac)
  note parts = parse_decimal_parts [OF dec_digits_all [of "n div 10 ^ p"] dec_digits_nonempty frac_digits_all [of p "n mod 10 ^ p"]]
  show ?thesis using p parts unfolding v
    by (simp add: fixed_def printed_value_def n flip: n_def)
qed

lemma printed_value_close: "\<bar>printed_value p a - a\<bar> \<le> 1 / (2 * 10 ^ p)"
proof -
  let ?r = "of_int (round_half_even (\<bar>a\<bar> * 10 ^ p)) :: rat"
  have "\<bar>?r - \<bar>a\<bar> * 10 ^ p\<bar> \<le> 1 / 2" by (rule round_half_even_close)
  then have "\<bar>?r - \<bar>a\<bar> * 10 ^ p\<bar> / 10 ^ p \<le> (1 / 2) / 10 ^ p" by (intro divide_right_mono) simp_all
  moreover have "\<bar>?r - \<bar>a\<bar> * 10 ^ p\<bar> / 10 ^ p = \<bar>?r / 10 ^ p - \<bar>a\<bar>\<bar>"
  proof -
    have "?r / 10 ^ p - \<bar>a\<bar> = (?r - \<bar>a\<bar> * 10 ^ p) / 10 ^ p" by (simp add: diff_divide_distrib)
    then show ?thesis by (simp add: abs_divide)
  qed
  moreover have "\<bar>printed_value p a - a\<bar> = \<bar>?r / 10 ^ p - \<bar>a\<bar>\<bar>" by (simp add: printed_value_def abs_if)
  ultimately show ?thesis by simp
qed

end
