(* ===== verification/Measurement.thy ===== *)
theory Measurement
  imports Plots Decimal_Text
begin

text \<open>
  A measurement from end to end: the latency column the load generator writes, its reading by the
  analysis, and the report of the run.  The numbers pass through two roundings of \<open>float64\<close>
  arithmetic, the three decimals of the CSV file, the rounding of \<open>ParseFloat\<close> and the
  interpolation of the percentiles; the lemmas bound what all of them change together.
\<close>

section \<open>The latency column\<close>

definition latency_text :: "int64 \<Rightarrow> string" where
  "latency_text d = fixed 3 (milliseconds d)"

definition reread :: "int64 \<Rightarrow> float64" where
  "reread d = Fin (round53 (printed_value 3 (ms (sint d))))"

definition true_ms :: "resultRow \<Rightarrow> rat" where
  "true_ms r = of_int (sint (EndNS r - StartNS r)) / 1000000"

lemma milliseconds_finite: "milliseconds d = Fin (ms (sint d)) \<and> \<bar>ms (sint d)\<bar> \<le> p2 63"
proof -
  define i where "i = sint d"
  let ?x = "of_int i :: rat" and ?top = "p2 63"
  have i: "- (2 ^ 63) \<le> i" "i \<le> 2 ^ 63" using sint64_lt [of d] sint64_ge [of d] by (simp_all add: i_def)
  then have "of_int (- (2 ^ 63)) \<le> ?x" "?x \<le> of_int (2 ^ 63)" by (simp_all only: of_int_le_iff)
  then have x: "- ?top \<le> ?x" "?x \<le> ?top" by (simp_all add: p2_int)
  have top: "binary64 ?top" "binary64 (- ?top)" "\<bar>?top\<bar> < p2 1024" "\<bar>- ?top\<bar> < p2 1024"
    by (simp_all add: binary64_p2 binary64_uminus p2_less_iff)
  have r: "to_float64 ?x = Fin (round53 ?x)" "- ?top \<le> round53 ?x" "round53 ?x \<le> ?top"
    using to_float64_range [OF top(2,1) x top(4,3)] by simp_all
  have "0 < ?top" by simp
  then have q: "- ?top \<le> round53 ?x / 1000000" "round53 ?x / 1000000 \<le> ?top" using r(2,3) by linarith+
  have "to_float64 (round53 ?x / 1000000) = Fin (ms i) \<and> - ?top \<le> ms i \<and> ms i \<le> ?top"
    using to_float64_range [OF top(2,1) q top(4,3)] by (simp add: ms_def)
  moreover have "float_of_int 1000000 = Fin 1000000" by (simp add: float_of_int_exact)
  moreover have "milliseconds d = fdiv (to_float64 ?x) (float_of_int 1000000)"
    by (simp only: milliseconds_def float_of_int_def i_def)
  ultimately show ?thesis using r(1) by (auto simp: abs_le_iff simp flip: i_def)
qed

text \<open>Every latency text is read back, without an error.\<close>

lemma ParseFloat_latency: "ParseFloat other (latency_text d) = Inr (reread d)"
proof -
  let ?a = "ms (sint d)"
  let ?x = "printed_value 3 ?a"
  have m: "milliseconds d = Fin ?a" "\<bar>?a\<bar> \<le> p2 63" using milliseconds_finite by auto
  have "\<bar>?x - ?a\<bar> \<le> 1 / (2 * 10 ^ 3)" by (rule printed_value_close)
  moreover have "1 / (2 * 10 ^ 3) \<le> (1 :: rat)" by simp
  ultimately have "\<bar>?x\<bar> \<le> p2 63 + 1" using m(2) by linarith
  moreover have "p2 64 = 2 * p2 63" "1 \<le> p2 63" using p2_split [of 63 64] p2_le_iff [of 0 63] by simp_all
  ultimately have x: "- p2 64 \<le> ?x" "?x \<le> p2 64" by linarith+
  have top: "binary64 (p2 64)" "binary64 (- p2 64)" "\<bar>p2 64\<bar> < p2 1024" "\<bar>- p2 64\<bar> < p2 1024"
    by (simp_all add: binary64_p2 binary64_uminus p2_less_iff)
  have "to_float64 ?x = Fin (round53 ?x)" using to_float64_range [OF top(2,1) x top(4,3)] by simp
  then show ?thesis using m(1) by (simp add: ParseFloat_def latency_text_def parse_fixed reread_def)
qed

lemma round53_near:
  assumes "\<bar>x\<bar> \<le> 2 ^ 33"
  shows "\<bar>round53 x - x\<bar> \<le> 1 / 2 ^ 20"
proof -
  define i where "i = round_half_even (x * 2 ^ 19)"
  have close: "\<bar>of_int i - x * 2 ^ 19\<bar> \<le> 1 / 2" unfolding i_def by (rule round_half_even_close)
  have p: "p2 (-19) = 1 / 2 ^ 19" by (simp add: p2_def power_int_minus_divide)
  have "\<bar>of_int i :: rat\<bar> < 2 ^ 53" using close assms by (simp add: abs_if split: if_splits)
  then have "of_int \<bar>i\<bar> < (of_int (2 ^ 53) :: rat)" by simp
  then have "\<bar>i\<bar> < 2 ^ 53" by (simp only: of_int_less_iff)
  then have "binary64 (of_int i * p2 (-19))" by (intro binary64I [of _ i "-19"]) simp_all
  from round53_nearest [OF this, of x] have "\<bar>round53 x - x\<bar> \<le> \<bar>of_int i * p2 (-19) - x\<bar>" .
  also have "of_int i * p2 (-19) - x = (of_int i - x * 2 ^ 19) / 2 ^ 19" by (simp add: p diff_divide_distrib)
  also have "\<bar>(of_int i - x * 2 ^ 19) / 2 ^ 19\<bar> = \<bar>of_int i - x * 2 ^ 19\<bar> / 2 ^ 19" by (simp add: abs_divide)
  also have "\<dots> \<le> (1 / 2) / 2 ^ 19" using close by (intro divide_right_mono) simp_all
  finally show ?thesis by simp
qed

text \<open>A latency below 52 days is reread within a microsecond of the true one.\<close>

lemma reread_close:
  assumes "0 \<le> sint d" and "sint d \<le> 2 ^ 52"
  shows "\<exists>x. reread d = Fin x \<and> sane (reread d) \<and> \<bar>x - of_int (sint d) / 1000000\<bar> \<le> 1 / 1000"
proof -
  define i where "i = sint d"
  define t where "t = (of_int i / 1000000 :: rat)"
  have i: "0 \<le> i" "i \<le> 2 ^ 52" using assms by (simp_all add: i_def)
  then have "(of_int i :: rat) \<le> of_int (2 ^ 52)" by (simp only: of_int_le_iff)
  then have t: "0 \<le> t" "t \<le> 2 ^ 33 - 10" using i(1) by (simp_all add: t_def divide_le_eq)
  have "round53 (of_int i) = of_int i" using i by (intro double.rnd_exact binary64_of_int) simp
  then have m: "ms i = round53 t" by (simp add: ms_def t_def)
  have a: "\<bar>ms i - t\<bar> \<le> 1 / 2 ^ 20" unfolding m using t by (intro round53_near) simp
  have a0: "0 \<le> ms i" unfolding m using t(1) by (intro double.rnd_ge) simp_all
  define v where "v = printed_value 3 (ms i)"
  have v: "\<bar>v - ms i\<bar> \<le> 1 / 2000" using printed_value_close [of 3 "ms i"] by (simp add: v_def)
  have v0: "0 \<le> v" using a0 round_half_even_nonneg [of "\<bar>ms i\<bar> * 10 ^ 3"] by (simp add: v_def printed_value_def)
  have small: "1 / 2 ^ 20 \<le> (1 :: rat)" "1 / 2000 \<le> (1 :: rat)" "2 ^ 33 \<le> (2 ^ 53 :: rat)" by simp_all
  have "\<bar>v\<bar> \<le> 2 ^ 33" using small t a v v0 by linarith
  then have r: "\<bar>round53 v - v\<bar> \<le> 1 / 2 ^ 20" by (rule round53_near)
  have "0 \<le> round53 v" using v0 by (intro double.rnd_ge) simp_all
  moreover have "round53 v \<le> 2 ^ 53" using small r t a v by linarith
  then have "round53 v < p2 1023" by (rule small_p2)
  ultimately have "sane (Fin (round53 v))" by (auto simp: sane_def round53_binary64)
  moreover have "\<bar>round53 v - t\<bar> \<le> 1 / 1000"
  proof -
    have "1 / 2 ^ 20 + 1 / 2000 + 1 / 2 ^ 20 \<le> (1 / 1000 :: rat)" by simp
    then show ?thesis using r v a by linarith
  qed
  ultimately show ?thesis by (simp add: reread_def t_def v_def i_def)
qed

section \<open>From the run to the report\<close>

lemma sample_of_OK: "sm_Status (sample_of lat r) = ''OK'' \<longleftrightarrow> Status r = ''OK''"
  by (simp add: sample_of_def)

lemma sample_of_end: "sm_EndNS (sample_of lat r) = EndNS r"
  by (simp add: sample_of_def)

lemma length_filter_mset: "mset xs = mset ys \<Longrightarrow> length (filter P xs) = length (filter P ys)"
  by (metis mset_filter size_mset)

lemma between_Fin: "Fin a \<le> v \<Longrightarrow> v \<le> Fin b \<Longrightarrow> \<exists>x. v = Fin x \<and> a \<le> x \<and> x \<le> b"
  by (cases v) auto

text \<open>A measurement from end to end.  The analysis reads the CSV records of a run, whatever order
  \<open>sort.Slice\<close> gives equal ends, without an error or a panic; the report counts every operation of
  the run once, as a success or as a failure as the generator saw it; and when no latency is negative
  or exceeds 52 days, every percentile it prints lies, up to a microsecond, between the latencies
  of two successful operations of the run.\<close>

lemma measured_run:
  assumes "rs \<noteq> []" and "length rs \<le> 2 ^ 53" and "\<And>xs. mset (srt xs) = mset xs"
    and "\<forall>r \<in> set rs. 0 \<le> sint (EndNS r - StartNS r) \<and> sint (EndNS r - StartNS r) \<le> 2 ^ 52"
  shows "\<exists>rp. analyze (parse_samples (ParseFloat other) srt (Inr (csv_header # map (csv_record latency_text) rs))) meta
      = Inr (Inr rp)
    \<and> rp_rows rp = length rs
    \<and> rp_successes rp = length (filter (\<lambda>r. Status r = ''OK'') rs)
    \<and> rp_failures rp = length (filter (\<lambda>r. Status r \<noteq> ''OK'') rs)
    \<and> length (rp_percentiles rp) = (if \<exists>r \<in> set rs. Status r = ''OK'' then 3 else 0)
    \<and> (\<forall>v \<in> set (rp_percentiles rp). \<exists>x lo hi. v = Fin x \<and> {lo, hi} \<subseteq> set rs \<and> Status lo = ''OK'' \<and> Status hi = ''OK''
        \<and> true_ms lo - 1 / 1000 \<le> x \<and> x \<le> true_ms hi + 1 / 1000)"
proof -
  obtain out where out: "parse_samples (ParseFloat other) srt (Inr (csv_header # map (csv_record latency_text) rs)) = Inr (Inr out)"
      "mset out = mset (map (sample_of reread) rs)"
    using csv_roundtrip [where ParseFloat = "ParseFloat other" and lat = latency_text and latency = reread,
        OF ParseFloat_latency assms(3,1)] by auto
  have set: "set out = sample_of reread ` set rs" using mset_eq_setD [OF out(2)] by simp
  have len: "length out = length rs" using arg_cong [OF out(2), of size] by simp
  have lat: "sm_LatencyMS (sample_of reread r) = reread (EndNS r - StartNS r)" for r by (simp add: sample_of_def)
  have near: "\<exists>x. reread (EndNS r - StartNS r) = Fin x \<and> sane (reread (EndNS r - StartNS r)) \<and> \<bar>x - true_ms r\<bar> \<le> 1 / 1000"
    if "r \<in> set rs" for r
    using reread_close assms(4) that by (auto simp: true_ms_def)
  have "out \<noteq> []" "length out \<le> 2 ^ 53" using len assms(1,2) by auto
  moreover have "\<forall>s \<in> set out. sm_Status s = ''OK'' \<longrightarrow> sane (sm_LatencyMS s)" using near by (auto simp: set lat)
  ultimately obtain rp where rp: "analyze (Inr (Inr out)) meta = Inr (Inr rp)" "rp_rows rp = length out"
      "rp_successes rp = length (filter (\<lambda>s. sm_Status s = ''OK'') out)" "rp_successes rp + rp_failures rp = rp_rows rp"
      "let oks = {sm_LatencyMS s | s. s \<in> set out \<and> sm_Status s = ''OK''} in
       if oks = {} then rp_percentiles rp = [] \<and> rp_cdf rp = None
       else \<exists>p50 p95 p99. rp_percentiles rp = [p50, p95, p99]
         \<and> Min oks \<le> p50 \<and> p50 \<le> p95 \<and> p95 \<le> p99 \<and> p99 \<le> Max oks"
    using report_of_samples [of out meta] by blast
  define oks where "oks = {sm_LatencyMS s | s. s \<in> set out \<and> sm_Status s = ''OK''}"
  have succ: "rp_successes rp = length (filter (\<lambda>r. Status r = ''OK'') rs)"
    using rp(3) length_filter_mset [OF out(2), of "\<lambda>s. sm_Status s = ''OK''"]
    by (simp add: filter_map o_def sample_of_OK)
  then have fail: "rp_failures rp = length (filter (\<lambda>r. Status r \<noteq> ''OK'') rs)"
    using rp(2,4) len sum_length_filter_compl [of "\<lambda>r. Status r = ''OK''" rs] by simp
  have fin: "finite oks" by (simp add: oks_def)
  have mem: "\<exists>x r. v = Fin x \<and> r \<in> set rs \<and> Status r = ''OK'' \<and> \<bar>x - true_ms r\<bar> \<le> 1 / 1000" if "v \<in> oks" for v
    using that near by (auto simp: oks_def set lat sample_of_OK) blast
  have ex: "oks = {} \<longleftrightarrow> \<not> (\<exists>r \<in> set rs. Status r = ''OK'')" by (auto simp: oks_def set sample_of_OK)
  have ps: "length (rp_percentiles rp) = (if \<exists>r \<in> set rs. Status r = ''OK'' then 3 else 0)
    \<and> (\<forall>v \<in> set (rp_percentiles rp). \<exists>x lo hi. v = Fin x \<and> {lo, hi} \<subseteq> set rs \<and> Status lo = ''OK'' \<and> Status hi = ''OK''
        \<and> true_ms lo - 1 / 1000 \<le> x \<and> x \<le> true_ms hi + 1 / 1000)"
  proof (cases "oks = {}")
    case True
    then show ?thesis using rp(5) ex by (simp add: Let_def flip: oks_def)
  next
    case False
    obtain p50 p95 p99 where p: "rp_percentiles rp = [p50, p95, p99]" "Min oks \<le> p50" "p50 \<le> p95" "p95 \<le> p99" "p99 \<le> Max oks"
      using rp(5) False by (auto simp: Let_def simp flip: oks_def)
    obtain a lo where lo: "Min oks = Fin a" "lo \<in> set rs" "Status lo = ''OK''" "\<bar>a - true_ms lo\<bar> \<le> 1 / 1000"
      using mem [OF Min_in [OF fin False]] by blast
    obtain b hi where hi: "Max oks = Fin b" "hi \<in> set rs" "Status hi = ''OK''" "\<bar>b - true_ms hi\<bar> \<le> 1 / 1000"
      using mem [OF Max_in [OF fin False]] by blast
    have "\<exists>x lo hi. v = Fin x \<and> {lo, hi} \<subseteq> set rs \<and> Status lo = ''OK'' \<and> Status hi = ''OK''
        \<and> true_ms lo - 1 / 1000 \<le> x \<and> x \<le> true_ms hi + 1 / 1000" if v: "v \<in> {p50, p95, p99}" for v
    proof -
      have "Min oks \<le> v" "v \<le> Max oks" using v p(2-5) by (auto intro: order.trans)
      then have "Fin a \<le> v" "v \<le> Fin b" unfolding lo(1) hi(1) .
      then obtain x where x: "v = Fin x" "a \<le> x" "x \<le> b" using between_Fin by blast
      have "true_ms lo - 1 / 1000 \<le> x" "x \<le> true_ms hi + 1 / 1000" using x lo(4) hi(4) by linarith+
      then show ?thesis using x(1) lo(2,3) hi(2,3) by blast
    qed
    then show ?thesis using False ex p(1) by simp
  qed
  show ?thesis using out(1) rp(1,2) len succ fail ps by (intro exI [of _ rp]) simp
qed

text \<open>
  The failover the analysis reports: from the kill of the metadata to the least end of a successful
  operation not before it; nothing without a kill, or without such an operation.
\<close>

definition recovery :: "resultRow list \<Rightarrow> run_meta option \<Rightarrow> int64 \<times> float64 \<Rightarrow> bool" where
  "recovery rs meta fo \<longleftrightarrow>
     (case meta of
        None \<Rightarrow> fo = (0, Fin 0)
      | Some m \<Rightarrow>
          (let killNS = rm_KillTriggeredAtNS m;
               ends = {sint (EndNS r) | r. r \<in> set rs \<and> Status r = ''OK'' \<and> sint killNS \<le> sint (EndNS r)}
           in if sint killNS \<le> 0 \<or> ends = {} then fo = (0, Fin 0)
              else sint (fst fo) = Min ends \<and> snd fo = milliseconds (fst fo - killNS)))"

lemma failover_recovery:
  assumes "sorted (map (\<lambda>s. sint (sm_EndNS s)) ss)" and "mset ss = mset (map (sample_of latency) rs)"
  shows "recovery rs meta (failover ss meta)"
proof (cases meta)
  case (Some m)
  define T where "T = rm_KillTriggeredAtNS m"
  define ends where "ends = {sint (EndNS r) | r. r \<in> set rs \<and> Status r = ''OK'' \<and> sint T \<le> sint (EndNS r)}"
  have set: "set ss = sample_of latency ` set rs" using mset_eq_setD [OF assms(2)] by simp
  have "{sint (sm_EndNS s) | s. s \<in> set ss \<and> sm_Status s = ''OK'' \<and> sint T \<le> sint (sm_EndNS s)} = ends" (is "?E = _")
  proof (intro equalityI subsetI)
    fix x
    assume "x \<in> ends"
    then obtain r where "r \<in> set rs" "Status r = ''OK''" "sint T \<le> sint (EndNS r)" "x = sint (EndNS r)" by (auto simp: ends_def)
    then have "sample_of latency r \<in> set ss" "sm_Status (sample_of latency r) = ''OK''"
        "sint T \<le> sint (sm_EndNS (sample_of latency r))" "x = sint (sm_EndNS (sample_of latency r))"
      by (simp_all add: set sample_of_OK sample_of_end)
    then show "x \<in> ?E" by blast
  qed (auto simp: ends_def set sample_of_OK sample_of_end)
  with first_success_is_earliest [OF assms(1), of T]
  have first: "if ends = {} then firstSuccessfulCompletionAfter ss T = 0 else sint (firstSuccessfulCompletionAfter ss T) = Min ends"
    by (simp add: Let_def)
  have "0 < Min ends" if "0 < sint T" "ends \<noteq> {}"
  proof -
    have "finite ends" by (rule finite_subset [of _ "(\<lambda>r. sint (EndNS r)) ` set rs"]) (auto simp: ends_def)
    then have "Min ends \<in> ends" using that(2) by (rule Min_in)
    then show ?thesis using that(1) by (auto simp: ends_def)
  qed
  moreover have "recovery rs meta fo \<longleftrightarrow>
      (if sint T \<le> 0 \<or> ends = {} then fo = (0, Fin 0) else sint (fst fo) = Min ends \<and> snd fo = milliseconds (fst fo - T))" for fo
    unfolding recovery_def Some option.case Let_def T_def ends_def ..
  moreover have "failover ss meta = (if 0 < sint T then
      (let e = firstSuccessfulCompletionAfter ss T in if 0 < sint e then (e, milliseconds (e - T)) else (e, Fin 0)) else (0, Fin 0))"
    by (simp add: failover_def Some int64_less Let_def flip: T_def)
  ultimately show ?thesis using first by (cases "ends = {}"; cases "0 < sint T") (simp_all add: Let_def)
qed (simp add: recovery_def failover_def)

lemma measured_recovery:
  assumes "rs \<noteq> []" and "\<And>xs. mset (srt xs) = mset xs" and "\<And>xs. sorted (map (\<lambda>s. sint (sm_EndNS s)) (srt xs))"
    and "analyze (parse_samples (ParseFloat other) srt (Inr (csv_header # map (csv_record latency_text) rs))) meta = Inr (Inr rp)"
  shows "recovery rs meta (rp_failover rp)"
proof -
  let ?ss = "srt (map (sample_of reread) rs)"
  have "parse_samples (ParseFloat other) srt (Inr (csv_header # map (csv_record latency_text) rs)) = Inr (Inr ?ss)"
    using csv_roundtrip [where ParseFloat = "ParseFloat other" and lat = latency_text and latency = reread,
        OF ParseFloat_latency assms(2,1)] by auto
  then have "rp_failover rp = failover ?ss meta" using assms(4) by (simp add: analyze_failover)
  then show ?thesis using failover_recovery [OF assms(3,2)] by simp
qed

text \<open>The same from the text of the file.\<close>

lemma latency_text_no_CR: "CR \<notin> set (latency_text d)"
proof -
  have "digit_char (n mod 10) \<in> set (dec_digits (n mod 10))" for n by (subst dec_digits.simps) simp
  then have digit: "CR \<noteq> digit_char (n mod 10)" for n using dec_digits_no_CR by metis
  have "CR \<notin> set (frac_digits p m)" for p m by (induction p m rule: frac_digits.induct) (simp_all add: digit)
  then show ?thesis
    by (cases "milliseconds d") (simp_all add: latency_text_def fixed_def Let_def dec_digits_no_CR)
qed

lemma recovery_as_read: "recovery (map as_read rs) meta fo \<longleftrightarrow> recovery rs meta fo"
proof -
  have "{sint (EndNS r) | r. r \<in> set (map as_read rs) \<and> Status r = ''OK'' \<and> x \<le> sint (EndNS r)}
      = {sint (EndNS r) | r. r \<in> set rs \<and> Status r = ''OK'' \<and> x \<le> sint (EndNS r)}" (is "?A = ?B") for x
  proof (intro equalityI subsetI)
    fix y
    assume "y \<in> ?B"
    then obtain r where "r \<in> set rs" "Status (as_read r) = ''OK''" "x \<le> sint (EndNS (as_read r))" "y = sint (EndNS (as_read r))"
      by auto
    then show "y \<in> ?A" by (intro CollectI exI [of _ "as_read r"]) simp
  qed auto
  then show ?thesis by (simp only: recovery_def)
qed

lemma true_ms_as_read [simp]: "true_ms (as_read r) = true_ms r"
  by (simp add: true_ms_def)

lemma measured_file:
  assumes "rs \<noteq> []" and "length rs \<le> 2 ^ 53" and "\<And>xs. mset (srt xs) = mset xs"
    and "\<And>xs. sorted (map (\<lambda>s. sint (sm_EndNS s)) (srt xs))"
    and "\<forall>r \<in> set rs. 0 \<le> sint (EndNS r - StartNS r) \<and> sint (EndNS r - StartNS r) \<le> 2 ^ 52"
  shows "\<exists>rp. analyze (readSamples wording (ParseFloat other) srt (Inr (csv_text (csv_header # map (csv_record latency_text) rs)))) meta
      = Inr (Inr rp)
    \<and> rp_rows rp = length rs
    \<and> rp_successes rp = length (filter (\<lambda>r. Status r = ''OK'') rs)
    \<and> rp_failures rp = length (filter (\<lambda>r. Status r \<noteq> ''OK'') rs)
    \<and> recovery rs meta (rp_failover rp)
    \<and> length (rp_percentiles rp) = (if \<exists>r \<in> set rs. Status r = ''OK'' then 3 else 0)
    \<and> (\<forall>v \<in> set (rp_percentiles rp). \<exists>x lo hi. v = Fin x \<and> {lo, hi} \<subseteq> set rs \<and> Status lo = ''OK'' \<and> Status hi = ''OK''
        \<and> true_ms lo - 1 / 1000 \<le> x \<and> x \<le> true_ms hi + 1 / 1000)"
proof -
  let ?rs = "map as_read rs"
  have same: "readSamples wording (ParseFloat other) srt (Inr (csv_text (csv_header # map (csv_record latency_text) rs)))
      = parse_samples (ParseFloat other) srt (Inr (csv_header # map (csv_record latency_text) ?rs))"
    by (simp only: readSamples_def read_csv_written [of latency_text, OF latency_text_no_CR])
  have r: "?rs \<noteq> []" "length ?rs \<le> 2 ^ 53"
      "\<forall>r \<in> set ?rs. 0 \<le> sint (EndNS r - StartNS r) \<and> sint (EndNS r - StartNS r) \<le> 2 ^ 52"
    using assms(1,2,5) by simp_all
  obtain rp where rp: "analyze (parse_samples (ParseFloat other) srt (Inr (csv_header # map (csv_record latency_text) ?rs))) meta
      = Inr (Inr rp)" "rp_rows rp = length ?rs"
      "rp_successes rp = length (filter (\<lambda>r. Status r = ''OK'') ?rs)"
      "rp_failures rp = length (filter (\<lambda>r. Status r \<noteq> ''OK'') ?rs)"
      "length (rp_percentiles rp) = (if \<exists>r \<in> set ?rs. Status r = ''OK'' then 3 else 0)"
      "\<forall>v \<in> set (rp_percentiles rp). \<exists>x lo hi. v = Fin x \<and> {lo, hi} \<subseteq> set ?rs \<and> Status lo = ''OK'' \<and> Status hi = ''OK''
        \<and> true_ms lo - 1 / 1000 \<le> x \<and> x \<le> true_ms hi + 1 / 1000"
    using measured_run [OF r(1,2) assms(3) r(3), of other meta] by blast
  have fo: "recovery rs meta (rp_failover rp)"
    using measured_recovery [OF r(1) assms(3,4) rp(1)] by (simp only: recovery_as_read)
  have "\<exists>x lo hi. v = Fin x \<and> {lo, hi} \<subseteq> set rs \<and> Status lo = ''OK'' \<and> Status hi = ''OK''
        \<and> true_ms lo - 1 / 1000 \<le> x \<and> x \<le> true_ms hi + 1 / 1000" if "v \<in> set (rp_percentiles rp)" for v
  proof -
    from bspec [OF rp(6) that] obtain x lo hi
      where v: "v = Fin x" "{lo, hi} \<subseteq> set ?rs" "Status lo = ''OK''" "Status hi = ''OK''"
        "true_ms lo - 1 / 1000 \<le> x" "x \<le> true_ms hi + 1 / 1000"
      by (elim exE conjE)
    then have "lo \<in> set ?rs" "hi \<in> set ?rs" by blast+
    then obtain a b where ab: "lo = as_read a" "a \<in> set rs" "hi = as_read b" "b \<in> set rs"
      unfolding set_map image_iff by blast
    have "Status a = ''OK''" "Status b = ''OK''" using v(3,4) unfolding ab(1,3) by (simp_all only: as_read_OK)
    moreover have "true_ms a - 1 / 1000 \<le> x" "x \<le> true_ms b + 1 / 1000"
      using v(5,6) unfolding ab(1,3) by (simp_all only: true_ms_as_read)
    ultimately show ?thesis using v(1) ab(2,4) by blast
  qed
  moreover have "rp_rows rp = length rs" using rp(2) by simp
  moreover have "rp_successes rp = length (filter (\<lambda>r. Status r = ''OK'') rs)"
      "rp_failures rp = length (filter (\<lambda>r. Status r \<noteq> ''OK'') rs)"
    using rp(3,4) by (simp_all add: filter_map o_def)
  moreover have "length (rp_percentiles rp) = (if \<exists>r \<in> set rs. Status r = ''OK'' then 3 else 0)" using rp(5) by simp
  ultimately show ?thesis using fo unfolding same by (intro exI [of _ rp] conjI rp(1)) blast+
qed

lemma measured_run_example:
  "\<exists>rp. analyze (parse_samples (ParseFloat (\<lambda>s. Inl (OtherError s))) (sort_key (\<lambda>s. sint (sm_EndNS s)))
      (Inr (csv_header # map (csv_record latency_text)
        [\<lparr>OpID = 1, WorkerID = 1, Operation = 1, StartNS = 5, EndNS = 1000005, Status = ''OK'', AttemptCount = 1,
          LeaderBefore = ''a'', LeaderAfter = ''a'', ErrorText = []\<rparr>]))) None = Inr (Inr rp)
    \<and> rp_successes rp = 1 \<and> length (rp_percentiles rp) = 3
    \<and> (\<forall>v \<in> set (rp_percentiles rp). \<exists>x. v = Fin x \<and> 999 / 1000 \<le> x \<and> x \<le> 1001 / 1000)"
proof -
  let ?r = "\<lparr>OpID = 1, WorkerID = 1, Operation = 1, StartNS = 5, EndNS = 1000005, Status = ''OK'', AttemptCount = 1,
          LeaderBefore = ''a'', LeaderAfter = ''a'', ErrorText = []\<rparr>"
  have t: "true_ms ?r = 1" by (simp add: true_ms_def)
  have "\<exists>rp. analyze (parse_samples (ParseFloat (\<lambda>s. Inl (OtherError s))) (sort_key (\<lambda>s. sint (sm_EndNS s)))
      (Inr (csv_header # map (csv_record latency_text) [?r]))) None = Inr (Inr rp)
    \<and> rp_rows rp = length [?r]
    \<and> rp_successes rp = length (filter (\<lambda>r. Status r = ''OK'') [?r])
    \<and> rp_failures rp = length (filter (\<lambda>r. Status r \<noteq> ''OK'') [?r])
    \<and> length (rp_percentiles rp) = (if \<exists>r \<in> set [?r]. Status r = ''OK'' then 3 else 0)
    \<and> (\<forall>v \<in> set (rp_percentiles rp). \<exists>x lo hi. v = Fin x \<and> {lo, hi} \<subseteq> set [?r] \<and> Status lo = ''OK'' \<and> Status hi = ''OK''
        \<and> true_ms lo - 1 / 1000 \<le> x \<and> x \<le> true_ms hi + 1 / 1000)"
    by (rule measured_run) simp_all
  then obtain rp where rp: "analyze (parse_samples (ParseFloat (\<lambda>s. Inl (OtherError s))) (sort_key (\<lambda>s. sint (sm_EndNS s)))
      (Inr (csv_header # map (csv_record latency_text) [?r]))) None = Inr (Inr rp)" "rp_successes rp = 1"
      "length (rp_percentiles rp) = 3"
      "\<forall>v \<in> set (rp_percentiles rp). \<exists>x. v = Fin x \<and> true_ms ?r - 1 / 1000 \<le> x \<and> x \<le> true_ms ?r + 1 / 1000"
    by auto
  then show ?thesis unfolding t by (intro exI [of _ rp]) simp
qed

end
