(* ===== verification/Run_Metadata.thy ===== *)
theory Run_Metadata
  imports Load_Generator Report
begin

text \<open>
  The metadata file the load generator and the analysis share, as the JSON value it holds: the
  fields \<open>json.Marshal\<close> takes from \<open>runMeta\<close> of \<open>cmd/loadgen\<close> under their tags, and what
  \<open>json.Unmarshal\<close> finds for the smaller \<open>runMeta\<close> of \<open>scripts/analyze.go\<close> in any JSON value.  The
  text of JSON values is \<open>encoding/json\<close>'s.
\<close>

section \<open>JSON values\<close>

text \<open>A number is kept as its literal, which is what \<open>Unmarshal\<close> parses for an integer field.\<close>

datatype json =
    JNull
  | JBool bool
  | JNumber string
  | JString string
  | JArray "json list"
  | JObject "(string \<times> json) list"

text \<open>The length of the UTF-8 sequence a string starts with, and 0 when it starts with none.\<close>

definition byte_in :: "nat \<Rightarrow> nat \<Rightarrow> char \<Rightarrow> bool" where
  "byte_in lo hi c \<longleftrightarrow> lo \<le> of_char c \<and> of_char c \<le> hi"

definition rune_len :: "string \<Rightarrow> nat" where
  "rune_len s =
     (let tail = (\<lambda>i. i < length s \<and> byte_in 0x80 0xBF (s ! i));
          second = (\<lambda>lo hi. 1 < length s \<and> byte_in lo hi (s ! 1))
      in if s = [] then 0
         else if byte_in 0 0x7F (s ! 0) then 1
         else if byte_in 0xC2 0xDF (s ! 0) \<and> second 0x80 0xBF then 2
         else if (byte_in 0xE0 0xE0 (s ! 0) \<and> second 0xA0 0xBF \<or> byte_in 0xE1 0xEC (s ! 0) \<and> second 0x80 0xBF \<or>
                  byte_in 0xED 0xED (s ! 0) \<and> second 0x80 0x9F \<or> byte_in 0xEE 0xEF (s ! 0) \<and> second 0x80 0xBF) \<and> tail 2 then 3
         else if (byte_in 0xF0 0xF0 (s ! 0) \<and> second 0x90 0xBF \<or> byte_in 0xF1 0xF3 (s ! 0) \<and> second 0x80 0xBF \<or>
                  byte_in 0xF4 0xF4 (s ! 0) \<and> second 0x80 0x8F) \<and> tail 2 \<and> tail 3 then 4
         else 0)"

text \<open>What \<open>encoding/json\<close> makes of a string: each byte that starts no rune becomes U+FFFD.\<close>

fun valid_utf8 :: "string \<Rightarrow> string" where
  "valid_utf8 [] = []"
| "valid_utf8 (c # cs) =
     (let n = rune_len (c # cs) in
      if n = 0 then [CHR 0xEF, CHR 0xBF, CHR 0xBD] @ valid_utf8 cs
      else c # take (n - 1) cs @ valid_utf8 (drop (n - 1) cs))"

section \<open>Writing\<close>

definition j_int :: "int64 \<Rightarrow> json" where
  "j_int i = JNumber (FormatInt i)"

definition j_string :: "string \<Rightarrow> json" where
  "j_string s = JString (valid_utf8 s)"

text \<open>The option \<open>omitempty\<close>, on a number and on a string.\<close>

definition omit_int :: "string \<Rightarrow> int64 \<Rightarrow> (string \<times> json) list" where
  "omit_int name i = (if i = 0 then [] else [(name, j_int i)])"

definition omit_string :: "string \<Rightarrow> string \<Rightarrow> (string \<times> json) list" where
  "omit_string name s = (if s = [] then [] else [(name, j_string s)])"

definition meta_json :: "runMeta \<Rightarrow> json" where
  "meta_json m = JObject (
     [(''servers'', if Servers m = [] then JNull else JArray (map j_string (Servers m))),
      (''counter'', j_string (Counter m)),
      (''workers'', j_int (Workers m)),
      (''increments_per_worker'', j_int (IncrementsPerWorker m)),
      (''think_time'', j_string (ThinkTime m)),
      (''timeout'', j_string (Timeout m)),
      (''output_csv'', j_string (OutputCSV m)),
      (''kill_after'', j_int (KillAfter m)),
      (''kill_target'', j_string (KillTarget m)),
      (''kill_signal'', j_string (KillSignal m)),
      (''kill_address'', j_string (KillAddress m)),
      (''started_at_ns'', j_int (StartedAtNS m)),
      (''finished_at_ns'', j_int (FinishedAtNS m))] @
     omit_int ''kill_triggered_at_ns'' (KillTriggeredAtNS m) @
     omit_string ''kill_resolved_addr'' (KillResolvedAddr m) @
     omit_int ''kill_pid'' (KillPID m) @
     omit_string ''kill_error'' (KillError m) @
     [(''success_count'', j_int (SuccessCount m)),
      (''failure_count'', j_int (FailureCount m)),
      (''final_counter_value'', j_int (FinalCounterValue m))] @
     omit_string ''final_counter_error'' (FinalCounterError m))"

section \<open>Reading\<close>

text \<open>
  \<open>Unmarshal\<close> of a value into a field: \<open>null\<close> leaves it as it is, a value of another type is an
  error.
\<close>

fun unmarshal_int :: "json \<Rightarrow> int64 \<Rightarrow> int64 option" where
  "unmarshal_int JNull old = Some old"
| "unmarshal_int (JNumber t) old = (case ParseInt t of Inr i \<Rightarrow> Some i | Inl e \<Rightarrow> None)"
| "unmarshal_int _ old = None"

fun unmarshal_string :: "json \<Rightarrow> string \<Rightarrow> string option" where
  "unmarshal_string JNull old = Some old"
| "unmarshal_string (JString s) old = Some s"
| "unmarshal_string _ old = None"

text \<open>
  The field a key names: the one of that name, else the one of that name up to the case of letters,
  where the long s and the Kelvin sign count as an s and a k.
\<close>

fun fold_name :: "string \<Rightarrow> string" where
  "fold_name [] = []"
| "fold_name (c # cs) =
     (if take 2 (c # cs) = [CHR 0xC5, CHR 0xBF] then CHR ''s'' # fold_name (drop 1 cs)
      else if take 3 (c # cs) = [CHR 0xE2, CHR 0x84, CHR 0xAA] then CHR ''k'' # fold_name (drop 2 cs)
      else lower_char c # fold_name cs)"

definition meta_fields :: "string list" where
  "meta_fields = [''started_at_ns'', ''finished_at_ns'', ''kill_triggered_at_ns'', ''kill_resolved_addr'', ''kill_error'']"

definition meta_field :: "string \<Rightarrow> string option" where
  "meta_field key =
     (if key \<in> set meta_fields then Some key
      else if fold_name key \<in> set meta_fields then Some (fold_name key)
      else None)"

definition set_field :: "string \<Rightarrow> json \<Rightarrow> run_meta \<Rightarrow> run_meta option" where
  "set_field name v m =
     (if name = ''started_at_ns'' then map_option (\<lambda>i. m\<lparr>rm_StartedAtNS := i\<rparr>) (unmarshal_int v (rm_StartedAtNS m))
      else if name = ''finished_at_ns'' then map_option (\<lambda>i. m\<lparr>rm_FinishedAtNS := i\<rparr>) (unmarshal_int v (rm_FinishedAtNS m))
      else if name = ''kill_triggered_at_ns'' then
        map_option (\<lambda>i. m\<lparr>rm_KillTriggeredAtNS := i\<rparr>) (unmarshal_int v (rm_KillTriggeredAtNS m))
      else if name = ''kill_resolved_addr'' then
        map_option (\<lambda>s. m\<lparr>rm_KillResolvedAddr := s\<rparr>) (unmarshal_string v (rm_KillResolvedAddr m))
      else map_option (\<lambda>s. m\<lparr>rm_KillError := s\<rparr>) (unmarshal_string v (rm_KillError m)))"

text \<open>The members of an object in turn; one error spoils the result.\<close>

fun unmarshal_members :: "(string \<times> json) list \<Rightarrow> run_meta \<Rightarrow> run_meta option" where
  "unmarshal_members [] m = Some m"
| "unmarshal_members ((key, v) # rest) m =
     (case meta_field key of
        None \<Rightarrow> unmarshal_members rest m
      | Some name \<Rightarrow> (case set_field name v m of None \<Rightarrow> None | Some m' \<Rightarrow> unmarshal_members rest m'))"

definition zero_meta :: run_meta where
  "zero_meta = \<lparr>rm_StartedAtNS = 0, rm_FinishedAtNS = 0, rm_KillTriggeredAtNS = 0, rm_KillResolvedAddr = [], rm_KillError = []\<rparr>"

fun unmarshal_meta :: "json \<Rightarrow> run_meta option" where
  "unmarshal_meta JNull = Some zero_meta"
| "unmarshal_meta (JObject ms) = unmarshal_members ms zero_meta"
| "unmarshal_meta _ = None"

text \<open>
  \<open>readMeta\<close>, whose error the caller drops: nothing when the file cannot be read, holds no JSON, or
  holds a value of another type.
\<close>

definition readMeta :: "json option \<Rightarrow> run_meta option" where
  "readMeta content = (case content of None \<Rightarrow> None | Some v \<Rightarrow> unmarshal_meta v)"

section \<open>The analysis reads what the generator wrote\<close>

lemma valid_utf8_ascii: "\<forall>c \<in> set s. of_char c < (128 :: nat) \<Longrightarrow> valid_utf8 s = s"
  by (induction s rule: valid_utf8.induct) (auto simp: rune_len_def byte_in_def Let_def)

lemma valid_utf8_Nil_iff [simp]: "valid_utf8 s = [] \<longleftrightarrow> s = []"
  by (cases s) (simp_all add: Let_def)

lemma unmarshal_written [simp]: "unmarshal_int (j_int i) old = Some i" "unmarshal_string (j_string s) old' = Some (valid_utf8 s)"
  by (simp_all add: j_int_def j_string_def ParseInt_FormatInt)

definition name_chars :: string where
  "name_chars = ''abcdefghijklmnopqrstuvwxyz_''"

lemma fold_name_id: "set key \<subseteq> set name_chars \<Longrightarrow> fold_name key = key"
proof (induction key)
  case (Cons c cs)
  have "\<forall>c \<in> set name_chars. lower_char c = c \<and> c \<noteq> CHR 0xC5 \<and> c \<noteq> CHR 0xE2" by code_simp
  then show ?case using Cons by auto
qed simp

lemma meta_field_lower:
  "set key \<subseteq> set name_chars \<Longrightarrow> meta_field key = (if key \<in> set meta_fields then Some key else None)"
  by (simp add: meta_field_def fold_name_id)

definition foreign :: "string \<Rightarrow> bool" where
  "foreign key \<longleftrightarrow> list_all (\<lambda>c. c \<in> set name_chars) key \<and> key \<notin> set meta_fields"

lemma unmarshal_skip: "foreign key \<Longrightarrow> unmarshal_members ((key, v) # rest) m = unmarshal_members rest m"
  using meta_field_lower [of key] by (auto simp: foreign_def list_all_iff subset_iff)

lemma foreign_keys:
  "foreign ''servers''"
  "foreign ''counter''"
  "foreign ''workers''"
  "foreign ''increments_per_worker''"
  "foreign ''think_time''"
  "foreign ''timeout''"
  "foreign ''output_csv''"
  "foreign ''kill_after''"
  "foreign ''kill_target''"
  "foreign ''kill_signal''"
  "foreign ''kill_address''"
  "foreign ''kill_pid''"
  "foreign ''success_count''"
  "foreign ''failure_count''"
  "foreign ''final_counter_value''"
  "foreign ''final_counter_error''"
  by code_simp+

lemma own_key:
  "unmarshal_members ((''started_at_ns'', j_int i) # rest) m = unmarshal_members rest (m\<lparr>rm_StartedAtNS := i\<rparr>)"
  "unmarshal_members ((''finished_at_ns'', j_int i) # rest) m = unmarshal_members rest (m\<lparr>rm_FinishedAtNS := i\<rparr>)"
  "unmarshal_members ((''kill_triggered_at_ns'', j_int i) # rest) m = unmarshal_members rest (m\<lparr>rm_KillTriggeredAtNS := i\<rparr>)"
  "unmarshal_members ((''kill_resolved_addr'', j_string t) # rest) m = unmarshal_members rest (m\<lparr>rm_KillResolvedAddr := valid_utf8 t\<rparr>)"
  "unmarshal_members ((''kill_error'', j_string t) # rest) m = unmarshal_members rest (m\<lparr>rm_KillError := valid_utf8 t\<rparr>)"
  by (simp_all add: meta_field_def meta_fields_def set_field_def)

declare unmarshal_members.simps(2) [simp del]

lemma readMeta_written:
  "readMeta (Some (meta_json m)) =
     Some \<lparr>rm_StartedAtNS = StartedAtNS m, rm_FinishedAtNS = FinishedAtNS m, rm_KillTriggeredAtNS = KillTriggeredAtNS m,
       rm_KillResolvedAddr = valid_utf8 (KillResolvedAddr m), rm_KillError = valid_utf8 (KillError m)\<rparr>"
  by (simp add: readMeta_def meta_json_def own_key foreign_keys unmarshal_skip omit_int_def omit_string_def zero_meta_def)

end
