(* ===== verification/Loadgen_Command.thy ===== *)
theory Loadgen_Command
  imports Worker_Pool Measurement Run_Metadata
begin

text \<open>
  \<open>main\<close> of \<open>cmd/loadgen\<close> around the workers: the flags and their defaults, the set-up with every
  error that ends the program, the loop that writes the CSV rows, and the metadata.  Files,
  connections and the clock are outcomes the caller supplies; \<open>log.Fatalf\<close> is its message.  The log
  lines are left out.
\<close>

section \<open>Durations as text\<close>

text \<open>\<open>(time.Duration).String\<close>: a fraction without trailing zeros, then the units.\<close>

definition strip_zeros :: "string \<Rightarrow> string" where
  "strip_zeros s = rev (dropWhile (\<lambda>c. c = CHR ''0'') (rev s))"

definition fmtFrac :: "nat \<Rightarrow> nat \<Rightarrow> string \<times> nat" where
  "fmtFrac v prec =
     (let s = strip_zeros (frac_digits prec (v mod 10 ^ prec))
      in (if s = [] then [] else CHR ''.'' # s, v div 10 ^ prec))"

definition Duration_String :: "int64 \<Rightarrow> string" where
  "Duration_String d =
     (let neg = (d <s 0);
          u = nat \<bar>sint d\<bar>;
          body =
            (if u = 0 then ''0s''
             else if u < 1000 then dec_digits u @ ''ns''
             else if u < 1000000 then (let (f, v) = fmtFrac u 3 in dec_digits v @ f @ [CHR 0xC2, CHR 0xB5, CHR ''s''])
             else if u < 1000000000 then (let (f, v) = fmtFrac u 6 in dec_digits v @ f @ ''ms'')
             else
               (let (f, v) = fmtFrac u 9; m = v div 60; h = m div 60
                in (if 0 < h then dec_digits h @ ''h'' else []) @ (if 0 < m then dec_digits (m mod 60) @ ''m'' else []) @
                   dec_digits (v mod 60) @ f @ ''s''))
      in if neg then CHR ''-'' # body else body)"

section \<open>Flags and set-up\<close>

record load_flags =
  lf_servers :: string
  lf_counter :: string
  lf_workers :: int64
  lf_increments :: int64
  lf_thinkTime :: int64
  lf_timeout :: int64
  lf_output :: string
  lf_killAfter :: int64
  lf_killSignal :: string
  lf_killTarget :: string
  lf_killAddress :: string

definition default_load_flags :: load_flags where
  "default_load_flags =
     \<lparr>lf_servers = ''localhost:50051,localhost:50052,localhost:50053,localhost:50054,localhost:50055'',
      lf_counter = ''foo'', lf_workers = 8, lf_increments = 100, lf_thinkTime = 0, lf_timeout = 3000 * millisecond,
      lf_output = ''results/loadgen.csv'', lf_killAfter = 0, lf_killSignal = ''term'', lf_killTarget = ''leader'',
      lf_killAddress = []\<rparr>"

text \<open>What the system answers while the program sets itself up and writes its files.\<close>

record load_env =
  le_MkdirAll :: "go_error option"
  le_Create :: "go_error option"
  le_Write :: "string list \<Rightarrow> go_error option"
  le_Flush :: "nat \<Rightarrow> go_error option"
  le_NewClient :: "string \<Rightarrow> go_error + client_conn"
  le_WriteMeta :: "go_error option"

definition load_setup :: "load_flags \<Rightarrow> load_env \<Rightarrow> int64 \<Rightarrow> string + LeaderInterceptor \<times> faultInjector \<times> runMeta" where
  "load_setup fl env now =
     (case check_flags (lf_workers fl) (lf_increments fl) (lf_servers fl) of Inl message \<Rightarrow> Inl message | Inr ps \<Rightarrow>
      case le_MkdirAll env of Some err \<Rightarrow> fatalf ''failed to create output directory: '' err | None \<Rightarrow>
      case le_Create env of Some err \<Rightarrow> fatalf ''failed to create CSV output: '' err | None \<Rightarrow>
      case le_Write env csv_header of Some err \<Rightarrow> fatalf ''failed to write CSV header: '' err | None \<Rightarrow>
      case NewLeaderInterceptor (le_NewClient env) ps of
        Inl err \<Rightarrow> fatalf ''failed to initialize leader interceptor: '' err | Inr leaderInterceptor \<Rightarrow>
      case le_NewClient env (hd ps) of Inl err \<Rightarrow> fatalf ''failed to create gRPC client: '' err | Inr conn \<Rightarrow>
      case newFaultInjector ps (lf_killTarget fl) (lf_killAddress fl) (lf_killSignal fl) of
        Inl err \<Rightarrow> fatalf ''failed to initialize fault injector: '' err | Inr fault \<Rightarrow>
        Inr (leaderInterceptor, fault,
          \<lparr>Servers = ps, Counter = lf_counter fl, Workers = lf_workers fl, IncrementsPerWorker = lf_increments fl,
           ThinkTime = Duration_String (lf_thinkTime fl), Timeout = Duration_String (lf_timeout fl),
           OutputCSV = lf_output fl, KillAfter = lf_killAfter fl, KillTarget = lf_killTarget fl,
           KillSignal = ToUpper (lf_killSignal fl), KillAddress = lf_killAddress fl, StartedAtNS = now,
           FinishedAtNS = 0, KillTriggeredAtNS = 0, KillResolvedAddr = [], KillPID = 0, KillError = [],
           SuccessCount = 0, FailureCount = 0, FinalCounterValue = 0, FinalCounterError = []\<rparr>))"

section \<open>Rows to the file\<close>

text \<open>The loop over the channel of rows; the writer is flushed after every hundredth row.\<close>

fun write_rows :: "load_env \<Rightarrow> nat \<Rightarrow> resultRow list \<Rightarrow> string + nat \<times> string list list" where
  "write_rows env csvRows [] =
     (case le_Flush env csvRows of Some err \<Rightarrow> fatalf ''failed to finalize CSV: '' err | None \<Rightarrow> Inr (csvRows, []))"
| "write_rows env csvRows (row # rest) =
     (let rec = csv_record latency_text row in
      case le_Write env rec of Some err \<Rightarrow> fatalf ''failed to write CSV row: '' err | None \<Rightarrow>
      case (if Suc csvRows mod 100 = 0 then le_Flush env (Suc csvRows) else None) of
        Some err \<Rightarrow> fatalf ''failed to flush CSV: '' err
      | None \<Rightarrow>
          (case write_rows env (Suc csvRows) rest of
             Inl message \<Rightarrow> Inl message
           | Inr (n, recs) \<Rightarrow> Inr (n, rec # recs)))"

text \<open>
  The whole of \<open>main\<close>, with the schedule of the workers, the client's call and its final read: the
  text of the CSV file, and the metadata with the path they are written to.
\<close>

definition loadgen_main :: "load_flags \<Rightarrow> load_env \<Rightarrow> 'w os \<Rightarrow> 'w client_call \<Rightarrow>
    (LeaderInterceptor \<Rightarrow> 'w \<Rightarrow> go_error + GetResponse) \<Rightarrow> pool_event list \<Rightarrow> 'w \<Rightarrow>
    string + string \<times> string \<times> runMeta" where
  "loadgen_main fl env os call final es w =
     (case load_setup fl env (Now os w) of Inl message \<Rightarrow> Inl message | Inr (leaderInterceptor, fault, meta) \<Rightarrow>
        let p = run_pool \<lparr>lc_increments = lf_increments fl, lc_thinkTime = lf_thinkTime fl, lc_killAfter = lf_killAfter fl\<rparr>
              os call es (start_pool (lf_workers fl) (start_run fault, leaderInterceptor, w));
            (s, l', w') = shared_run p
        in (case write_rows env 0 (rows s) of Inl message \<Rightarrow> Inl message | Inr (n, recs) \<Rightarrow>
            case le_WriteMeta env of
              Some err \<Rightarrow> fatalf ''failed to write run metadata: '' err
            | None \<Rightarrow> Inr (csv_text (csv_header # recs), loadgen_meta_path (lf_output fl), finish_meta meta (Now os w') s (final l' w'))))"

section \<open>What the run leaves behind\<close>

lemma write_rows_records: "write_rows env n rs = Inr (m, recs) \<Longrightarrow> recs = map (csv_record latency_text) rs \<and> m = n + length rs"
proof (induction rs arbitrary: n recs)
  case Nil
  then show ?case by (auto simp: fatalf_def split: option.splits)
next
  case (Cons row rs)
  then show ?case by (fastforce simp: fatalf_def Let_def split: option.splits sum.splits if_splits)
qed

lemma load_setup_config:
  assumes "load_setup fl env now = Inr (l, fault, meta)"
  shows "0 < sint (lf_workers fl) \<and> 0 < sint (lf_increments fl) \<and> parsePeers (lf_servers fl) \<noteq> []
    \<and> li_peers l = parsePeers (lf_servers fl) \<and> fi_peers fault = parsePeers (lf_servers fl) \<and> \<not> fi_once fault
    \<and> Servers meta = parsePeers (lf_servers fl) \<and> KillAfter meta = lf_killAfter fl \<and> KillTriggeredAtNS meta = 0"
  using assms
  by (auto simp: load_setup_def check_flags_def NewLeaderInterceptor_def newFaultInjector_def fatalf_def Let_def int64_simps
      split: if_splits sum.splits option.splits list.splits)

lemma loadgen_main_result:
  assumes "loadgen_main fl env os call final es w = Inr (csv, path, meta)" and "sint (lf_increments fl) < 2 ^ 63 - 1"
  shows "\<exists>rs. csv = csv_text (csv_header # map (csv_record latency_text) rs)
    \<and> SuccessCount meta + FailureCount meta = of_nat (length rs) \<and> path = loadgen_meta_path (lf_output fl)
    \<and> (length rs < 2 ^ 63 \<and> KillTriggeredAtNS meta \<noteq> 0 \<longrightarrow>
        0 < sint (lf_killAfter fl) \<and> sint (lf_killAfter fl) \<le> int (length rs))"
proof -
  let ?cfg = "\<lparr>lc_increments = lf_increments fl, lc_thinkTime = lf_thinkTime fl, lc_killAfter = lf_killAfter fl\<rparr>"
  obtain l fault meta0 where su: "load_setup fl env (Now os w) = Inr (l, fault, meta0)"
    using assms(1) by (cases "load_setup fl env (Now os w)") (auto simp: loadgen_main_def)
  define p where "p = run_pool ?cfg os call es (start_pool (lf_workers fl) (start_run fault, l, w))"
  obtain s l' w' where st: "shared_run p = (s, l', w')" by (rule prod_cases3)
  have rest: "(case write_rows env 0 (rows s) of Inl message \<Rightarrow> Inl message | Inr (n, rs) \<Rightarrow>
      (case le_WriteMeta env of
        Some err \<Rightarrow> fatalf ''failed to write run metadata: '' err
      | None \<Rightarrow> Inr (csv_text (csv_header # rs), loadgen_meta_path (lf_output fl), finish_meta meta0 (Now os w') s (final l' w'))))
    = Inr (csv, path, meta)"
    using assms(1) st by (simp add: loadgen_main_def su Let_def flip: p_def)
  then obtain n rs where w: "write_rows env 0 (rows s) = Inr (n, rs)" by (auto split: sum.splits)
  from rest w have out: "csv = csv_text (csv_header # rs)" "path = loadgen_meta_path (lf_output fl)"
      "meta = finish_meta meta0 (Now os w') s (final l' w')"
    by (auto simp: fatalf_def split: option.splits)
  have "sane_config ?cfg" using load_setup_config [OF su] assms(2) by (simp add: sane_config_def)
  then have "pool_ok ?cfg (nat (sint (lf_workers fl))) p \<and> books_ok ?cfg p" unfolding p_def by (rule run_pool_ok)
  then have books: "successCount s + failureCount s = of_nat (length (rows s))"
      "length (rows s) < 2 ^ 63 \<Longrightarrow> killTriggered s \<longleftrightarrow> 0 < sint (lf_killAfter fl) \<and> sint (lf_killAfter fl) \<le> int (length (rows s))"
    by (simp_all add: books_ok_def Let_def st)
  have "SuccessCount meta = successCount s" "FailureCount meta = failureCount s" "KillTriggeredAtNS meta \<noteq> 0 \<Longrightarrow> killTriggered s"
    using load_setup_config [OF su]
    by (auto simp: out(3) finish_meta_def Let_def split: option.splits sum.splits if_splits)
  then show ?thesis using write_rows_records [OF w] out(1,2) books by auto
qed


lemma write_rows_ok:
  "(\<And>r. le_Write env r = None) \<Longrightarrow> (\<And>n. le_Flush env n = None) \<Longrightarrow>
   write_rows env n rs = Inr (n + length rs, map (csv_record latency_text) rs)"
  by (induction rs arbitrary: n) (simp_all add: Let_def)

definition quiet_env :: load_env where
  "quiet_env = \<lparr>le_MkdirAll = None, le_Create = None, le_Write = (\<lambda>r. None), le_Flush = (\<lambda>n. None),
     le_NewClient = (\<lambda>a. Inr (ClientConn a)), le_WriteMeta = None\<rparr>"

definition small_flags :: load_flags where
  "small_flags = default_load_flags\<lparr>lf_servers := ''a:1'', lf_workers := 1, lf_increments := 2\<rparr>"


end
