(* ===== verification/Svg_Files.thy ===== *)
theory Svg_Files
  imports Report Decimal_Text
begin

text \<open>
  The two SVG files \<open>scripts/analyze.go\<close> writes, character by character, and what makes such a text a
  well-formed document: one root element, every element closed in its turn, every attribute named
  and quoted.  The checker is an automaton that reads one character at a time, so the lemmas treat
  a file piece by piece.
\<close>

section \<open>Well-formed documents\<close>

text \<open>
  Where the automaton is in the text.  In and behind a tag it knows the tag's name; besides, it knows
  the elements that are open, innermost first, and whether the root has been seen.
\<close>

datatype xml_mode =
    InText
  | TagOpen
  | Declaration
  | DeclarationEnd
  | TagName string
  | Attributes string
  | AttrName string
  | AttrEquals string
  | AttrValue string
  | AttrEnd string
  | SelfClose string
  | CloseName string

type_synonym xml_state = "xml_mode \<times> string list \<times> bool"

definition name_char :: "char \<Rightarrow> bool" where
  "name_char c \<longleftrightarrow> c \<notin> {CHR 0x22, CHR ''<'', CHR ''>'', CHR ''/'', CHR ''='', CHR ''&'', CHR ''?'', CHR 0x20, CHR 0x0A}"

definition blank :: "char \<Rightarrow> bool" where
  "blank c \<longleftrightarrow> c = CHR 0x20 \<or> c = CHR 0x0A"

text \<open>An element starts: at the top it has to be the first one.\<close>

definition push :: "string \<Rightarrow> string list \<times> bool \<Rightarrow> xml_state option" where
  "push nm os = (if fst os = [] \<and> snd os then None else Some (InText, nm # fst os, True))"

fun xml_step :: "xml_state \<Rightarrow> char \<Rightarrow> xml_state option" where
  "xml_step (InText, os) c =
     (if c = CHR ''<'' then Some (TagOpen, os)
      else if c = CHR ''&'' then None
      else if fst os = [] \<and> \<not> blank c then None
      else Some (InText, os))"
| "xml_step (TagOpen, os) c =
     (if c = CHR ''/'' then Some (CloseName [], os)
      else if c = CHR ''?'' \<and> os = ([], False) then Some (Declaration, os)
      else if name_char c then Some (TagName [c], os)
      else None)"
| "xml_step (Declaration, os) c = Some (if c = CHR ''?'' then DeclarationEnd else Declaration, os)"
| "xml_step (DeclarationEnd, os) c = (if c = CHR ''>'' then Some (InText, os) else None)"
| "xml_step (TagName nm, os) c =
     (if blank c then Some (Attributes nm, os)
      else if c = CHR ''>'' then push nm os
      else if c = CHR ''/'' then Some (SelfClose nm, os)
      else if name_char c then Some (TagName (nm @ [c]), os)
      else None)"
| "xml_step (Attributes nm, os) c =
     (if blank c then Some (Attributes nm, os)
      else if c = CHR ''>'' then push nm os
      else if c = CHR ''/'' then Some (SelfClose nm, os)
      else if name_char c then Some (AttrName nm, os)
      else None)"
| "xml_step (AttrName nm, os) c =
     (if c = CHR ''='' then Some (AttrEquals nm, os) else if name_char c then Some (AttrName nm, os) else None)"
| "xml_step (AttrEquals nm, os) c = (if c = CHR 0x22 then Some (AttrValue nm, os) else None)"
| "xml_step (AttrValue nm, os) c =
     (if c = CHR 0x22 then Some (AttrEnd nm, os)
      else if c = CHR ''<'' \<or> c = CHR ''&'' then None
      else Some (AttrValue nm, os))"
| "xml_step (AttrEnd nm, os) c =
     (if blank c then Some (Attributes nm, os)
      else if c = CHR ''>'' then push nm os
      else if c = CHR ''/'' then Some (SelfClose nm, os)
      else None)"
| "xml_step (SelfClose nm, os) c =
     (if c = CHR ''>'' then map_option (\<lambda>st. (InText, os)) (push nm os) else None)"
| "xml_step (CloseName nm, os) c =
     (if c = CHR ''>'' then (case fst os of [] \<Rightarrow> None | o1 # rest \<Rightarrow> if o1 = nm then Some (InText, rest, snd os) else None)
      else if name_char c then Some (CloseName (nm @ [c]), os)
      else None)"

fun xml_scan :: "string \<Rightarrow> xml_state \<Rightarrow> xml_state option" where
  "xml_scan [] st = Some st"
| "xml_scan (c # cs) st = (case xml_step st c of None \<Rightarrow> None | Some st' \<Rightarrow> xml_scan cs st')"

definition well_formed :: "string \<Rightarrow> bool" where
  "well_formed s \<longleftrightarrow> xml_scan s (InText, [], False) = Some (InText, [], True)"

section \<open>The files\<close>

definition itoa :: "int64 \<Rightarrow> string" where
  "itoa i = FormatInt i"

fun join_lines :: "string list \<Rightarrow> string" where
  "join_lines [] = []"
| "join_lines [l] = l"
| "join_lines (l # ls) = l @ [CHR 0x0A] @ join_lines ls"

definition failoverLabel :: "float64 option \<Rightarrow> int64 \<Rightarrow> int64 \<Rightarrow> float64 \<Rightarrow> string" where
  "failoverLabel failoverLine top' bottom failoverLatencyMS =
     (case failoverLine of None \<Rightarrow> [] | Some x \<Rightarrow> join_lines
       [''<line x1=\"'' @ fixed 2 x @ ''\" y1=\"'' @ itoa top' @ ''\" x2=\"'' @ fixed 2 x @ ''\" y2=\"'' @ itoa bottom @ ''\" stroke=\"#dc2626\" stroke-width=\"1.5\" stroke-dasharray=\"6 4\"/>'',
        ''  <text x=\"'' @ fixed 2 (fadd x (Fin 8)) @ ''\" y=\"'' @ itoa (top' + 14) @ ''\" font-family=\"Menlo, monospace\" font-size=\"12\" fill=\"#b91c1c\">failover '' @ fixed 1 failoverLatencyMS @ '' ms</text>''])"

definition cdf_points_text :: "(float64 \<times> float64) list \<Rightarrow> string" where
  "cdf_points_text ps = concat (map (\<lambda>(x, y). fixed 2 x @ '','' @ fixed 2 y @ '' '') ps)"

definition cdf_svg :: "float64 list \<Rightarrow> float64 \<Rightarrow> string" where
  "cdf_svg latencies failoverLatencyMS =
     (case writeCDFSVG latencies failoverLatencyMS of
        None \<Rightarrow> ''<svg xmlns=\"http://www.w3.org/2000/svg\" width=\"900\" height=\"520\"></svg>''
      | Some p \<Rightarrow>
          let width = 900; height = 520; left = 70; right = 30; top' = 40; bottom = 60; points = cdf_points_text (cp_points p)
          in join_lines
       [''<?xml version=\"1.0\" encoding=\"UTF-8\"?>'',
        ''<svg xmlns=\"http://www.w3.org/2000/svg\" width=\"'' @ itoa width @ ''\" height=\"'' @ itoa height @ ''\" viewBox=\"0 0 '' @ itoa width @ '' '' @ itoa height @ ''\">'',
        ''  <rect width=\"100%\" height=\"100%\" fill=\"#fffdf7\"/>'',
        ''  <text x=\"'' @ itoa left @ ''\" y=\"24\" font-family=\"Menlo, monospace\" font-size=\"18\" fill=\"#1f2937\">Latency CDF</text>'',
        ''  <line x1=\"'' @ itoa left @ ''\" y1=\"'' @ itoa (height - bottom) @ ''\" x2=\"'' @ itoa (width - right) @ ''\" y2=\"'' @ itoa (height - bottom) @ ''\" stroke=\"#111827\" stroke-width=\"1.5\"/>'',
        ''  <line x1=\"'' @ itoa left @ ''\" y1=\"'' @ itoa (height - bottom) @ ''\" x2=\"'' @ itoa left @ ''\" y2=\"'' @ itoa top' @ ''\" stroke=\"#111827\" stroke-width=\"1.5\"/>'',
        ''  <polyline fill=\"none\" stroke=\"#0f766e\" stroke-width=\"2\" points=\"'' @ points @ ''\"/>'',
        ''  <text x=\"'' @ itoa left @ ''\" y=\"'' @ itoa (height - bottom + 20) @ ''\" font-family=\"Menlo, monospace\" font-size=\"12\" fill=\"#374151\">0 ms</text>'',
        ''  <text x=\"'' @ itoa (width - right) @ ''\" y=\"'' @ itoa (height - bottom + 20) @ ''\" text-anchor=\"end\" font-family=\"Menlo, monospace\" font-size=\"12\" fill=\"#374151\">'' @ fixed 1 (cp_xMax p) @ '' ms</text>'',
        ''  <text x=\"'' @ itoa (left - 28) @ ''\" y=\"'' @ itoa (height - bottom) @ ''\" font-family=\"Menlo, monospace\" font-size=\"12\" fill=\"#374151\">0%</text>'',
        ''  <text x=\"'' @ itoa (left - 38) @ ''\" y=\"'' @ itoa (top' + 4) @ ''\" font-family=\"Menlo, monospace\" font-size=\"12\" fill=\"#374151\">100%</text>'',
        ''  <text x=\"'' @ itoa (width div 2) @ ''\" y=\"'' @ itoa (height - 18) @ ''\" font-family=\"Menlo, monospace\" font-size=\"12\" fill=\"#374151\">Latency (ms)</text>'',
        ''  <text x=\"'' @ itoa 20 @ ''\" y=\"'' @ itoa (height div 2) @ ''\" transform=\"rotate(-90 '' @ itoa 20 @ '' '' @ itoa (height div 2) @ '')\" font-family=\"Menlo, monospace\" font-size=\"12\" fill=\"#374151\">CDF</text>'',
        ''  '' @ failoverLabel (cp_failover p) top' (height - bottom) failoverLatencyMS,
        ''</svg>''])"

definition timeline_points_text :: "(float64 \<times> float64 \<times> string) list \<Rightarrow> string" where
  "timeline_points_text ps = concat (map (\<lambda>(x, y, color). ''<circle cx=\"'' @ fixed 2 x @ ''\" cy=\"'' @ fixed 2 y @ ''\" r=\"3\" fill=\"'' @ color @ ''\"/>'') ps)"

definition timeline_window_text :: "(float64 \<times> float64) option \<Rightarrow> int64 \<Rightarrow> int64 \<Rightarrow> int64 \<Rightarrow> string" where
  "timeline_window_text w height top' bottom =
     (case w of None \<Rightarrow> [] | Some (x1, width) \<Rightarrow> join_lines
       [''<rect x=\"'' @ fixed 2 x1 @ ''\" y=\"'' @ itoa top' @ ''\" width=\"'' @ fixed 2 width @ ''\" height=\"'' @ itoa (height - top' - bottom) @ ''\" fill=\"#fca5a5\" fill-opacity=\"0.25\"/>'',
        ''  <text x=\"'' @ fixed 2 (fadd x1 (Fin 6)) @ ''\" y=\"'' @ itoa (top' + 14) @ ''\" font-family=\"Menlo, monospace\" font-size=\"12\" fill=\"#991b1b\">failover window</text>''])"

definition timeline_svg :: "timeline_plot \<Rightarrow> string" where
  "timeline_svg p =
     (let width = 900; height = 520; left = 70; right = 30; top' = 40; bottom = 60;
          points = timeline_points_text (tp_points p); window = timeline_window_text (tp_window p) height top' bottom
      in join_lines
       [''<?xml version=\"1.0\" encoding=\"UTF-8\"?>'',
        ''<svg xmlns=\"http://www.w3.org/2000/svg\" width=\"'' @ itoa width @ ''\" height=\"'' @ itoa height @ ''\" viewBox=\"0 0 '' @ itoa width @ '' '' @ itoa height @ ''\">'',
        ''  <rect width=\"100%\" height=\"100%\" fill=\"#fffdf7\"/>'',
        ''  <text x=\"'' @ itoa left @ ''\" y=\"24\" font-family=\"Menlo, monospace\" font-size=\"18\" fill=\"#1f2937\">Latency Timeline</text>'',
        ''  '' @ window,
        ''  <line x1=\"'' @ itoa left @ ''\" y1=\"'' @ itoa (height - bottom) @ ''\" x2=\"'' @ itoa (width - right) @ ''\" y2=\"'' @ itoa (height - bottom) @ ''\" stroke=\"#111827\" stroke-width=\"1.5\"/>'',
        ''  <line x1=\"'' @ itoa left @ ''\" y1=\"'' @ itoa (height - bottom) @ ''\" x2=\"'' @ itoa left @ ''\" y2=\"'' @ itoa top' @ ''\" stroke=\"#111827\" stroke-width=\"1.5\"/>'',
        ''  '' @ points,
        ''  <text x=\"'' @ itoa left @ ''\" y=\"'' @ itoa (height - bottom + 20) @ ''\" font-family=\"Menlo, monospace\" font-size=\"12\" fill=\"#374151\">0 ms</text>'',
        ''  <text x=\"'' @ itoa (width - right) @ ''\" y=\"'' @ itoa (height - bottom + 20) @ ''\" text-anchor=\"end\" font-family=\"Menlo, monospace\" font-size=\"12\" fill=\"#374151\">'' @ fixed 1 (tp_durationMS p) @ '' ms</text>'',
        ''  <text x=\"'' @ itoa (left - 34) @ ''\" y=\"'' @ itoa (height - bottom) @ ''\" font-family=\"Menlo, monospace\" font-size=\"12\" fill=\"#374151\">0 ms</text>'',
        ''  <text x=\"'' @ itoa (left - 48) @ ''\" y=\"'' @ itoa (top' + 4) @ ''\" font-family=\"Menlo, monospace\" font-size=\"12\" fill=\"#374151\">'' @ fixed 1 (tp_maxLatency p) @ '' ms</text>'',
        ''  <text x=\"'' @ itoa (width div 2) @ ''\" y=\"'' @ itoa (height - 18) @ ''\" font-family=\"Menlo, monospace\" font-size=\"12\" fill=\"#374151\">Time Since Start (ms)</text>'',
        ''  <text x=\"'' @ itoa 20 @ ''\" y=\"'' @ itoa (height div 2) @ ''\" transform=\"rotate(-90 '' @ itoa 20 @ '' '' @ itoa (height div 2) @ '')\" font-family=\"Menlo, monospace\" font-size=\"12\" fill=\"#374151\">Latency (ms)</text>'',
        ''</svg>''])"


section \<open>The files are well-formed\<close>

lemma xml_scan_append: "xml_scan (s @ t) st = (case xml_scan s st of None \<Rightarrow> None | Some st' \<Rightarrow> xml_scan t st')"
  by (induction s arbitrary: st) (auto split: option.splits)

text \<open>Numbers, and lists of numbers, pass as text and as part of an attribute.\<close>

definition plain :: "string \<Rightarrow> bool" where
  "plain s \<longleftrightarrow> list_all (\<lambda>c. c \<noteq> CHR 0x22 \<and> c \<noteq> CHR ''<'' \<and> c \<noteq> CHR ''&'') s"

lemma plain_Nil [simp]: "plain []"
  by (simp add: plain_def)

lemma plain_Cons [simp]: "plain (c # s) \<longleftrightarrow> c \<noteq> CHR 0x22 \<and> c \<noteq> CHR ''<'' \<and> c \<noteq> CHR ''&'' \<and> plain s"
  by (auto simp: plain_def)

lemma plain_append [simp]: "plain (s @ t) \<longleftrightarrow> plain s \<and> plain t"
  by (simp add: plain_def)

lemma scan_plain [simp]:
  "plain s \<Longrightarrow> xml_scan s (AttrValue nm, st) = Some (AttrValue nm, st)"
  "plain s \<Longrightarrow> xml_scan s (InText, o1 # os, b) = Some (InText, o1 # os, b)"
  by (induction s) auto

lemma plain_digits: "list_all is_digit s \<Longrightarrow> plain s"
  unfolding plain_def list_all_iff by (auto simp: is_digit_def digit_val_def)

lemma plain_itoa [simp]: "plain (itoa i)"
  using plain_digits [OF dec_digits_all] by (auto simp: itoa_def FormatInt_def Let_def)

lemma plain_fixed [simp]: "plain (fixed p v)"
  using plain_digits [OF dec_digits_all] plain_digits [OF frac_digits_all]
  by (auto simp: fixed_def Let_def split: float64.splits)

definition neutral :: "string \<Rightarrow> bool" where
  "neutral s \<longleftrightarrow> xml_scan s (InText, [''svg''], True) = Some (InText, [''svg''], True)"

lemma neutral_append: "neutral s \<Longrightarrow> neutral t \<Longrightarrow> neutral (s @ t)"
  by (simp add: neutral_def xml_scan_append)

lemma neutral_join: "list_all neutral ls \<Longrightarrow> neutral (join_lines ls)"
proof (induction ls rule: join_lines.induct)
  case (3 l l' ls)
  have "neutral [CHR 0x0A]" by (simp add: neutral_def)
  from neutral_append [OF this, of "join_lines (l' # ls)"] show ?case
    using 3 neutral_append [of l] by simp
qed (simp_all add: neutral_def)

lemma neutral_concat: "list_all neutral ls \<Longrightarrow> neutral (concat ls)"
  by (induction ls) (auto simp: neutral_append, simp add: neutral_def)

lemmas xml_simps = neutral_def xml_scan_append push_def name_char_def blank_def

lemma neutral_label: "neutral (failoverLabel failoverLine t b latency)"
proof (cases failoverLine)
  case (Some x)
  show ?thesis unfolding failoverLabel_def Some option.case
    by (rule neutral_join) (simp add: xml_simps)
qed (simp add: failoverLabel_def neutral_def)

lemma plain_cdf_points: "plain (cdf_points_text ps)"
  by (induction ps) (auto simp: cdf_points_text_def)

text \<open>A document: the declaration, the root with neutral lines in it, and its end.\<close>

definition xml_prolog :: string where
  "xml_prolog = ''<?xml version=\"1.0\" encoding=\"UTF-8\"?>''"

lemma join_lines_Cons: "ls \<noteq> [] \<Longrightarrow> join_lines (l # ls) = l @ [CHR 0x0A] @ join_lines ls"
  by (cases ls) simp_all

lemma scan_prolog: "xml_scan xml_prolog (InText, [], False) = Some (InText, [], False)"
  by (simp add: xml_prolog_def blank_def)

definition svg_root :: "int64 \<Rightarrow> int64 \<Rightarrow> string" where
  "svg_root w h =
     ''<svg xmlns=\"http://www.w3.org/2000/svg\" width=\"'' @ itoa w @ ''\" height=\"'' @ itoa h @ ''\" viewBox=\"0 0 '' @ itoa w @ '' '' @ itoa h @ ''\">''"

lemma scan_root: "xml_scan (svg_root w h) (InText, [], False) = Some (InText, [''svg''], True)"
  by (simp add: svg_root_def xml_simps)

lemma well_formed_document:
  assumes "list_all neutral ls" and "ls \<noteq> []"
  shows "well_formed (join_lines (xml_prolog #
    svg_root w h # ls @ [''</svg>'']))"
proof -
  have "join_lines (ls @ [''</svg>'']) = join_lines ls @ [CHR 0x0A] @ ''</svg>''"
    using assms(2)
  proof (induction ls)
    case (Cons l ls)
    then show ?case by (cases ls) (simp_all add: join_lines_Cons)
  qed simp
  moreover have "xml_scan (join_lines ls) (InText, [''svg''], True) = Some (InText, [''svg''], True)"
    using neutral_join [OF assms(1)] by (simp add: neutral_def)
  moreover have "xml_scan ([CHR 0x0A] @ ''</svg>'') (InText, [''svg''], True) = Some (InText, [], True)"
    by (simp add: xml_simps)
  moreover have "xml_scan [CHR 0x0A] (InText, [], False) = Some (InText, [], False)"
      "xml_scan [CHR 0x0A] (InText, [''svg''], True) = Some (InText, [''svg''], True)"
    by (simp_all add: blank_def)
  ultimately show ?thesis
    by (simp only: well_formed_def join_lines_Cons list.simps append_is_Nil_conv simp_thms xml_scan_append scan_prolog scan_root option.case)
qed

lemma well_formed_lines:
  assumes "a = xml_prolog" and "b = svg_root w h" and "list_all neutral (butlast ls)" and "last ls = ''</svg>''" and "1 < length ls"
  shows "well_formed (join_lines (a # b # ls))"
proof -
  have "ls = butlast ls @ [''</svg>'']" using assms(4,5) by (metis append_butlast_last_id list.size(3) not_one_less_zero)
  moreover have "butlast ls \<noteq> []" using assms(5) by (cases ls) auto
  ultimately show ?thesis using well_formed_document [OF assms(3), of w h] assms(1,2) by simp
qed

lemma cdf_svg_well_formed: "well_formed (cdf_svg latencies latency)"
proof (cases "writeCDFSVG latencies latency")
  case None
  then show ?thesis by (simp add: cdf_svg_def well_formed_def xml_simps)
next
  case (Some p)
  have points: "plain (cdf_points_text (cp_points p))" by (rule plain_cdf_points)
  have label: "neutral (''  '' @ failoverLabel (cp_failover p) 40 (520 - 60) latency)"
    by (intro neutral_append neutral_label) (simp add: neutral_def)
  show ?thesis
    unfolding cdf_svg_def Some option.case Let_def
    using points label
    by (intro well_formed_lines [where w = 900 and h = 520])
      (simp_all add: xml_simps xml_prolog_def svg_root_def)
qed

lemma neutral_points: "\<forall>(x, y, color) \<in> set ps. plain color \<Longrightarrow> neutral (timeline_points_text ps)"
  unfolding timeline_points_text_def
  by (rule neutral_concat) (auto simp: list_all_iff xml_simps)

lemma neutral_window: "neutral (timeline_window_text w height t b)"
proof (cases w)
  case (Some x)
  obtain x1 width where "x = (x1, width)" by fastforce
  then show ?thesis unfolding timeline_window_text_def Some option.case prod.case
    by (simp only: prod.case) (rule neutral_join, simp add: xml_simps)
qed (simp add: timeline_window_text_def neutral_def)

lemma timeline_svg_well_formed:
  assumes "writeTimelineSVG samples meta failoverEndNS = Inr p"
  shows "well_formed (timeline_svg p)"
proof -
  have "\<forall>(x, y, color) \<in> set (tp_points p). plain color"
    using assms by (auto simp: writeTimelineSVG_def timeline_points_def split: sum.splits)
  then have points: "neutral (''  '' @ timeline_points_text (tp_points p))"
    by (intro neutral_append neutral_points) (simp add: neutral_def)
  have window: "neutral (''  '' @ timeline_window_text (tp_window p) 520 40 60)"
    by (intro neutral_append neutral_window) (simp add: neutral_def)
  show ?thesis
    unfolding timeline_svg_def Let_def
    using points window
    by (intro well_formed_lines [where w = 900 and h = 520])
      (simp_all add: xml_simps xml_prolog_def svg_root_def)
qed

end
