(* ===== verification/Analysis_Command.thy ===== *)
theory Analysis_Command
  imports Svg_Files Run_Metadata
begin

text \<open>
  \<open>main\<close> of \<open>scripts/analyze.go\<close>: its flags, the lines it prints and the files it writes.  The files
  it reads, and whether a file can be written, are parameters.  A run that ends in a panic is the
  panic; what it printed before is not kept.
\<close>

section \<open>The command\<close>

record analyze_flags =
  af_input :: string
  af_meta :: string
  af_cdfOut :: string
  af_timelineOut :: string

definition default_analyze_flags :: analyze_flags where
  "default_analyze_flags = \<lparr>af_input = ''results/loadgen.csv'', af_meta = [], af_cdfOut = [], af_timelineOut = []\<rparr>"

record analyze_env =
  ae_csv :: "string \<Rightarrow> go_error + string"
  ae_wording :: "string \<Rightarrow> csv_error \<Rightarrow> go_error"
  ae_meta :: "string \<Rightarrow> json option"
  ae_write :: "string \<Rightarrow> string \<Rightarrow> go_error option"

record analyze_output =
  ao_stdout :: "string list"
  ao_files :: "(string \<times> string) list"
  ao_fatal :: "string option"

definition count_lines :: "report \<Rightarrow> string list" where
  "count_lines rp =
     [''rows: '' @ dec_digits (rp_rows rp), ''successes: '' @ dec_digits (rp_successes rp), ''failures: '' @ dec_digits (rp_failures rp)]"

definition percentile_lines :: "report \<Rightarrow> string list" where
  "percentile_lines rp = map2 (\<lambda>name v. name @ '': '' @ fixed 3 v @ '' ms'') [''p50'', ''p95'', ''p99''] (rp_percentiles rp)"

definition kill_lines :: "report \<Rightarrow> run_meta option \<Rightarrow> string list" where
  "kill_lines rp meta =
     (case meta of
        None \<Rightarrow> []
      | Some m \<Rightarrow>
          if 0 <s rm_KillTriggeredAtNS m then
            (if 0 <s fst (rp_failover rp)
             then [''kill_at: '' @ FormatInt (rm_KillTriggeredAtNS m), ''kill_target: '' @ rm_KillResolvedAddr m,
                   ''failover_latency: '' @ fixed 3 (snd (rp_failover rp)) @ '' ms'']
             else []) @
            (if rm_KillError m \<noteq> [] then [''kill_error: '' @ rm_KillError m] else [])
          else [])"

definition analyze_main :: "analyze_flags \<Rightarrow> analyze_env \<Rightarrow> (string \<Rightarrow> go_error + float64) \<Rightarrow>
    (float64 sample list \<Rightarrow> float64 sample list) \<Rightarrow> panic + analyze_output" where
  "analyze_main fl env parse sort_slice =
     (let (metaPath, cdfOut, timelineOut) = default_paths (af_input fl) (af_meta fl) (af_cdfOut fl) (af_timelineOut fl)
      in case readSamples (ae_wording env) parse sort_slice (ae_csv env (af_input fl)) of
           Inl p \<Rightarrow> Inl p
         | Inr (Inl err) \<Rightarrow> Inr \<lparr>ao_stdout = [], ao_files = [], ao_fatal = Some (''failed to read samples: '' @ error_text err)\<rparr>
         | Inr (Inr samples) \<Rightarrow>
             let meta = readMeta (ae_meta env metaPath)
             in case analyze (Inr (Inr samples)) meta of
                  Inl p \<Rightarrow> Inl p
                | Inr (Inl message) \<Rightarrow> Inr \<lparr>ao_stdout = [], ao_files = [], ao_fatal = Some message\<rparr>
                | Inr (Inr rp) \<Rightarrow>
                    let printed = count_lines rp @ percentile_lines rp @ kill_lines rp meta;
                        cdf = cdf_svg (sort (fst (tally samples))) (snd (rp_failover rp));
                        timeline = timeline_svg (rp_timeline rp)
                    in case ae_write env cdfOut cdf of
                         Some err \<Rightarrow>
                           Inr \<lparr>ao_stdout = printed, ao_files = [],
                                ao_fatal = Some (''failed to write CDF SVG: '' @ error_text err)\<rparr>
                       | None \<Rightarrow>
                           (case ae_write env timelineOut timeline of
                              Some err \<Rightarrow>
                                Inr \<lparr>ao_stdout = printed, ao_files = [(cdfOut, cdf)],
                                     ao_fatal = Some (''failed to write timeline SVG: '' @ error_text err)\<rparr>
                            | None \<Rightarrow>
                                Inr \<lparr>ao_stdout = printed @ [''cdf_svg: '' @ cdfOut, ''timeline_svg: '' @ timelineOut],
                                     ao_files = [(cdfOut, cdf), (timelineOut, timeline)], ao_fatal = None\<rparr>))"

section \<open>What it writes\<close>

lemma analyze_timeline:
  assumes "analyze (Inr (Inr samples)) meta = Inr (Inr rp)"
  shows "\<exists>stop. writeTimelineSVG samples meta stop = Inr (rp_timeline rp)"
  using assms by (auto simp: analyze_def split: if_splits prod.splits sum.splits)


definition one_row :: resultRow where
  "one_row = \<lparr>OpID = 1, WorkerID = 1, Operation = 1, StartNS = 5, EndNS = 1000005, Status = ''OK'', AttemptCount = 1,
     LeaderBefore = ''a'', LeaderAfter = ''a'', ErrorText = []\<rparr>"

definition full_disk :: analyze_env where
  "full_disk = \<lparr>ae_csv = (\<lambda>path. Inr (csv_text (csv_header # map (csv_record (\<lambda>d. ''2.000'')) [one_row]))),
     ae_wording = (\<lambda>text e. OtherError ''parse error''), ae_meta = (\<lambda>path. None),
     ae_write = (\<lambda>path text. if path = ''results/loadgen.timeline.svg'' then Some (OtherError ''no space left on device'') else None)\<rparr>"


end
